(* ===== verification/Go_Base.thy ===== *)
theory Go_Base
  imports Main "HOL-Library.Sublist" "HOL-Library.Char_ord" "HOL-Library.List_Lexorder"
    "HOL-Library.Product_Lexorder"
begin

text \<open>
  The prelude of the development: the part of Go's language and \<^verbatim>\<open>strings\<close> package the
  sources of \<^verbatim>\<open>statute\<close> use, and the generic facts the components share.

  A Go string is a sequence of bytes, here \<^typ>\<open>string\<close> (a list of 8-bit characters), so
  \<^verbatim>\<open>len\<close> is \<^const>\<open>length\<close> and \<^verbatim>\<open>s[i:j]\<close> is made of \<^const>\<open>take\<close> and \<^const>\<open>drop\<close>.
  Case folding (\<^verbatim>\<open>strings.ToLower\<close>, \<^verbatim>\<open>strings.EqualFold\<close>) is the ASCII one; bytes from 0x80 on
  are left alone. That is Go's result on every ASCII string, and host names and header field
  names are ASCII once \<^verbatim>\<open>net/http\<close> has accepted them.

  A fallible Go function \<^verbatim>\<open>(T, error)\<close> returns a sum: \<open>Inl\<close> of the error, \<open>Inr\<close> of the value;
  \<open>bindR\<close> is the \<^verbatim>\<open>if err != nil { return err }\<close> idiom.
\<close>

named_theorems go_defs \<open>definitions of the Go string library, for unfolding\<close>
named_theorems resultI \<open>facts that decompose a successful result\<close>

section \<open>Results\<close>

definition bindR :: "'e + 'a \<Rightarrow> ('a \<Rightarrow> 'e + 'b) \<Rightarrow> 'e + 'b" where
  "bindR r f = (case r of Inl e \<Rightarrow> Inl e | Inr a \<Rightarrow> f a)"

lemma bindR_simps [simp]: "bindR (Inl e) f = Inl e" "bindR (Inr a) f = f a"
  by (simp_all add: bindR_def)

lemma bindR_Inr_iff [resultI]: "bindR r f = Inr b \<longleftrightarrow> (\<exists>a. r = Inr a \<and> f a = Inr b)"
  by (cases r) auto

lemma bindR_Inl_iff: "bindR r f = Inl e \<longleftrightarrow> r = Inl e \<or> (\<exists>a. r = Inr a \<and> f a = Inl e)"
  by (cases r) auto

lemma bindR_cong [fundef_cong]:
  "r = r' \<Longrightarrow> (\<And>a. r' = Inr a \<Longrightarrow> f a = g a) \<Longrightarrow> bindR r f = bindR r' g"
  by (cases r') auto

text \<open>A loop that returns at the first error, as \<^verbatim>\<open>for _, a := range args\<close> with an early return.\<close>

fun mapR :: "('a \<Rightarrow> 'e + 'b) \<Rightarrow> 'a list \<Rightarrow> 'e + 'b list" where
  "mapR f [] = Inr []"
| "mapR f (x # xs) = bindR (f x) (\<lambda>y. bindR (mapR f xs) (\<lambda>ys. Inr (y # ys)))"

lemma mapR_Inr_iff: "mapR f xs = Inr ys \<longleftrightarrow> list_all2 (\<lambda>x y. f x = Inr y) xs ys"
  by (induction xs arbitrary: ys) (auto simp: bindR_Inr_iff list_all2_Cons1)

lemma mapR_set: "mapR f xs = Inr ys \<Longrightarrow> y \<in> set ys \<longleftrightarrow> (\<exists>x\<in>set xs. f x = Inr y)"
  by (induction xs arbitrary: ys) (auto simp: bindR_Inr_iff)

lemma mapR_total: "mapR f xs = Inr ys \<Longrightarrow> x \<in> set xs \<Longrightarrow> \<exists>y\<in>set ys. f x = Inr y"
  by (induction xs arbitrary: ys) (auto simp: bindR_Inr_iff)

section \<open>Bytes\<close>

abbreviation byte :: "char \<Rightarrow> nat" where
  "byte c \<equiv> of_char c"

definition isDigit :: "char \<Rightarrow> bool" where [go_defs]:
  "isDigit c \<longleftrightarrow> 48 \<le> byte c \<and> byte c \<le> 57"

definition isUpperAlpha :: "char \<Rightarrow> bool" where [go_defs]:
  "isUpperAlpha c \<longleftrightarrow> 65 \<le> byte c \<and> byte c \<le> 90"

definition isLowerAlpha :: "char \<Rightarrow> bool" where [go_defs]:
  "isLowerAlpha c \<longleftrightarrow> 97 \<le> byte c \<and> byte c \<le> 122"

definition lowerChar :: "char \<Rightarrow> char" where [go_defs]:
  "lowerChar c = (if isUpperAlpha c then char_of (byte c + 32) else c)"

lemma lowerChar_not_upper: "\<not> isUpperAlpha c \<Longrightarrow> lowerChar c = c"
  by (simp add: lowerChar_def)

lemma not_upper_lowerChar [simp]: "\<not> isUpperAlpha (lowerChar c)"
proof (cases "isUpperAlpha c")
  case True
  then have "byte (lowerChar c) = byte c + 32"
    by (simp add: lowerChar_def isUpperAlpha_def of_char_of)
  with True show ?thesis by (simp add: isUpperAlpha_def)
qed (simp add: lowerChar_def)

lemma lowerChar_idem [simp]: "lowerChar (lowerChar c) = lowerChar c"
  by (simp add: lowerChar_not_upper)

section \<open>Strings\<close>

definition toLower :: "string \<Rightarrow> string" where
  "toLower s = map lowerChar s"

definition equalFold :: "string \<Rightarrow> string \<Rightarrow> bool" where
  "equalFold s t \<longleftrightarrow> toLower s = toLower t"

lemma toLower_simps [simp]:
  "toLower [] = []" "toLower (c # s) = lowerChar c # toLower s"
  "toLower (s @ t) = toLower s @ toLower t" "length (toLower s) = length s"
  "toLower s = [] \<longleftrightarrow> s = []"
  by (auto simp: toLower_def)

lemma toLower_idem [simp]: "toLower (toLower s) = toLower s"
  by (simp add: toLower_def)

lemma equalFold_refl [simp]: "equalFold s s"
  by (simp add: equalFold_def)

lemma equalFold_sym: "equalFold s t \<Longrightarrow> equalFold t s"
  by (simp add: equalFold_def)

lemma equalFold_trans [trans]: "equalFold s t \<Longrightarrow> equalFold t u \<Longrightarrow> equalFold s u"
  by (simp add: equalFold_def)

lemma equalFold_Nil [simp]: "equalFold [] s \<longleftrightarrow> s = []" "equalFold s [] \<longleftrightarrow> s = []"
  by (cases s; simp add: equalFold_def)+

lemma equalFold_toLower [simp]: "equalFold (toLower s) t \<longleftrightarrow> equalFold s t"
    "equalFold s (toLower t) \<longleftrightarrow> equalFold s t"
  by (simp_all add: equalFold_def)

definition hasPrefix :: "string \<Rightarrow> string \<Rightarrow> bool" where
  "hasPrefix s p \<longleftrightarrow> take (length p) s = p"

definition hasSuffix :: "string \<Rightarrow> string \<Rightarrow> bool" where
  "hasSuffix s p \<longleftrightarrow> length p \<le> length s \<and> drop (length s - length p) s = p"

definition trimPrefix :: "string \<Rightarrow> string \<Rightarrow> string" where
  "trimPrefix s p = (if hasPrefix s p then drop (length p) s else s)"

definition trimSuffix :: "string \<Rightarrow> string \<Rightarrow> string" where
  "trimSuffix s p = (if hasSuffix s p then take (length s - length p) s else s)"

text \<open>\<^verbatim>\<open>strings.CutSuffix\<close>: the string before the suffix, and whether it was there.\<close>

definition cutSuffix :: "string \<Rightarrow> string \<Rightarrow> string \<times> bool" where
  "cutSuffix s p = (if hasSuffix s p then (take (length s - length p) s, True) else (s, False))"

lemma hasPrefix_iff: "hasPrefix s p \<longleftrightarrow> (\<exists>t. s = p @ t)"
  unfolding hasPrefix_def by (metis append_eq_conv_conj append_take_drop_id)

lemma hasSuffix_iff: "hasSuffix s p \<longleftrightarrow> (\<exists>t. s = t @ p)"
proof
  assume "hasSuffix s p"
  then have "s = take (length s - length p) s @ p"
    by (metis append_take_drop_id hasSuffix_def)
  then show "\<exists>t. s = t @ p" ..
qed (auto simp: hasSuffix_def)

lemma hasPrefix_refl [simp]: "hasPrefix s s" "hasPrefix s []" "hasPrefix (p @ t) p"
  by (simp_all add: hasPrefix_def)

lemma hasPrefix_trans: "hasPrefix s p \<Longrightarrow> hasPrefix p q \<Longrightarrow> hasPrefix s q"
  by (auto simp: hasPrefix_iff)

lemma hasPrefix_length: "hasPrefix s p \<Longrightarrow> length p \<le> length s"
  by (auto simp: hasPrefix_iff)

lemma hasPrefix_Cons [simp]:
  "hasPrefix (c # s) (d # p) \<longleftrightarrow> c = d \<and> hasPrefix s p" "hasPrefix [] (d # p) \<longleftrightarrow> False"
  by (auto simp: hasPrefix_def)

lemma hasPrefix_append_same [simp]: "hasPrefix (p @ s) (p @ q) \<longleftrightarrow> hasPrefix s q"
  by (auto simp: hasPrefix_iff)

lemma hasSuffix_append [simp]: "hasSuffix (t @ p) p" "hasSuffix p p"
  by (auto simp: hasSuffix_iff)

lemma cutSuffix_append [simp]: "cutSuffix (t @ p) p = (t, True)" "cutSuffix p p = ([], True)"
  by (simp_all add: cutSuffix_def)

lemma cutSuffix_True: "cutSuffix s p = (t, True) \<longleftrightarrow> s = t @ p"
  by (auto simp: cutSuffix_def hasSuffix_iff)

lemma cutSuffix_False: "cutSuffix s p = (t, False) \<longleftrightarrow> t = s \<and> \<not> hasSuffix s p"
  by (auto simp: cutSuffix_def)

definition containsAny :: "string \<Rightarrow> string \<Rightarrow> bool" where
  "containsAny s cs \<longleftrightarrow> list_ex (\<lambda>c. c \<in> set cs) s"

definition containsByte :: "string \<Rightarrow> char \<Rightarrow> bool" where
  "containsByte s c \<longleftrightarrow> c \<in> set s"

text \<open>
  \<^verbatim>\<open>strings.IndexByte\<close>, split form: the text before the first occurrence and the text after it
  (\<^verbatim>\<open>s[:i]\<close> and \<^verbatim>\<open>s[i+1:]\<close>), \<open>None\<close> for the index \<^verbatim>\<open>-1\<close>.
\<close>

fun cutByte :: "string \<Rightarrow> char \<Rightarrow> (string \<times> string) option" where
  "cutByte [] c = None"
| "cutByte (x # xs) c =
     (if x = c then Some ([], xs) else map_option (\<lambda>(a, b). (x # a, b)) (cutByte xs c))"

lemma cutByte_SomeD: "cutByte s c = Some (a, b) \<Longrightarrow> s = a @ c # b \<and> c \<notin> set a"
  by (induction s arbitrary: a) (fastforce split: if_splits)+

lemma cutByte_None: "cutByte s c = None \<longleftrightarrow> c \<notin> set s"
  by (induction s) auto

lemma cutByte_append [simp]: "c \<notin> set a \<Longrightarrow> cutByte (a @ c # b) c = Some (a, b)"
  by (induction a) auto

lemma cutByte_Some: "cutByte s c = Some (a, b) \<longleftrightarrow> s = a @ c # b \<and> c \<notin> set a"
  using cutByte_SomeD cutByte_append by blast

lemma cutByte_length: "cutByte s c = Some (a, b) \<Longrightarrow> length b < length s"
  using cutByte_SomeD by fastforce

text \<open>\<^verbatim>\<open>strings.TrimLeft\<close>, \<^verbatim>\<open>strings.TrimRight\<close> and \<^verbatim>\<open>strings.Trim\<close> with a cutset.\<close>

definition trimLeft :: "string \<Rightarrow> string \<Rightarrow> string" where
  "trimLeft s cs = dropWhile (\<lambda>c. c \<in> set cs) s"

definition trimRight :: "string \<Rightarrow> string \<Rightarrow> string" where
  "trimRight s cs = rev (dropWhile (\<lambda>c. c \<in> set cs) (rev s))"

definition trim :: "string \<Rightarrow> string \<Rightarrow> string" where
  "trim s cs = trimRight (trimLeft s cs) cs"

text \<open>
  \<^verbatim>\<open>strings.TrimSpace\<close> on ASCII: tab, newline, vertical tab, form feed, carriage return, space.
\<close>

definition spaceChars :: string where
  "spaceChars = [CHR 0x09, CHR 0x0A, CHR 0x0B, CHR 0x0C, CHR 0x0D, CHR 0x20]"

definition trimSpace :: "string \<Rightarrow> string" where
  "trimSpace s = trim s spaceChars"

text \<open>Space and horizontal tab, the cutset of the header parsers.\<close>

definition blankTab :: string where
  "blankTab = [CHR 0x20, CHR 0x09]"

lemma length_trimLeft: "length (trimLeft s cs) \<le> length s"
  by (simp add: trimLeft_def length_dropWhile_le)

text \<open>\<^verbatim>\<open>strings.Split\<close> and \<^verbatim>\<open>strings.SplitSeq\<close> on a one-byte separator; never empty.\<close>

fun splitByte :: "string \<Rightarrow> char \<Rightarrow> string list" where
  "splitByte [] c = [[]]"
| "splitByte (x # xs) c =
     (if x = c then [] # splitByte xs c
      else (case splitByte xs c of p # ps \<Rightarrow> (x # p) # ps | [] \<Rightarrow> [[x]]))"

lemma splitByte_not_Nil [simp]: "splitByte s c \<noteq> []"
  by (induction s) (auto split: list.splits)

fun joinStrings :: "string list \<Rightarrow> string \<Rightarrow> string" where
  "joinStrings [] sep = []"
| "joinStrings [p] sep = p"
| "joinStrings (p # q # ps) sep = p @ sep @ joinStrings (q # ps) sep"

text \<open>Splitting on a separator and joining with it gives the string back.\<close>

lemma joinStrings_splitByte: "joinStrings (splitByte s c) [c] = s"
proof (induction s)
  case (Cons x xs)
  obtain p ps where ps: "splitByte xs c = p # ps"
    by (cases "splitByte xs c") auto
  with Cons show ?case by (cases ps) auto
qed simp

definition countByte :: "string \<Rightarrow> char \<Rightarrow> nat" where
  "countByte s c = count_list s c"

lemma length_splitByte: "length (splitByte s c) = Suc (countByte s c)"
proof (induction s)
  case (Cons x xs)
  then show ?case
    by (cases "splitByte xs c") (simp_all add: countByte_def)
qed (simp add: countByte_def)

definition isASCII :: "string \<Rightarrow> bool" where
  "isASCII s \<longleftrightarrow> list_all (\<lambda>c. byte c < 128) s"

text \<open>Token characters (\<^verbatim>\<open>internal/parse/parse.go\<close>) and the RFC 9110 token test, an instance of the parameter that
  stands for \<^verbatim>\<open>httpguts.ValidHeaderFieldName\<close>.\<close>

definition isTchar :: "char \<Rightarrow> bool" where
  "isTchar c \<longleftrightarrow> isDigit c \<or> isLowerAlpha c \<or> isUpperAlpha c \<or>
     c \<in> set [CHR ''!'', CHR ''#'', CHR ''$'', CHR ''%'', CHR ''&'', CHR 0x27, CHR ''*'', CHR ''+'',
       CHR ''-'', CHR ''.'', CHR ''^'', CHR ''_'', CHR 0x60, CHR ''|'', CHR ''~'']"

definition validHeaderFieldName :: "string \<Rightarrow> bool" where
  "validHeaderFieldName s \<longleftrightarrow> s \<noteq> [] \<and> list_all isTchar s"

section \<open>Lists\<close>

text \<open>\<^verbatim>\<open>slices.Compact\<close>: drop consecutive repeats.\<close>

fun compact :: "'a list \<Rightarrow> 'a list" where
  "compact [] = []"
| "compact [x] = [x]"
| "compact (x # y # zs) = (if x = y then compact (y # zs) else x # compact (y # zs))"

lemma set_compact [simp]: "set (compact xs) = set xs"
  by (induction xs rule: compact.induct) auto

lemma compact_Cons_hd: "\<exists>ys. compact (x # xs) = x # ys"
  by (induction xs arbitrary: x) auto

lemma sorted_compact: "sorted xs \<Longrightarrow> sorted (compact xs)"
  by (induction xs rule: compact.induct) auto

lemma distinct_compact: "sorted xs \<Longrightarrow> distinct (compact xs)"
  by (induction xs rule: compact.induct) (auto dest: order.antisym)

text \<open>\<^verbatim>\<open>slices.Sort\<close> followed by \<^verbatim>\<open>slices.Compact\<close> is the canonical form of a finite set.\<close>

lemma compact_sort_canonical:
  fixes xs ys :: "'a::linorder list"
  assumes "set xs = set ys"
  shows "compact (sort xs) = compact (sort ys)"
proof -
  have "set (compact (sort xs)) = set (compact (sort ys))"
    using assms by simp
  then show ?thesis
    by (intro sorted_distinct_set_unique) (simp_all add: sorted_compact distinct_compact)
qed

end
