(* ===== verification/Docker_Match.thy ===== *)
theory Docker_Match
  imports Go_Base
begin

text \<open>
  The compiled route matcher of \<^verbatim>\<open>internal/docker\<close> (\<^verbatim>\<open>match.go\<close> and the type \<^verbatim>\<open>Matcher\<close> of
  \<^verbatim>\<open>rule.go\<close>): its data, the comparison the dispatcher runs (\<open>Match\<close>), and the order
  \<open>matcherLE\<close> the refusal envelopes are absorbed with. The lemmas show that the order is
  exactly containment of the accepted requests.
\<close>

section \<open>Data\<close>

datatype HostKind = HostAny | HostExact | HostTraefik

datatype PathKind = PathAny | PathExact | PathSegment | PathByte

record MiddlewareHints =
  Timeout :: string
  RateLimit :: string
  Compress :: string

record Matcher =
  Host :: string
  HostKind :: HostKind
  Path :: string
  PathKind :: PathKind
  Middlewares :: "string list"
  Hints :: MiddlewareHints
  PeerIPCIDRs :: "string list"
  ListenerNames :: "string list"
  Priority :: int
  PriorityOrder :: bool

text \<open>The kinds are \<^verbatim>\<open>uint8\<close> constants counted by \<^verbatim>\<open>iota\<close>; their order is the order of the numbers.\<close>

fun hostKindOrd :: "HostKind \<Rightarrow> nat" where
  "hostKindOrd HostAny = 0"
| "hostKindOrd HostExact = 1"
| "hostKindOrd HostTraefik = 2"

fun pathKindOrd :: "PathKind \<Rightarrow> nat" where
  "pathKindOrd PathAny = 0"
| "pathKindOrd PathExact = 1"
| "pathKindOrd PathSegment = 2"
| "pathKindOrd PathByte = 3"

lemma hostKindOrd_inject: "hostKindOrd a = hostKindOrd b \<longleftrightarrow> a = b"
  by (cases a; cases b) auto

lemma pathKindOrd_inject: "pathKindOrd a = pathKindOrd b \<longleftrightarrow> a = b"
  by (cases a; cases b) auto

instantiation HostKind :: linorder
begin

definition less_eq_HostKind :: "HostKind \<Rightarrow> HostKind \<Rightarrow> bool" where
  "less_eq_HostKind a b \<longleftrightarrow> hostKindOrd a \<le> hostKindOrd b"

definition less_HostKind :: "HostKind \<Rightarrow> HostKind \<Rightarrow> bool" where
  "less_HostKind a b \<longleftrightarrow> hostKindOrd a < hostKindOrd b"

instance
  by standard (auto simp: less_eq_HostKind_def less_HostKind_def hostKindOrd_inject)

end

instantiation PathKind :: linorder
begin

definition less_eq_PathKind :: "PathKind \<Rightarrow> PathKind \<Rightarrow> bool" where
  "less_eq_PathKind a b \<longleftrightarrow> pathKindOrd a \<le> pathKindOrd b"

definition less_PathKind :: "PathKind \<Rightarrow> PathKind \<Rightarrow> bool" where
  "less_PathKind a b \<longleftrightarrow> pathKindOrd a < pathKindOrd b"

instance
  by standard (auto simp: less_eq_PathKind_def less_PathKind_def pathKindOrd_inject)

end

definition emptyHints :: MiddlewareHints where
  "emptyHints = \<lparr>Timeout = [], RateLimit = [], Compress = []\<rparr>"

text \<open>The zero value \<^verbatim>\<open>Matcher{}\<close>.\<close>

definition zeroMatcher :: Matcher where
  "zeroMatcher = \<lparr>Host = [], HostKind = HostAny, Path = [], PathKind = PathAny, Middlewares = [],
     Hints = emptyHints, PeerIPCIDRs = [], ListenerNames = [], Priority = 0, PriorityOrder = False\<rparr>"

definition matcherEqual :: "Matcher \<Rightarrow> Matcher \<Rightarrow> bool" where
  "matcherEqual m o' \<longleftrightarrow> Host m = Host o' \<and> HostKind m = HostKind o' \<and> Path m = Path o' \<and>
     PathKind m = PathKind o' \<and> Middlewares m = Middlewares o' \<and> Hints m = Hints o' \<and>
     PeerIPCIDRs m = PeerIPCIDRs o' \<and> ListenerNames m = ListenerNames o' \<and>
     Priority m = Priority o'"

section \<open>Matching a request\<close>

definition statutePathKind :: "string \<Rightarrow> PathKind" where
  "statutePathKind pattern =
     (if pattern = [] \<or> pattern = ''/*'' then PathAny
      else if hasSuffix pattern ''/*'' then PathSegment
      else PathExact)"

definition CompileNative :: "string \<Rightarrow> string \<Rightarrow> Matcher" where
  "CompileNative host path =
     (let m = zeroMatcher\<lparr>Path := path, PathKind := statutePathKind path\<rparr>
      in if host \<noteq> [] then m\<lparr>Host := host, HostKind := HostExact\<rparr> else m)"

definition matchTraefikHost :: "string \<Rightarrow> string \<Rightarrow> bool" where
  "matchTraefikHost configured reqHost =
     (let c = toLower configured; r = toLower reqHost in
      if r = c then True
      else if c \<noteq> [] \<and> last c = CHR ''.'' \<and> r = butlast c then True
      else if r \<noteq> [] \<and> last r = CHR ''.'' \<and> butlast r = c then True
      else False)"

definition matchSegmentPrefix :: "string \<Rightarrow> string \<Rightarrow> bool" where
  "matchSegmentPrefix pattern path =
     (case cutSuffix pattern ''/*'' of
        (_, False) \<Rightarrow> pattern = path
      | (before, True) \<Rightarrow>
          if before = [] then True
          else path = before \<or> hasPrefix path (before @ ''/''))"

definition matchHost :: "Matcher \<Rightarrow> string \<Rightarrow> bool" where
  "matchHost m host =
     (case HostKind m of
        HostAny \<Rightarrow> True
      | HostExact \<Rightarrow> Host m \<noteq> [] \<and> equalFold (Host m) host
      | HostTraefik \<Rightarrow> matchTraefikHost (Host m) host)"

definition matchPath :: "Matcher \<Rightarrow> string \<Rightarrow> bool" where
  "matchPath m path =
     (case PathKind m of
        PathAny \<Rightarrow> True
      | PathExact \<Rightarrow> path = Path m
      | PathSegment \<Rightarrow> matchSegmentPrefix (Path m) path
      | PathByte \<Rightarrow> hasPrefix path (Path m))"

definition Match :: "Matcher \<Rightarrow> string \<Rightarrow> string \<Rightarrow> bool" where
  "Match m host path \<longleftrightarrow> matchHost m host \<and> matchPath m path"

definition traefikHostForbidden :: "string \<Rightarrow> bool" where
  "traefikHostForbidden h \<longleftrightarrow> h = ''*'' \<or> containsByte h CHR ''*''"

definition pathHasPercent :: "string \<Rightarrow> bool" where
  "pathHasPercent a \<longleftrightarrow> containsByte a CHR ''%''"

section \<open>Containment of matchers\<close>

definition anyHost :: "Matcher \<Rightarrow> bool" where
  "anyHost m \<longleftrightarrow> HostKind m = HostAny"

definition anyPath :: "Matcher \<Rightarrow> bool" where
  "anyPath m \<longleftrightarrow> PathKind m = PathAny \<or> (PathKind m = PathByte \<and> Path m = ''/'')"

definition traefikHostLE :: "string \<Rightarrow> string \<Rightarrow> bool" where
  "traefikHostLE a b =
     (let a = toLower a; b = toLower b in
      if a = b then True
      else if \<not> hasSuffix a ''.'' \<and> b = a @ ''.'' then True
      else False)"

definition hostMatcherLE :: "Matcher \<Rightarrow> Matcher \<Rightarrow> bool" where
  "hostMatcherLE a b =
     (if anyHost b then True
      else if anyHost a then False
      else (case HostKind b of
          HostExact \<Rightarrow> HostKind a = HostExact \<and> equalFold (Host a) (Host b)
        | HostTraefik \<Rightarrow>
            (case HostKind a of
               HostExact \<Rightarrow> matchTraefikHost (Host b) (Host a)
             | HostTraefik \<Rightarrow> traefikHostLE (Host a) (Host b)
             | _ \<Rightarrow> False)
        | _ \<Rightarrow> False))"

definition bytePrefixCovers :: "Matcher \<Rightarrow> string \<Rightarrow> bool" where
  "bytePrefixCovers a p =
     (if p = ''/'' then True
      else (case PathKind a of
          PathByte \<Rightarrow> hasPrefix (Path a) p
        | PathSegment \<Rightarrow>
            (case cutSuffix (Path a) ''/*'' of
               (before, ok) \<Rightarrow> if \<not> ok \<or> before = [] then False else hasPrefix before p)
        | PathExact \<Rightarrow> hasPrefix (Path a) p
        | _ \<Rightarrow> False))"

definition segmentCovers :: "Matcher \<Rightarrow> string \<Rightarrow> bool" where
  "segmentCovers a pattern =
     (case cutSuffix pattern ''/*'' of
        (bp, wildcard) \<Rightarrow>
          if \<not> wildcard then PathKind a = PathExact \<and> Path a = pattern
          else if bp = [] then True
          else (case PathKind a of
              PathByte \<Rightarrow> hasPrefix (Path a) (bp @ ''/'')
            | PathSegment \<Rightarrow>
                (case cutSuffix (Path a) ''/*'' of
                   (ap, _) \<Rightarrow> ap = bp \<or> hasPrefix ap (bp @ ''/''))
            | PathExact \<Rightarrow> matchSegmentPrefix pattern (Path a)
            | _ \<Rightarrow> False))"

definition pathMatcherLE :: "Matcher \<Rightarrow> Matcher \<Rightarrow> bool" where
  "pathMatcherLE a b =
     (if anyPath b then True
      else if anyPath a then False
      else (case PathKind b of
          PathExact \<Rightarrow> PathKind a = PathExact \<and> Path a = Path b
        | PathSegment \<Rightarrow> segmentCovers a (Path b)
        | PathByte \<Rightarrow> bytePrefixCovers a (Path b)
        | _ \<Rightarrow> False))"

definition matcherLE :: "Matcher \<Rightarrow> Matcher \<Rightarrow> bool" where
  "matcherLE a b \<longleftrightarrow> hostMatcherLE a b \<and> pathMatcherLE a b"

definition hostWitnesses :: "Matcher \<Rightarrow> string list" where
  "hostWitnesses m =
     (if anyHost m \<or> Host m = [] then ['''', ''other.example.com'', ''a.example.com'']
      else let h = Host m;
               out = [h, map (\<lambda>c. if isLowerAlpha c then char_of (byte c - 32) else c) h,
                      h @ ''.'', h @ ''..'']
           in (case cutSuffix h ''.'' of
                 (withoutDot, True) \<Rightarrow> out @ [withoutDot, withoutDot @ ''.'']
               | (_, False) \<Rightarrow> out))"

section \<open>What a matcher accepts\<close>

text \<open>
  A request path always begins with a slash; the Go code relies on it (a comment of
  \<^verbatim>\<open>pathLeaf\<close> states it), for \<^verbatim>\<open>PathPrefix(`/`)\<close> is compiled to "every path".
\<close>

definition rooted :: "string \<Rightarrow> bool" where
  "rooted p \<longleftrightarrow> hasPrefix p ''/''"

text \<open>
  The matchers \<open>CompileNative\<close> and the rule parser build: a host-scoped matcher names a host,
  and the path operand has the shape its kind reads.
\<close>

definition wfMatcher :: "Matcher \<Rightarrow> bool" where
  "wfMatcher m \<longleftrightarrow> (HostKind m \<noteq> HostAny \<longrightarrow> Host m \<noteq> []) \<and>
     (case PathKind m of
        PathAny \<Rightarrow> True
      | PathSegment \<Rightarrow> (case cutSuffix (Path m) ''/*'' of
          (b, ok) \<Rightarrow> ok \<and> b \<noteq> [] \<and> rooted b)
      | _ \<Rightarrow> rooted (Path m))"

lemma lowerChar_dot [simp]: "lowerChar CHR ''.'' = CHR ''.''"
  by (simp add: lowerChar_def isUpperAlpha_def)

lemma matchTraefikHost_iff:
  "matchTraefikHost c r \<longleftrightarrow>
     toLower r = toLower c \<or> toLower c = toLower r @ ''.'' \<or> toLower r = toLower c @ ''.''"
proof -
  have dot: "(xs \<noteq> [] \<and> last xs = d \<and> ys = butlast xs) \<longleftrightarrow> xs = ys @ [d]" for xs ys :: string and d
    by (metis append_butlast_last_id butlast_snoc last_snoc snoc_eq_iff_butlast)
  have "matchTraefikHost c r \<longleftrightarrow> toLower r = toLower c \<or>
      (toLower c \<noteq> [] \<and> last (toLower c) = CHR ''.'' \<and> toLower r = butlast (toLower c)) \<or>
      (toLower r \<noteq> [] \<and> last (toLower r) = CHR ''.'' \<and> toLower c = butlast (toLower r))"
    unfolding matchTraefikHost_def Let_def by argo
  then show ?thesis
    unfolding dot .
qed

lemma matchTraefikHost_dot: "matchTraefikHost c c" "matchTraefikHost c (c @ ''.'')"
  by (simp_all add: matchTraefikHost_iff)

lemma matchTraefikHost_fold: "equalFold r r' \<Longrightarrow> matchTraefikHost c r \<Longrightarrow> matchTraefikHost c r'"
  by (simp add: matchTraefikHost_iff equalFold_def)

lemma matchTraefikHost_lower [simp]: "matchTraefikHost (toLower c) r = matchTraefikHost c r"
  by (simp add: matchTraefikHost_iff)

lemma matchSegmentPrefix_wild:
  "b \<noteq> [] \<Longrightarrow> matchSegmentPrefix (b @ ''/*'') p \<longleftrightarrow> p = b \<or> hasPrefix p (b @ ''/'')"
  by (simp add: matchSegmentPrefix_def)

lemma matchSegmentPrefix_all: "matchSegmentPrefix ''/*'' p"
  by (simp add: matchSegmentPrefix_def)

lemma matchSegmentPrefix_exact:
  "\<not> hasSuffix pat ''/*'' \<Longrightarrow> matchSegmentPrefix pat p \<longleftrightarrow> pat = p"
  by (simp add: matchSegmentPrefix_def cutSuffix_def)

lemma segment_pattern_cases [case_names exact all wild]:
  obtains "\<not> hasSuffix pat ''/*''" | "pat = ''/*''" | b where "b \<noteq> []" "pat = b @ ''/*''"
  by (cases "hasSuffix pat ''/*''") (auto simp: hasSuffix_iff)

text \<open>\<open>CompileNative\<close> compares the path as \<^verbatim>\<open>matchSegmentPrefix\<close> does, whatever kind it chose.\<close>

lemma CompileNative_path: "matchPath (CompileNative h pat) p \<longleftrightarrow> pat = [] \<or> matchSegmentPrefix pat p"
  by (cases pat rule: segment_pattern_cases)
     (auto simp: CompileNative_def Let_def matchPath_def statutePathKind_def zeroMatcher_def
       matchSegmentPrefix_all matchSegmentPrefix_exact matchSegmentPrefix_wild)

subsection \<open>The order is sound\<close>

lemma hostMatcherLE_sound:
  assumes "hostMatcherLE a b" and "matchHost a h"
  shows "matchHost b h"
proof (cases "HostKind b")
  case HostExact
  with assms show ?thesis
    by (auto simp: hostMatcherLE_def anyHost_def matchHost_def split: if_splits
        intro: equalFold_trans equalFold_sym)
next
  case HostTraefik
  show ?thesis
  proof (cases "HostKind a")
    case HostExact
    with \<open>HostKind b = HostTraefik\<close> assms show ?thesis
      by (auto simp: hostMatcherLE_def anyHost_def matchHost_def intro: matchTraefikHost_fold)
  next
    case HostTraefik
    with \<open>HostKind b = HostTraefik\<close> assms show ?thesis
      by (auto simp: hostMatcherLE_def anyHost_def matchHost_def traefikHostLE_def
          matchTraefikHost_iff Let_def hasSuffix_iff split: if_splits)
  qed (use assms HostTraefik in \<open>simp add: hostMatcherLE_def anyHost_def\<close>)
qed (simp add: matchHost_def)

lemma segmentCovers_sound:
  assumes cov: "segmentCovers a pat" and match: "matchPath a p" and "\<not> anyPath a"
  shows "matchSegmentPrefix pat p"
proof (cases pat rule: segment_pattern_cases)
  case exact
  with cov match show ?thesis
    by (simp add: segmentCovers_def cutSuffix_def matchPath_def matchSegmentPrefix_exact)
next
  case (wild b)
  show ?thesis
  proof (cases "PathKind a")
    case PathSegment
    then show ?thesis
    proof (cases "Path a" rule: segment_pattern_cases)
      case exact
      with PathSegment wild cov match show ?thesis
        by (auto simp: segmentCovers_def matchPath_def matchSegmentPrefix_exact
            matchSegmentPrefix_wild cutSuffix_def)
    next
      case all
      with PathSegment wild cov all show ?thesis
        by (auto simp: segmentCovers_def hasPrefix_def)
    next
      case (wild b')
      with PathSegment \<open>b \<noteq> []\<close> \<open>pat = b @ ''/*''\<close> cov match show ?thesis
        by (auto simp: segmentCovers_def matchPath_def matchSegmentPrefix_wild hasPrefix_iff)
    qed
  qed (use wild cov match assms(3) in \<open>auto simp: segmentCovers_def matchPath_def
      matchSegmentPrefix_wild hasPrefix_iff anyPath_def\<close>)
qed (simp add: matchSegmentPrefix_all)

lemma bytePrefixCovers_sound:
  assumes cov: "bytePrefixCovers a pre" and match: "matchPath a p" and "rooted p" and "\<not> anyPath a"
  shows "hasPrefix p pre"
proof (cases "pre = ''/''")
  case False
  show ?thesis
  proof (cases "PathKind a")
    case PathSegment
    with False cov obtain b where b: "Path a = b @ ''/*''" "b \<noteq> []" "hasPrefix b pre"
      by (cases "Path a" rule: segment_pattern_cases)
         (auto simp: bytePrefixCovers_def cutSuffix_def split: prod.splits if_splits)
    with PathSegment match show ?thesis
      by (auto simp: matchPath_def matchSegmentPrefix_wild hasPrefix_iff)
  qed (use False cov match assms(4) in \<open>auto simp: bytePrefixCovers_def matchPath_def anyPath_def
      intro: hasPrefix_trans\<close>)
qed (use assms in \<open>simp add: rooted_def\<close>)

lemma pathMatcherLE_sound:
  assumes "pathMatcherLE a b" and "matchPath a p" and "rooted p"
  shows "matchPath b p"
proof (cases "anyPath b \<or> anyPath a")
  case True
  with assms show ?thesis
    by (auto simp: pathMatcherLE_def anyPath_def matchPath_def rooted_def split: if_splits)
next
  case False
  with assms show ?thesis
    by (cases "PathKind b")
       (auto simp: pathMatcherLE_def matchPath_def dest: segmentCovers_sound bytePrefixCovers_sound)
qed

lemma matcherLE_sound:
  "matcherLE a b \<Longrightarrow> rooted p \<Longrightarrow> Match a h p \<Longrightarrow> Match b h p"
  by (auto simp: matcherLE_def Match_def intro: hostMatcherLE_sound pathMatcherLE_sound)

subsection \<open>The order is complete\<close>

lemma equalFold_length: "equalFold s t \<Longrightarrow> length s = length t"
  by (metis equalFold_def toLower_simps(4))

lemma matchTraefikHost_length:
  "matchTraefikHost c r \<Longrightarrow> length r \<le> Suc (length c) \<and> length c \<le> Suc (length r)"
  unfolding matchTraefikHost_iff by (metis Suc_n_not_le_n le_SucI length_append_singleton nle_le toLower_simps(4))

lemma host_unmatched: "HostKind b \<noteq> HostAny \<Longrightarrow> \<exists>h. \<not> matchHost b h"
proof -
  assume b: "HostKind b \<noteq> HostAny"
  have "\<not> matchHost b (Host b @ ''xx'')"
    using b by (cases "HostKind b")
      (auto simp: matchHost_def dest!: equalFold_length matchTraefikHost_length)
  then show ?thesis ..
qed

lemma traefikHostLE_complete:
  assumes sub: "\<And>h. matchTraefikHost a h \<Longrightarrow> matchTraefikHost b h"
  shows "traefikHostLE a b"
proof -
  define A B where "A = toLower a" and "B = toLower b"
  have low: "toLower A = A" "toLower B = B" by (simp_all add: A_def B_def)
  have T: "matchTraefikHost A h \<Longrightarrow> matchTraefikHost B h" for h
    using sub by (simp add: A_def B_def)
  have "matchTraefikHost B A" and AA: "matchTraefikHost B (A @ ''.'')"
    by (simp_all add: T matchTraefikHost_dot)
  then consider "A = B" | "B = A @ ''.''" | "A = B @ ''.''"
    unfolding matchTraefikHost_iff low by metis
  then show ?thesis
  proof cases
    case 1
    then show ?thesis by (simp add: traefikHostLE_def A_def B_def)
  next
    case 2
    have "\<not> hasSuffix A ''.''"
    proof
      assume "hasSuffix A ''.''"
      then obtain Y where Y: "A = Y @ ''.''" by (auto simp: hasSuffix_iff)
      with low have "matchTraefikHost A Y" by (simp add: matchTraefikHost_iff)
      then have "matchTraefikHost B Y" by (rule T)
      then have "length B \<le> Suc (length Y)" by (blast dest: matchTraefikHost_length)
      with 2 Y show False by simp
    qed
    with 2 show ?thesis by (simp add: traefikHostLE_def A_def B_def)
  next
    case 3
    with AA show ?thesis by (auto dest: matchTraefikHost_length)
  qed
qed

lemma hostMatcherLE_complete:
  assumes sub: "\<And>h. matchHost a h \<Longrightarrow> matchHost b h" and wf: "wfMatcher a"
  shows "hostMatcherLE a b"
proof (cases "HostKind b = HostAny")
  case False
  then have "HostKind a \<noteq> HostAny"
    using sub host_unmatched[of b] by (auto simp: matchHost_def)
  then have ne: "Host a \<noteq> []" using wf by (simp add: wfMatcher_def)
  have self: "matchHost b (Host a)"
    by (rule sub) (cases "HostKind a"; simp add: matchHost_def matchTraefikHost_dot ne)
  have dotted: "matchHost b (Host a @ ''.'')" if "HostKind a = HostTraefik"
    by (rule sub) (simp add: matchHost_def matchTraefikHost_dot that)
  show ?thesis
  proof (cases "HostKind b")
    case HostExact
    then have "HostKind a \<noteq> HostTraefik"
      using self dotted by (auto simp: matchHost_def dest!: equalFold_length)
    with HostExact self \<open>HostKind a \<noteq> HostAny\<close> show ?thesis
      by (cases "HostKind a") (auto simp: hostMatcherLE_def anyHost_def matchHost_def intro: equalFold_sym)
  next
    case HostTraefik
    show ?thesis
    proof (cases "HostKind a")
      case HostExact
      with HostTraefik self show ?thesis
        by (simp add: hostMatcherLE_def anyHost_def matchHost_def)
    next
      case HostTraefik
      with \<open>HostKind b = HostTraefik\<close> sub have "traefikHostLE (Host a) (Host b)"
        by (intro traefikHostLE_complete) (simp add: matchHost_def)
      with HostTraefik \<open>HostKind b = HostTraefik\<close> show ?thesis
        by (simp add: hostMatcherLE_def anyHost_def)
    qed (use \<open>HostKind a \<noteq> HostAny\<close> in simp)
  qed (use False in simp)
qed (simp add: hostMatcherLE_def anyHost_def)

lemma rooted_append: "rooted p \<Longrightarrow> rooted (p @ q)"
  by (auto simp: rooted_def hasPrefix_iff)

lemma wf_segment:
  assumes "wfMatcher m" and "PathKind m = PathSegment"
  obtains b where "Path m = b @ ''/*''" and "b \<noteq> []" and "rooted b"
  using assms by (auto simp: wfMatcher_def cutSuffix_True split: prod.splits)

lemma path_unmatched:
  assumes wf: "wfMatcher b" and "\<not> anyPath b"
  shows "\<exists>p. rooted p \<and> \<not> matchPath b p"
proof (cases "PathKind b")
  case PathExact
  with wf have "rooted (Path b @ ''x'') \<and> \<not> matchPath b (Path b @ ''x'')"
    by (simp add: wfMatcher_def matchPath_def rooted_append)
  then show ?thesis ..
next
  case PathSegment
  with wf obtain c where c: "Path b = c @ ''/*''" "c \<noteq> []" "rooted c" by (rule wf_segment)
  with PathSegment have "rooted (c @ ''x'') \<and> \<not> matchPath b (c @ ''x'')"
    by (simp add: matchPath_def matchSegmentPrefix_wild rooted_append)
  then show ?thesis ..
next
  case PathByte
  with assms have "rooted (Path b)" "Path b \<noteq> ''/''"
    by (auto simp: wfMatcher_def anyPath_def)
  with PathByte have "rooted ''/'' \<and> \<not> matchPath b ''/''"
    by (cases "Path b") (auto simp: matchPath_def rooted_def hasPrefix_def)
  then show ?thesis ..
qed (use assms in \<open>simp add: anyPath_def\<close>)

text \<open>Two paths a matcher accepts: the one it names and one below it.\<close>

fun pathWitness :: "Matcher \<Rightarrow> string" where
  "pathWitness m = (if PathKind m = PathSegment then fst (cutSuffix (Path m) ''/*'') else Path m)"

lemma pathWitness_matches:
  assumes "wfMatcher a" and "PathKind a \<noteq> PathAny"
  shows "rooted (pathWitness a)" "matchPath a (pathWitness a)"
    and "PathKind a = PathSegment \<Longrightarrow> matchPath a (pathWitness a @ ''/'')"
    and "PathKind a = PathByte \<Longrightarrow> matchPath a (pathWitness a @ ''x'')"
  using assms
  by (cases "PathKind a"; auto simp: wfMatcher_def matchPath_def cutSuffix_True
      matchSegmentPrefix_wild split: prod.splits)+

lemma pathMatcherLE_complete:
  assumes sub: "\<And>p. rooted p \<Longrightarrow> matchPath a p \<Longrightarrow> matchPath b p"
    and wfa: "wfMatcher a" and wfb: "wfMatcher b"
  shows "pathMatcherLE a b"
proof (cases "anyPath b")
  case False
  have na: "\<not> anyPath a"
    using sub path_unmatched[OF wfb False]
    by (auto simp: anyPath_def matchPath_def rooted_def)
  then have "PathKind a \<noteq> PathAny" by (auto simp: anyPath_def)
  note w = pathWitness_matches[OF wfa this]
  have self: "matchPath b (pathWitness a)" using sub w(1,2) by blast
  have seg: "matchPath b (pathWitness a @ ''/'')" if "PathKind a = PathSegment"
    using sub w(1) w(3)[OF that] rooted_append by blast
  have byt: "matchPath b (pathWitness a @ ''x'')" if "PathKind a = PathByte"
    using sub w(1) w(4)[OF that] rooted_append by blast
  show ?thesis
  proof (cases "PathKind b")
    case PathExact
    with self seg byt \<open>PathKind a \<noteq> PathAny\<close> False na show ?thesis
      by (cases "PathKind a") (auto simp: pathMatcherLE_def matchPath_def)
  next
    case PathSegment
    with wfb obtain c where c: "Path b = c @ ''/*''" "c \<noteq> []" by (rule wf_segment)
    with PathSegment self byt \<open>PathKind a \<noteq> PathAny\<close> have "segmentCovers a (Path b)"
      by (cases "PathKind a")
         (auto simp: segmentCovers_def matchPath_def matchSegmentPrefix_wild split: prod.splits)
    with PathSegment False na show ?thesis by (simp add: pathMatcherLE_def)
  next
    case PathByte
    have "bytePrefixCovers a (Path b)"
    proof (cases "PathKind a")
      case PathSegment
      with wfa obtain c where "Path a = c @ ''/*''" "c \<noteq> []" by (rule wf_segment)
      with PathSegment PathByte self show ?thesis
        by (simp add: bytePrefixCovers_def matchPath_def)
    qed (use PathByte self \<open>PathKind a \<noteq> PathAny\<close> in \<open>auto simp: bytePrefixCovers_def matchPath_def\<close>)
    with PathByte False na show ?thesis by (simp add: pathMatcherLE_def)
  qed (use False in \<open>simp add: anyPath_def\<close>)
qed (simp add: pathMatcherLE_def)

lemma host_matched: "wfMatcher a \<Longrightarrow> \<exists>h. matchHost a h"
  by (cases "HostKind a") (auto simp: matchHost_def wfMatcher_def intro: exI[of _ "Host a"]
      matchTraefikHost_dot)

lemma path_matched: "wfMatcher a \<Longrightarrow> \<exists>p. rooted p \<and> matchPath a p"
  using pathWitness_matches(1,2)[of a]
  by (cases "PathKind a = PathAny") (auto simp: matchPath_def rooted_def intro: exI[of _ "''/''"])

lemma matcherLE_complete:
  assumes sub: "\<And>h p. rooted p \<Longrightarrow> Match a h p \<Longrightarrow> Match b h p"
    and wfa: "wfMatcher a" and wfb: "wfMatcher b"
  shows "matcherLE a b"
proof -
  obtain h0 where h0: "matchHost a h0" using host_matched[OF wfa] ..
  obtain p0 where p0: "rooted p0" "matchPath a p0" using path_matched[OF wfa] by blast
  have "hostMatcherLE a b"
    using sub p0 wfa by (intro hostMatcherLE_complete) (auto simp: Match_def)
  moreover have "pathMatcherLE a b"
    using sub h0 wfa wfb by (intro pathMatcherLE_complete) (auto simp: Match_def)
  ultimately show ?thesis by (simp add: matcherLE_def)
qed

text \<open>
  C15: on the matchers the compiler builds, \<^const>\<open>matcherLE\<close> decides containment exactly: it
  reports true if and only if every request (any host, any rooted path) accepted by the first
  matcher is accepted by the second.
\<close>

theorem matcherLE_exact:
  assumes "wfMatcher a" and "wfMatcher b"
  shows "matcherLE a b \<longleftrightarrow> (\<forall>h p. rooted p \<longrightarrow> Match a h p \<longrightarrow> Match b h p)"
  using assms matcherLE_sound matcherLE_complete by blast

theorem matcherLE_exact_witness:
  "let a = (CompileNative ''Api.example.com'' ''/v1/users'');
       b = zeroMatcher\<lparr>Host := ''api.example.com.'', HostKind := HostTraefik,
             Path := ''/v1'', PathKind := PathByte\<rparr>
   in wfMatcher a \<and> wfMatcher b \<and> matcherLE a b \<and> \<not> matcherLE b a \<and>
      (\<forall>h p. rooted p \<longrightarrow> Match a h p \<longrightarrow> Match b h p)"
proof -
  let ?a = "CompileNative ''Api.example.com'' ''/v1/users''"
  let ?b = "zeroMatcher\<lparr>Host := ''api.example.com.'', HostKind := HostTraefik,
             Path := ''/v1'', PathKind := PathByte\<rparr>"
  have wf: "wfMatcher ?a" "wfMatcher ?b" and le: "matcherLE ?a ?b" "\<not> matcherLE ?b ?a"
    by code_simp+
  then show ?thesis using matcherLE_exact[OF wf] by simp
qed

end
