(* ===== verification/Netip.thy ===== *)
theory Netip
  imports Go_Base
begin

text \<open>
  The part of Go's standard package \<^verbatim>\<open>net/netip\<close> the sources call: addresses, prefixes, their
  parsers and printers, \<^verbatim>\<open>Contains\<close>, \<^verbatim>\<open>Unmap\<close> and \<^verbatim>\<open>Masked\<close>, and \<^verbatim>\<open>strconv.Atoi\<close> on the
  short decimal strings they meet. An IPv4 address is its 32-bit number, an IPv6 address its
  128-bit number and a zone; an error is \<open>None\<close>.
\<close>

section \<open>Decimal numbers\<close>

fun decVal :: "nat \<Rightarrow> string \<Rightarrow> nat option" where
  "decVal acc [] = Some acc"
| "decVal acc (c # cs) = (if isDigit c then decVal (acc * 10 + (byte c - 48)) cs else None)"

definition parseDec :: "string \<Rightarrow> nat option" where
  "parseDec s = (if s = [] then None else decVal 0 s)"

text \<open>\<^verbatim>\<open>strconv.Atoi\<close>: an optional sign, digits, and the range of a 64-bit \<^verbatim>\<open>int\<close>.\<close>

definition atoi :: "string \<Rightarrow> int option" where
  "atoi s =
     (let (neg, d) = (case s of
            c # t \<Rightarrow> if c = CHR ''-'' then (True, t) else if c = CHR ''+'' then (False, t) else (False, s)
          | [] \<Rightarrow> (False, s))
      in case parseDec d of
           None \<Rightarrow> None
         | Some n \<Rightarrow>
             (let v = (if neg then - int n else int n)
              in if - (2 ^ 63) \<le> v \<and> v < 2 ^ 63 then Some v else None))"

fun showDec :: "nat \<Rightarrow> string" where
  "showDec n = (if n < 10 then [char_of (48 + n)] else showDec (n div 10) @ [char_of (48 + n mod 10)])"

declare showDec.simps [simp del]

definition hexDigitChar :: "nat \<Rightarrow> char" where
  "hexDigitChar d = (if d < 10 then char_of (48 + d) else char_of (87 + d))"

text \<open>\<^verbatim>\<open>appendHex\<close>: lower-case hexadecimal, no leading zero.\<close>

fun showHex :: "nat \<Rightarrow> string" where
  "showHex n = (if n < 16 then [hexDigitChar n] else showHex (n div 16) @ [hexDigitChar (n mod 16)])"

declare showHex.simps [simp del]

definition hexVal :: "char \<Rightarrow> nat option" where
  "hexVal c =
     (if isDigit c then Some (byte c - 48)
      else if 97 \<le> byte c \<and> byte c \<le> 102 then Some (byte c - 87)
      else if 65 \<le> byte c \<and> byte c \<le> 70 then Some (byte c - 55)
      else None)"

section \<open>Addresses\<close>

datatype Addr = V4 nat | V6 nat string

fun BitLen :: "Addr \<Rightarrow> nat" where
  "BitLen (V4 _) = 32"
| "BitLen (V6 _ _) = 128"

fun addrBits :: "Addr \<Rightarrow> nat" where
  "addrBits (V4 n) = n"
| "addrBits (V6 n _) = n"

fun is6 :: "Addr \<Rightarrow> bool" where
  "is6 (V4 _) = False"
| "is6 (V6 _ _) = True"

fun hasZone :: "Addr \<Rightarrow> bool" where
  "hasZone (V4 _) = False"
| "hasZone (V6 _ z) = (z \<noteq> [])"

fun withoutZone :: "Addr \<Rightarrow> Addr" where
  "withoutZone (V4 n) = V4 n"
| "withoutZone (V6 n _) = V6 n []"

definition is4In6 :: "nat \<Rightarrow> bool" where
  "is4In6 n \<longleftrightarrow> n div 2 ^ 32 = 65535"

fun Unmap :: "Addr \<Rightarrow> Addr" where
  "Unmap (V4 n) = V4 n"
| "Unmap (V6 n z) = (if is4In6 n then V4 (n mod 2 ^ 32) else V6 n z)"

definition addrOK :: "Addr \<Rightarrow> bool" where
  "addrOK a \<longleftrightarrow> addrBits a < 2 ^ BitLen a"

subsection \<open>Parsing\<close>

text \<open>
  \<^verbatim>\<open>parseIPv4Fields\<close>: the loop state is the value and the digit count of the current octet and
  the octets read; the end of the input, like a dot, needs a digit before it.
\<close>

fun parseIPv4Loop :: "nat \<Rightarrow> nat \<Rightarrow> nat list \<Rightarrow> string \<Rightarrow> nat list option" where
  "parseIPv4Loop val digLen fields [] =
     (if digLen = 0 \<or> length fields \<noteq> 3 then None else Some (fields @ [val]))"
| "parseIPv4Loop val digLen fields (c # cs) =
     (if isDigit c then
        (if digLen = 1 \<and> val = 0 then None
         else let v = val * 10 + (byte c - 48)
              in if v > 255 then None else parseIPv4Loop v (Suc digLen) fields cs)
      else if c = CHR ''.'' then
        (if digLen = 0 \<or> length fields = 3 then None
         else parseIPv4Loop 0 0 (fields @ [val]) cs)
      else None)"

definition octetsVal :: "nat list \<Rightarrow> nat" where
  "octetsVal os = foldl (\<lambda>acc o'. acc * 256 + o') 0 os"

definition parseIPv4 :: "string \<Rightarrow> Addr option" where
  "parseIPv4 s = map_option (\<lambda>os. V4 (octetsVal os)) (parseIPv4Loop 0 0 [] s)"

text \<open>
  \<^verbatim>\<open>parseIPv6\<close>: \<open>groups\<close> are the 16-bit groups read so far (an embedded IPv4 address counts
  two) and \<open>ell\<close> the position of the ellipsis among them.
\<close>

fun spanHex :: "string \<Rightarrow> nat list \<times> string" where
  "spanHex [] = ([], [])"
| "spanHex (c # cs) = (case hexVal c of
       None \<Rightarrow> ([], c # cs)
     | Some d \<Rightarrow> (case spanHex cs of (ds, rest) \<Rightarrow> (d # ds, rest)))"

lemma spanHex_length: "spanHex s = (ds, rest) \<Longrightarrow> length s = length ds + length rest"
  by (induction s arbitrary: ds) (auto split: option.splits prod.splits)

function parseGroups :: "nat list \<Rightarrow> nat option \<Rightarrow> string \<Rightarrow> (nat list \<times> nat option) option" where
  "parseGroups groups ell s =
     (if length groups \<ge> 8 then (if s = [] then Some (groups, ell) else None)
      else case spanHex s of
        ([], _) \<Rightarrow> None
      | (d # ds, rest) \<Rightarrow>
          if length ds > 3 then None
          else (case rest of
              [] \<Rightarrow> Some (groups @ [foldl (\<lambda>a x. a * 16 + x) 0 (d # ds)], ell)
            | c # rest' \<Rightarrow>
                if c = CHR ''.'' then
                  (if ell = None \<and> length groups \<noteq> 6 then None
                   else if length groups > 6 then None
                   else (case parseIPv4Loop 0 0 [] s of
                       None \<Rightarrow> None
                     | Some os \<Rightarrow> Some (groups @ [octetsVal os div 65536, octetsVal os mod 65536], ell)))
                else if c \<noteq> CHR '':'' then None
                else (case rest' of
                    [] \<Rightarrow> None
                  | c2 # rest2 \<Rightarrow>
                      (let groups' = groups @ [foldl (\<lambda>a x. a * 16 + x) 0 (d # ds)] in
                       if c2 = CHR '':'' then
                         (if ell \<noteq> None then None
                          else if rest2 = [] then Some (groups', Some (length groups'))
                          else parseGroups groups' (Some (length groups')) rest2)
                       else parseGroups groups' ell rest'))))"
  by pat_completeness auto
termination
  by (relation "measure (\<lambda>(groups, ell, s). length s)")
     (auto dest!: spanHex_length[OF sym])

declare parseGroups.simps [simp del]

text \<open>Expanding the ellipsis: it stands for at least one zero group.\<close>

definition expandEllipsis :: "nat list \<times> nat option \<Rightarrow> nat list option" where
  "expandEllipsis ge = (case ge of
       (groups, None) \<Rightarrow> if length groups = 8 then Some groups else None
     | (groups, Some e) \<Rightarrow>
         if length groups < 8
         then Some (take e groups @ replicate (8 - length groups) 0 @ drop e groups)
         else None)"

definition groupsVal :: "nat list \<Rightarrow> nat" where
  "groupsVal gs = foldl (\<lambda>acc g. acc * 65536 + g) 0 gs"

definition parseIPv6 :: "string \<Rightarrow> Addr option" where
  "parseIPv6 input =
     (let (s, zone, bad) = (case cutByte input CHR ''%'' of
            None \<Rightarrow> (input, [], False)
          | Some (a, z) \<Rightarrow> (a, z, z = []))
      in if bad then None
         else if s = ''::'' then Some (V6 0 zone)
         else (let parsed = (if hasPrefix s ''::'' then parseGroups [] (Some 0) (drop 2 s)
                             else parseGroups [] None s)
               in case Option.bind parsed expandEllipsis of
                    None \<Rightarrow> None
                  | Some gs \<Rightarrow> Some (V6 (groupsVal gs) zone)))"

fun parseAddrKind :: "string \<Rightarrow> char option" where
  "parseAddrKind [] = None"
| "parseAddrKind (c # cs) =
     (if c = CHR ''.'' \<or> c = CHR '':'' \<or> c = CHR ''%'' then Some c else parseAddrKind cs)"

definition ParseAddr :: "string \<Rightarrow> Addr option" where
  "ParseAddr s = (case parseAddrKind s of
       None \<Rightarrow> None
     | Some c \<Rightarrow> if c = CHR ''.'' then parseIPv4 s else if c = CHR '':'' then parseIPv6 s else None)"

subsection \<open>Printing\<close>

definition octetsOf :: "nat \<Rightarrow> nat list" where
  "octetsOf n = [n div 16777216 mod 256, n div 65536 mod 256, n div 256 mod 256, n mod 256]"

definition string4 :: "nat \<Rightarrow> string" where
  "string4 n = joinStrings (map showDec (octetsOf n)) ''.''"

definition groupsOf :: "nat \<Rightarrow> nat list" where
  "groupsOf n = map (\<lambda>i. n div 65536 ^ (7 - i) mod 65536) [0..<8]"

text \<open>The first longest run of at least two zero groups, as \<^verbatim>\<open>(start, end)\<close>.\<close>

definition zeroRunLen :: "nat list \<Rightarrow> nat" where
  "zeroRunLen gs = length (takeWhile (\<lambda>g. g = 0) gs)"

definition bestZeroRun :: "nat list \<Rightarrow> (nat \<times> nat) option" where
  "bestZeroRun gs = foldl (\<lambda>best i.
       let l = zeroRunLen (drop i gs) in
       if 2 \<le> l \<and> (case best of None \<Rightarrow> True | Some (s, e) \<Rightarrow> l > e - s) then Some (i, i + l) else best)
     None [0..<8]"

definition string6 :: "nat \<Rightarrow> string" where
  "string6 n =
     (let gs = groupsOf n; hex = (\<lambda>xs. joinStrings (map showHex xs) '':'') in
      case bestZeroRun gs of
        None \<Rightarrow> hex gs
      | Some (s, e) \<Rightarrow> hex (take s gs) @ ''::'' @ hex (drop e gs))"

fun addrString :: "Addr \<Rightarrow> string" where
  "addrString (V4 n) = string4 n"
| "addrString (V6 n z) =
     (if is4In6 n then ''::ffff:'' @ string4 (n mod 2 ^ 32) else string6 n) @
     (if z = [] then [] else CHR ''%'' # z)"

section \<open>Prefixes\<close>

record Prefix =
  pAddr :: Addr
  pBits :: nat

definition PrefixFrom :: "Addr \<Rightarrow> nat \<Rightarrow> Prefix" where
  "PrefixFrom a bits = \<lparr>pAddr = withoutZone a, pBits = bits\<rparr>"

definition prefixString :: "Prefix \<Rightarrow> string" where
  "prefixString p = addrString (pAddr p) @ ''/'' @ showDec (pBits p)"

text \<open>\<^verbatim>\<open>strings.LastIndexByte\<close>, split form.\<close>

definition cutLastByte :: "string \<Rightarrow> char \<Rightarrow> (string \<times> string) option" where
  "cutLastByte s c = map_option (\<lambda>(a, b). (rev b, rev a)) (cutByte (rev s) c)"

definition ParsePrefix :: "string \<Rightarrow> Prefix option" where
  "ParsePrefix s = (case cutLastByte s CHR ''/'' of
       None \<Rightarrow> None
     | Some (as, bs) \<Rightarrow> (case ParseAddr as of
         None \<Rightarrow> None
       | Some a \<Rightarrow>
           if hasZone a then None
           else if length bs > 1 \<and> (byte (hd bs) < 49 \<or> byte (hd bs) > 57) then None
           else (case atoi bs of
               None \<Rightarrow> None
             | Some bits \<Rightarrow>
                 if bits < 0 \<or> bits > int (BitLen a) then None
                 else Some (PrefixFrom a (nat bits)))))"

definition shiftBits :: "Addr \<Rightarrow> nat \<Rightarrow> nat" where
  "shiftBits a bits = addrBits a div 2 ^ (BitLen a - bits)"

text \<open>\<^verbatim>\<open>Prefix.Masked\<close>: the host bits cleared.\<close>

fun maskAddr :: "Addr \<Rightarrow> nat \<Rightarrow> Addr" where
  "maskAddr (V4 n) bits = V4 (n div 2 ^ (32 - bits) * 2 ^ (32 - bits))"
| "maskAddr (V6 n z) bits = V6 (n div 2 ^ (128 - bits) * 2 ^ (128 - bits)) z"

definition Masked :: "Prefix \<Rightarrow> Prefix" where
  "Masked p = p\<lparr>pAddr := maskAddr (pAddr p) (pBits p)\<rparr>"

definition Contains :: "Prefix \<Rightarrow> Addr \<Rightarrow> bool" where
  "Contains p a \<longleftrightarrow> \<not> hasZone a \<and> BitLen (pAddr p) = BitLen a \<and>
     shiftBits a (pBits p) = shiftBits (pAddr p) (pBits p)"

definition prefixOK :: "Prefix \<Rightarrow> bool" where
  "prefixOK p \<longleftrightarrow> pBits p \<le> BitLen (pAddr p) \<and> \<not> hasZone (pAddr p)"

text \<open>\<^verbatim>\<open>netip.ParseAddrPort\<close>: the address before the last colon (in brackets for IPv6) and a port.\<close>

definition portOK :: "string \<Rightarrow> bool" where
  "portOK s = (case parseDec s of None \<Rightarrow> False | Some n \<Rightarrow> n < 65536 \<and> s \<noteq> [])"

definition ParseAddrPort :: "string \<Rightarrow> Addr option" where
  "ParseAddrPort s = (case cutLastByte s CHR '':'' of
       None \<Rightarrow> None
     | Some (ip, port) \<Rightarrow>
         if ip = [] \<or> port = [] then None
         else if hd ip = CHR ''['' then
           (if length ip < 2 \<or> last ip \<noteq> CHR '']'' then None
            else if \<not> portOK port then None
            else (case ParseAddr (butlast (tl ip)) of
                Some a \<Rightarrow> if is6 a then Some a else None
              | None \<Rightarrow> None))
         else if \<not> portOK port then None
         else (case ParseAddr ip of
             Some a \<Rightarrow> if is6 a then None else Some a
           | None \<Rightarrow> None))"

section \<open>Lemmas\<close>

lemma BitLen_withoutZone [simp]: "BitLen (withoutZone a) = BitLen a" "addrBits (withoutZone a) = addrBits a"
    "\<not> hasZone (withoutZone a)"
  by (cases a; simp)+

lemma BitLen_mask [simp]: "BitLen (maskAddr a b) = BitLen a" "hasZone (maskAddr a b) = hasZone a"
  by (cases a; simp)+

lemma shiftBits_mask [simp]: "shiftBits (maskAddr a b) b = shiftBits a b"
  by (cases a) (simp_all add: shiftBits_def)

text \<open>Clearing the host bits of a prefix does not change the addresses it contains.\<close>

lemma Contains_Masked [simp]: "Contains (Masked p) a = Contains p a"
  by (simp add: Contains_def Masked_def)

lemma ParsePrefix_OK: "ParsePrefix s = Some p \<Longrightarrow> prefixOK p"
  by (auto simp: ParsePrefix_def prefixOK_def PrefixFrom_def split: option.splits if_splits)

text \<open>
  Two prefixes are nested or disjoint: the shorter one contains the base address of the longer
  one exactly when it contains every address of it, and otherwise they share no address.
\<close>

lemma shiftBits_mono:
  assumes "b \<le> b'" and "b' \<le> BitLen a" and "BitLen a = BitLen c" and "shiftBits a b' = shiftBits c b'"
  shows "shiftBits a b = shiftBits c b"
proof -
  have "shiftBits x b = shiftBits x b' div 2 ^ (b' - b)" if "BitLen x = BitLen a" for x
  proof -
    have "(2::nat) ^ (BitLen x - b) = 2 ^ (BitLen x - b') * 2 ^ (b' - b)"
      using assms(1,2) that by (simp flip: power_add)
    then show ?thesis by (simp add: shiftBits_def div_mult2_eq)
  qed
  with assms show ?thesis by metis
qed

lemma Contains_nested:
  assumes "Contains l (pAddr r)" and "pBits l \<le> pBits r" and "prefixOK r" and "Contains r a"
  shows "Contains l a"
proof -
  have "shiftBits a (pBits l) = shiftBits (pAddr r) (pBits l)"
    by (rule shiftBits_mono[OF assms(2)]) (use assms in \<open>auto simp: Contains_def prefixOK_def\<close>)
  with assms show ?thesis by (auto simp: Contains_def)
qed

lemma Contains_overlap:
  assumes "Contains l a" and "Contains r a" and "pBits l \<le> pBits r" and "prefixOK r"
  shows "Contains l (pAddr r)"
proof -
  have "shiftBits (pAddr r) (pBits l) = shiftBits a (pBits l)"
    by (rule shiftBits_mono[OF assms(3)]) (use assms in \<open>auto simp: Contains_def prefixOK_def\<close>)
  with assms show ?thesis by (auto simp: Contains_def prefixOK_def)
qed

end
