(* ===== verification/Go_Http.thy ===== *)
theory Go_Http
  imports Netip
begin

text \<open>
  The parts of Go's \<^verbatim>\<open>net/http\<close>, \<^verbatim>\<open>net/textproto\<close> and \<^verbatim>\<open>net\<close> packages the sources read requests with:
  canonical header keys, header lookup, \<^verbatim>\<open>net.SplitHostPort\<close>, and the fields of a request.  A header is
  a function from canonical keys to the list of values, the empty list for an absent key.
\<close>

section \<open>Headers\<close>

type_synonym Header = "string \<Rightarrow> string list"

definition upperChar :: "char \<Rightarrow> char" where
  "upperChar c = (if isLowerAlpha c then char_of (byte c - 32) else c)"

fun canonicalizeBytes :: "bool \<Rightarrow> string \<Rightarrow> string" where
  "canonicalizeBytes up [] = []"
| "canonicalizeBytes up (c # cs) =
     (let c' = (if up then upperChar c else lowerChar c)
      in c' # canonicalizeBytes (c = CHR ''-'') cs)"

text \<open>\<^verbatim>\<open>textproto.CanonicalMIMEHeaderKey\<close>: a name with a byte no header name has is left alone.\<close>

definition CanonicalMIMEHeaderKey :: "string \<Rightarrow> string" where
  "CanonicalMIMEHeaderKey s = (if list_all isTchar s then canonicalizeBytes True s else s)"

definition headerValues :: "Header \<Rightarrow> string \<Rightarrow> string list" where
  "headerValues h name = h (CanonicalMIMEHeaderKey name)"

definition headerGet :: "Header \<Rightarrow> string \<Rightarrow> string" where
  "headerGet h name = (case headerValues h name of [] \<Rightarrow> [] | v # _ \<Rightarrow> v)"

definition emptyHeader :: Header where
  "emptyHeader = (\<lambda>_. [])"

definition headerSet :: "Header \<Rightarrow> string \<Rightarrow> string \<Rightarrow> Header" where
  "headerSet h name v = h(CanonicalMIMEHeaderKey name := [v])"

definition headerAdd :: "Header \<Rightarrow> string \<Rightarrow> string \<Rightarrow> Header" where
  "headerAdd h name v = h(CanonicalMIMEHeaderKey name := headerValues h name @ [v])"

definition headerDel :: "Header \<Rightarrow> string \<Rightarrow> Header" where
  "headerDel h name = h(CanonicalMIMEHeaderKey name := [])"

section \<open>Requests\<close>

record httpReq =
  rMethod :: string
  rHost :: string
  rPath :: string
  rRemoteAddr :: string
  rHeader :: Header

section \<open>Splitting host and port\<close>

text \<open>\<^verbatim>\<open>net.SplitHostPort\<close>; every error is \<open>None\<close>.\<close>

definition SplitHostPort :: "string \<Rightarrow> (string \<times> string) option" where
  "SplitHostPort s = (case cutLastByte s CHR '':'' of
       None \<Rightarrow> None
     | Some (before, port) \<Rightarrow>
         if s \<noteq> [] \<and> hd s = CHR ''['' then
           (case cutByte s CHR '']'' of
              None \<Rightarrow> None
            | Some (opened, rest) \<Rightarrow>
                if before \<noteq> opened @ '']'' then None
                else if containsByte (tl s) CHR ''['' \<or> containsByte rest CHR '']'' then None
                else Some (tl opened, port))
         else if containsByte before CHR '':'' then None
         else if containsByte s CHR ''['' \<or> containsByte s CHR '']'' then None
         else Some (before, port))"

end
