(* ===== verification/Netip_Roundtrip.thy ===== *)
theory Netip_Roundtrip
  imports Netip
begin

text \<open>
  Printing and parsing addresses are inverse: every well-formed address without a zone, and every
  prefix of one, is read back from its canonical text.  The sources rely on this wherever they store
  a canonical CIDR string at resolve time and parse it again at run time.
\<close>

section \<open>Digits\<close>

lemma digit_char: "d < 10 \<Longrightarrow> isDigit (char_of (48 + d :: nat)) \<and> of_char (char_of (48 + d :: nat)) = 48 + d"
  by (simp add: isDigit_def)

lemma showDec_small: "n < 10 \<Longrightarrow> showDec n = [char_of (48 + n)]"
  by (simp add: showDec.simps)

lemma showDec_step: "10 \<le> n \<Longrightarrow> showDec n = showDec (n div 10) @ [char_of (48 + n mod 10)]"
  by (subst showDec.simps) simp

lemma showDec_not_Nil [simp]: "showDec n \<noteq> []"
  by (subst showDec.simps) simp

lemma showDec_digits: "c \<in> set (showDec n) \<Longrightarrow> isDigit c"
proof (induction n rule: showDec.induct)
  case (1 n)
  then show ?case
    using digit_char[of n] digit_char[of "n mod 10"]
    by (cases "n < 10") (auto simp: showDec_small showDec_step)
qed

lemma decVal_append: "decVal acc (xs @ ys) = Option.bind (decVal acc xs) (\<lambda>a. decVal a ys)"
  by (induction acc xs rule: decVal.induct) auto

lemma decVal_showDec: "decVal 0 (showDec n) = Some n"
proof (induction n rule: showDec.induct)
  case (1 n)
  show ?case
  proof (cases "n < 10")
    case True
    then show ?thesis using digit_char[of n] by (simp add: showDec_small)
  next
    case False
    then show ?thesis
      using 1 digit_char[of "n mod 10"] by (simp add: showDec_step decVal_append)
  qed
qed

lemma hd_showDec: "0 < n \<Longrightarrow> 49 \<le> byte (hd (showDec n)) \<and> byte (hd (showDec n)) \<le> 57"
proof (induction n rule: showDec.induct)
  case (1 n)
  show ?case
  proof (cases "n < 10")
    case True
    then show ?thesis using 1 digit_char[of n] by (simp add: showDec_small)
  next
    case False
    then show ?thesis using 1 by (simp add: showDec_step)
  qed
qed

lemma atoi_showDec: "n < 2 ^ 63 \<Longrightarrow> atoi (showDec n) = Some (int n)"
proof -
  assume n: "n < 2 ^ 63"
  obtain c cs where c: "showDec n = c # cs" by (cases "showDec n") auto
  then have "isDigit c" using showDec_digits[of c n] by simp
  then have "c \<noteq> CHR ''-''" "c \<noteq> CHR ''+''" by (auto simp: isDigit_def)
  moreover have "parseDec (c # cs) = Some n" using decVal_showDec[of n] c by (simp add: parseDec_def)
  moreover have "int n < 2 ^ 63" using n by (metis of_nat_less_iff of_nat_numeral of_nat_power)
  ultimately show ?thesis by (simp add: atoi_def c)
qed

section \<open>IPv4\<close>

lemma parse_digit:
  assumes "d < 10" and "\<not> (k = 1 \<and> v = 0)" and "v * 10 + d \<le> 255"
  shows "parseIPv4Loop v k fs (char_of (48 + d :: nat) # rest) = parseIPv4Loop (v * 10 + d) (Suc k) fs rest"
  using assms digit_char[OF assms(1)] by (auto simp: Let_def)

lemma parse_octet:
  assumes "n < 256"
  shows "parseIPv4Loop 0 0 fs (showDec n @ rest) = parseIPv4Loop n (length (showDec n)) fs rest"
proof -
  consider "n < 10" | "10 \<le> n" "n < 100" | "100 \<le> n" by linarith
  then show ?thesis
  proof cases
    case 1
    then show ?thesis by (simp add: showDec_small parse_digit del: parseIPv4Loop.simps)
  next
    case 2
    then have "showDec n = [char_of (48 + n div 10), char_of (48 + n mod 10)]"
      by (simp add: showDec_step showDec_small)
    moreover have "n div 10 * 10 + n mod 10 = n" by simp
    ultimately show ?thesis
      using 2 by (simp add: parse_digit del: parseIPv4Loop.simps)
  next
    case 3
    have s: "showDec n = [char_of (48 + n div 100), char_of (48 + n div 10 mod 10), char_of (48 + n mod 10)]"
      using 3 assms by (simp add: showDec_step showDec_small div_mult2_eq[symmetric])
    have e: "n div 100 * 10 + n div 10 mod 10 = n div 10" "n div 10 * 10 + n mod 10 = n"
      using div_mult2_eq[of n 10 10] by simp_all
    show ?thesis
      using 3 assms e by (simp add: s parse_digit del: parseIPv4Loop.simps)
  qed
qed

lemma octets_of_val: "n < 2 ^ 32 \<Longrightarrow> octetsVal (octetsOf n) = n"
proof -
  assume "n < 2 ^ 32"
  then have "n div 16777216 mod 256 = n div 16777216" by simp
  moreover have "n div 16777216 * 256 + n div 65536 mod 256 = n div 65536"
    "n div 65536 * 256 + n div 256 mod 256 = n div 256" "n div 256 * 256 + n mod 256 = n"
    using div_mult2_eq[of n 65536 256] div_mult2_eq[of n 256 256] by simp_all
  ultimately show ?thesis by (simp add: octetsVal_def octetsOf_def)
qed

lemma parse_dot:
  "0 < k \<Longrightarrow> length fs < 3 \<Longrightarrow> parseIPv4Loop v k fs (CHR ''.'' # rest) = parseIPv4Loop 0 0 (fs @ [v]) rest"
  by (simp add: isDigit_def)

lemma parse_end: "0 < k \<Longrightarrow> length fs = 3 \<Longrightarrow> parseIPv4Loop v k fs [] = Some (fs @ [v])"
  by simp

lemma parseIPv4Loop_string4: "parseIPv4Loop 0 0 [] (string4 n) = Some (octetsOf n)"
proof -
  obtain a b c d where o: "octetsOf n = [a, b, c, d]" "a < 256" "b < 256" "c < 256" "d < 256"
    by (simp add: octetsOf_def)
  have s: "string4 n = showDec a @ CHR ''.'' # showDec b @ CHR ''.'' # showDec c @ CHR ''.'' # showDec d @ []"
    by (simp add: string4_def o(1))
  show ?thesis
    unfolding s o(1)
    by (simp only: parse_octet o(2-5) parse_dot parse_end length_greater_0_conv showDec_not_Nil not_False_eq_True
        list.size append.simps simp_thms)
qed

lemma string4_chars: "c \<in> set (string4 n) \<Longrightarrow> isDigit c \<or> c = CHR ''.''"
  by (auto simp: string4_def octetsOf_def dest: showDec_digits)

lemma parseAddrKind_append:
  "list_all (\<lambda>c. c \<noteq> CHR ''.'' \<and> c \<noteq> CHR '':'' \<and> c \<noteq> CHR ''%'') xs \<Longrightarrow> parseAddrKind (xs @ ys) = parseAddrKind ys"
  by (induction xs) auto

lemma digits_kind: "list_all (\<lambda>c. c \<noteq> CHR ''.'' \<and> c \<noteq> CHR '':'' \<and> c \<noteq> CHR ''%'') (showDec n)"
  using showDec_digits[of _ n] by (fastforce simp: list_all_iff isDigit_def)

lemma ParseAddr_string4: "n < 2 ^ 32 \<Longrightarrow> ParseAddr (string4 n) = Some (V4 n)"
proof -
  assume n: "n < 2 ^ 32"
  have "parseAddrKind (string4 n) = Some CHR ''.''"
    by (simp add: string4_def octetsOf_def parseAddrKind_append[OF digits_kind])
  with n show ?thesis by (simp add: ParseAddr_def parseIPv4_def parseIPv4Loop_string4 octets_of_val)
qed

lemma cutLastByte_None: "cutLastByte s c = None \<longleftrightarrow> c \<notin> set s"
  by (simp add: cutLastByte_def cutByte_None)

lemma cutLastByte_append: "c \<notin> set t \<Longrightarrow> cutLastByte (s @ c # t) c = Some (s, t)"
proof -
  assume "c \<notin> set t"
  then have "cutByte (rev t @ c # rev s) c = Some (rev t, rev s)" by (intro cutByte_append) simp
  then show ?thesis by (simp add: cutLastByte_def)
qed

section \<open>IPv6\<close>

lemma hexVal_hexDigitChar: "d < 16 \<Longrightarrow> hexVal (hexDigitChar d) = Some d"
  by (simp add: hexVal_def hexDigitChar_def isDigit_def)

lemma showHex_small: "n < 16 \<Longrightarrow> showHex n = [hexDigitChar n]"
  by (simp add: showHex.simps)

lemma showHex_step: "16 \<le> n \<Longrightarrow> showHex n = showHex (n div 16) @ [hexDigitChar (n mod 16)]"
  by (subst showHex.simps) simp

lemma showHex_not_Nil [simp]: "showHex n \<noteq> []"
  by (subst showHex.simps) simp

lemma showHex_hex: "\<exists>ds. map hexVal (showHex n) = map Some ds \<and> foldl (\<lambda>a x. a * 16 + x) 0 ds = n"
proof (induction n rule: showHex.induct)
  case (1 n)
  show ?case
  proof (cases "n < 16")
    case True
    then show ?thesis by (intro exI[of _ "[n]"]) (simp add: showHex_small hexVal_hexDigitChar)
  next
    case False
    with 1 obtain ds where "map hexVal (showHex (n div 16)) = map Some ds" "foldl (\<lambda>a x. a * 16 + x) 0 ds = n div 16"
      by auto
    with False show ?thesis
      by (intro exI[of _ "ds @ [n mod 16]"]) (simp add: showHex_step hexVal_hexDigitChar)
  qed
qed

lemma length_showHex: "n < 16 ^ Suc k \<Longrightarrow> length (showHex n) \<le> Suc k"
proof (induction k arbitrary: n)
  case (Suc k)
  show ?case
  proof (cases "n < 16")
    case False
    have "n div 16 < 16 ^ Suc k" using Suc.prems by (simp add: less_mult_imp_div_less)
    with Suc.IH[of "n div 16"] False show ?thesis by (simp add: showHex_step)
  qed (simp add: showHex_small)
qed (simp add: showHex_small)

lemma spanHex_append:
  "map hexVal xs = map Some ds \<Longrightarrow> rest = [] \<or> hexVal (hd rest) = None \<Longrightarrow> spanHex (xs @ rest) = (ds, rest)"
proof (induction xs arbitrary: ds)
  case Nil
  then show ?case by (cases rest) auto
next
  case (Cons x xs)
  then show ?case by (cases ds) auto
qed

lemma spanHex_showHex:
  assumes "n < 65536" and "rest = [] \<or> hexVal (hd rest) = None"
  obtains d ds where "spanHex (showHex n @ rest) = (d # ds, rest)" "length ds \<le> 3"
    "foldl (\<lambda>a x. a * 16 + x) 0 (d # ds) = n"
proof -
  obtain es where es: "map hexVal (showHex n) = map Some es" "foldl (\<lambda>a x. a * 16 + x) 0 es = n"
    using showHex_hex by blast
  have "length (showHex n) \<le> 4" using length_showHex[of n 3] assms(1) by simp
  moreover have "length es = length (showHex n)" using es(1) by (metis length_map)
  ultimately obtain d ds where "es = d # ds" "length ds \<le> 3"
    using showHex_not_Nil[of n] by (cases es) auto
  then show thesis using that spanHex_append[OF es(1) assms(2)] es(2) by auto
qed

lemma parseGroups_last:
  assumes "g < 65536" and "length groups < 8"
  shows "parseGroups groups ell (showHex g) = Some (groups @ [g], ell)"
proof -
  obtain d ds where "spanHex (showHex g @ []) = (d # ds, [])" "length ds \<le> 3"
    "foldl (\<lambda>a x. a * 16 + x) 0 (d # ds) = g"
    by (rule spanHex_showHex[OF assms(1), where rest = "[]"]) simp_all
  with assms(2) show ?thesis by (subst parseGroups.simps) simp
qed

lemma parseGroups_colon:
  assumes "g < 65536" and "length groups < 8" and "rest \<noteq> []" and "hd rest \<noteq> CHR '':''"
  shows "parseGroups groups ell (showHex g @ CHR '':'' # rest) = parseGroups (groups @ [g]) ell rest"
proof -
  obtain d ds where "spanHex (showHex g @ CHR '':'' # rest) = (d # ds, CHR '':'' # rest)" "length ds \<le> 3"
    "foldl (\<lambda>a x. a * 16 + x) 0 (d # ds) = g"
    by (rule spanHex_showHex[OF assms(1), where rest = "CHR '':'' # rest"]) (simp_all add: hexVal_def isDigit_def)
  with assms(2-4) show ?thesis by (subst parseGroups.simps) (cases rest; simp add: Let_def)
qed

lemma parseGroups_ellipsis:
  assumes "g < 65536" and "length groups < 8"
  shows "parseGroups groups None (showHex g @ CHR '':'' # CHR '':'' # rest) =
    (if rest = [] then Some (groups @ [g], Some (Suc (length groups)))
     else parseGroups (groups @ [g]) (Some (Suc (length groups))) rest)"
proof -
  obtain d ds where "spanHex (showHex g @ CHR '':'' # CHR '':'' # rest) = (d # ds, CHR '':'' # CHR '':'' # rest)"
    "length ds \<le> 3" "foldl (\<lambda>a x. a * 16 + x) 0 (d # ds) = g"
    by (rule spanHex_showHex[OF assms(1), where rest = "CHR '':'' # CHR '':'' # rest"]) (simp_all add: hexVal_def isDigit_def)
  with assms(2) show ?thesis by (subst parseGroups.simps) (simp add: Let_def)
qed

abbreviation hexGroups :: "nat list \<Rightarrow> string" where
  "hexGroups gs \<equiv> joinStrings (map showHex gs) '':''"

lemma hexGroups_start: "gs \<noteq> [] \<Longrightarrow> hexGroups gs @ rest \<noteq> [] \<and> hd (hexGroups gs @ rest) \<noteq> CHR '':''"
proof -
  assume "gs \<noteq> []"
  then obtain g gs' where g: "gs = g # gs'" by (cases gs) auto
  obtain ds where ds: "map hexVal (showHex g) = map Some ds" using showHex_hex by blast
  obtain c cs where c: "showHex g = c # cs" by (cases "showHex g") auto
  with ds have "hexVal c \<noteq> None" by (cases ds) auto
  then have "c \<noteq> CHR '':''" by (auto simp: hexVal_def isDigit_def)
  with c g show ?thesis by (cases gs') auto
qed

lemma parseGroups_hexGroups:
  assumes "gs \<noteq> []" and "\<forall>g\<in>set gs. g < 65536" and "length groups + length gs \<le> 8"
  shows "parseGroups groups ell (hexGroups gs) = Some (groups @ gs, ell)"
  using assms
proof (induction gs arbitrary: groups)
  case (Cons g gs)
  show ?case
  proof (cases gs)
    case Nil
    then show ?thesis using Cons.prems parseGroups_last[of g groups ell] by simp
  next
    case (Cons g' gs')
    then have "hexGroups (g # gs) = showHex g @ CHR '':'' # hexGroups gs" by simp
    with Cons.prems Cons.IH[of "groups @ [g]"] Cons hexGroups_start[of gs "[]"] show ?thesis
      using parseGroups_colon[of g groups "hexGroups gs" ell] by simp
  qed
qed simp

lemma parseGroups_hexGroups_ellipsis:
  assumes "gs \<noteq> []" and "\<forall>g\<in>set gs. g < 65536" and "length groups + length gs \<le> 8"
  shows "parseGroups groups None (hexGroups gs @ CHR '':'' # CHR '':'' # rest) =
    (if rest = [] then Some (groups @ gs, Some (length (groups @ gs)))
     else parseGroups (groups @ gs) (Some (length (groups @ gs))) rest)"
  using assms
proof (induction gs arbitrary: groups)
  case (Cons g gs)
  show ?case
  proof (cases gs)
    case Nil
    then show ?thesis using Cons.prems parseGroups_ellipsis[of g groups rest] by simp
  next
    case (Cons g' gs')
    then have "hexGroups (g # gs) = showHex g @ CHR '':'' # hexGroups gs" by simp
    with Cons.prems Cons.IH[of "groups @ [g]"] Cons
      hexGroups_start[of gs "CHR '':'' # CHR '':'' # rest"] show ?thesis
      using parseGroups_colon[of g groups "hexGroups gs @ CHR '':'' # CHR '':'' # rest" None] by simp
  qed
qed simp

lemma bestZeroRun_spec:
  assumes "bestZeroRun gs = Some (s, e)"
  shows "s + 2 \<le> e \<and> e \<le> s + zeroRunLen (drop s gs)"
proof -
  have "case foldl (\<lambda>best i. let l = zeroRunLen (drop i gs) in
       if 2 \<le> l \<and> (case best of None \<Rightarrow> True | Some (s, e) \<Rightarrow> l > e - s) then Some (i, i + l) else best) b is of
      None \<Rightarrow> True | Some (s, e) \<Rightarrow> s + 2 \<le> e \<and> e \<le> s + zeroRunLen (drop s gs)"
    if "case b of None \<Rightarrow> True | Some (s, e) \<Rightarrow> s + 2 \<le> e \<and> e \<le> s + zeroRunLen (drop s gs)" for b "is"
    using that by (induction "is" arbitrary: b) (auto simp: Let_def split: option.splits)
  from this[of None "[0..<8]"] assms show ?thesis by (simp add: bestZeroRun_def)
qed

lemma zeroRun_split:
  "k \<le> zeroRunLen xs \<Longrightarrow> xs = replicate k 0 @ drop k xs \<and> k \<le> length xs"
proof (induction k arbitrary: xs)
  case (Suc k)
  then show ?case by (cases xs) (auto simp: zeroRunLen_def split: if_splits)
qed simp

lemma groupsOf_bound: "length (groupsOf n) = 8" "\<forall>g\<in>set (groupsOf n). g < 65536"
  by (auto simp: groupsOf_def)

lemma foldl_digits:
  fixes B :: nat
  shows "foldl (\<lambda>acc g. acc * B + g) 0 (map (\<lambda>i. n div B ^ (k + m - Suc i) mod B) [0..<k]) = n div B ^ m mod B ^ k"
proof (induction k arbitrary: m)
  case (Suc k)
  have "foldl (\<lambda>acc g. acc * B + g) 0 (map (\<lambda>i. n div B ^ (Suc k + m - Suc i) mod B) [0..<Suc k]) =
      (n div B ^ Suc m mod B ^ k) * B + n div B ^ m mod B"
    using Suc.IH[of "Suc m"] by simp
  also have "\<dots> = n div B ^ m mod B ^ Suc k"
    using mod_mult2_eq[of "n div B ^ m" B "B ^ k"] div_mult2_eq[of n "B ^ m" B] by (simp add: mult.commute)
  finally show ?case .
qed simp

lemma groupsVal_groupsOf: "n < 2 ^ 128 \<Longrightarrow> groupsVal (groupsOf n) = n"
  using foldl_digits[of 65536 n 8 0] by (simp add: groupsVal_def groupsOf_def)

lemma hexGroups_chars: "c \<in> set (hexGroups gs) \<Longrightarrow> c = CHR '':'' \<or> hexVal c \<noteq> None"
proof (induction gs)
  case (Cons g gs)
  have "hexVal c \<noteq> None" if "c \<in> set (showHex g)"
  proof -
    obtain ds where "map hexVal (showHex g) = map Some ds" using showHex_hex by blast
    then have "hexVal c \<in> Some ` set ds" using that by (metis image_eqI image_set)
    then show ?thesis by auto
  qed
  with Cons show ?case by (cases gs) auto
qed simp

text \<open>The body of an address, before a zone: what \<^verbatim>\<open>parseIPv6\<close> does once the zone is cut.\<close>

lemma parseIPv6_zone:
  assumes "CHR ''%'' \<notin> set s"
  shows "parseIPv6 (s @ (if z = [] then [] else CHR ''%'' # z)) =
    map_option (\<lambda>a. V6 (addrBits a) z) (parseIPv6 s)"
  using assms by (auto simp: parseIPv6_def cutByte_None[THEN iffD2] Let_def split: option.splits)

lemma hexGroups_no_percent: "CHR ''%'' \<notin> set (hexGroups gs)"
  using hexGroups_chars[of "CHR ''%''" gs] by (auto simp: hexVal_def isDigit_def)

lemma groupsVal_zeros: "groupsVal (replicate k 0) = 0"
  by (induction k) (auto simp: groupsVal_def)

lemma parseGroups_compressed:
  assumes "\<forall>g\<in>set l. g < 65536" and "\<forall>g\<in>set r. g < 65536" and "length l + length r \<le> 6" and "l \<noteq> []"
  shows "parseGroups [] None (hexGroups l @ CHR '':'' # CHR '':'' # hexGroups r) = Some (l @ r, Some (length l))"
proof (cases "r = []")
  case True
  then show ?thesis using parseGroups_hexGroups_ellipsis[OF assms(4,1), of "[]" "[]"] assms(3) by simp
next
  case r: False
  have "hexGroups r \<noteq> []" using hexGroups_start[OF r, of "[]"] by simp
  then show ?thesis
    using parseGroups_hexGroups[OF r assms(2), of l "Some (length l)"] assms(3)
      parseGroups_hexGroups_ellipsis[OF assms(4,1), of "[]" "hexGroups r"] by simp
qed

lemma parseIPv6_compressed:
  assumes "\<forall>g\<in>set l. g < 65536" and "\<forall>g\<in>set r. g < 65536" and "length l + length r \<le> 6"
  shows "parseIPv6 (hexGroups l @ CHR '':'' # CHR '':'' # hexGroups r) =
    Some (V6 (groupsVal (l @ replicate (8 - (length l + length r)) 0 @ r)) [])"
    (is "parseIPv6 ?s = _")
proof -
  have nz: "cutByte ?s CHR ''%'' = None"
    using hexGroups_no_percent by (simp add: cutByte_None)
  have ex: "expandEllipsis (l @ r, Some (length l)) = Some (l @ replicate (8 - (length l + length r)) 0 @ r)"
    using assms(3) by (simp add: expandEllipsis_def)
  consider "l = []" "r = []" | "l = []" "r \<noteq> []" | "l \<noteq> []" by blast
  then show ?thesis
  proof cases
    case 1
    with nz show ?thesis by (simp add: parseIPv6_def groupsVal_zeros)
  next
    case 2
    then have "hexGroups r \<noteq> []" using hexGroups_start[of r "[]"] by simp
    with 2 show ?thesis
      using parseGroups_hexGroups[OF 2(2) assms(2), of "[]" "Some 0"] assms(3) nz ex by (simp add: parseIPv6_def)
  next
    case 3
    then have "\<not> hasPrefix ?s ''::''" "?s \<noteq> ''::''"
      using hexGroups_start[OF 3, of "CHR '':'' # CHR '':'' # hexGroups r"] by (auto simp: hasPrefix_iff)
    with nz ex parseGroups_compressed[OF assms 3] show ?thesis by (simp add: parseIPv6_def)
  qed
qed

lemma string6_parts:
  obtains "string6 n = hexGroups (groupsOf n)"
  | l r where "string6 n = hexGroups l @ CHR '':'' # CHR '':'' # hexGroups r" "length l + length r \<le> 6"
      "groupsOf n = l @ replicate (8 - (length l + length r)) 0 @ r"
proof (cases "bestZeroRun (groupsOf n)")
  case None
  then show thesis using that(1) by (simp add: string6_def)
next
  case (Some se)
  then obtain s e where se: "bestZeroRun (groupsOf n) = Some (s, e)" by (cases se) auto
  define l r where "l = take s (groupsOf n)" and "r = drop e (groupsOf n)"
  have b: "s + 2 \<le> e" "e - s \<le> zeroRunLen (drop s (groupsOf n))" using bestZeroRun_spec[OF se] by auto
  have d: "drop s (groupsOf n) = replicate (e - s) 0 @ r" "e \<le> 8"
    using zeroRun_split[OF b(2)] b(1) groupsOf_bound(1)[of n] by (auto simp: r_def)
  have len: "length l = s" "length r = 8 - e"
    using d(2) b(1) groupsOf_bound(1)[of n] by (auto simp: l_def r_def)
  have "groupsOf n = l @ replicate (e - s) 0 @ r" using d(1) by (metis append_take_drop_id l_def)
  moreover have "8 - (length l + length r) = e - s" using len b(1) d(2) by simp
  ultimately have "groupsOf n = l @ replicate (8 - (length l + length r)) 0 @ r" by (simp only:)
  moreover have "string6 n = hexGroups l @ CHR '':'' # CHR '':'' # hexGroups r"
    by (simp add: string6_def se l_def r_def Let_def)
  moreover have "length l + length r \<le> 6" using len b(1) d(2) by simp
  ultimately show thesis by (rule that(2)[rotated 2])
qed

lemma parseIPv6_string6:
  assumes "n < 2 ^ 128"
  shows "parseIPv6 (string6 n) = Some (V6 n [])"
proof (rule string6_parts[of n])
  let ?gs = "groupsOf n"
  have ne: "?gs \<noteq> []" using groupsOf_bound(1)[of n] by auto
  assume s: "string6 n = hexGroups ?gs"
  have "cutByte (hexGroups ?gs) CHR ''%'' = None" using hexGroups_no_percent by (simp add: cutByte_None)
  moreover have "\<not> hasPrefix (hexGroups ?gs) ''::''" "hexGroups ?gs \<noteq> ''::''"
    using hexGroups_start[OF ne, of "[]"] by (auto simp: hasPrefix_iff)
  ultimately show ?thesis
    using s parseGroups_hexGroups[OF ne groupsOf_bound(2), of "[]" None] groupsOf_bound(1)[of n] groupsVal_groupsOf[OF assms]
    by (simp add: parseIPv6_def expandEllipsis_def)
next
  fix l r
  assume "string6 n = hexGroups l @ CHR '':'' # CHR '':'' # hexGroups r" "length l + length r \<le> 6"
    "groupsOf n = l @ replicate (8 - (length l + length r)) 0 @ r"
  with parseIPv6_compressed[of l r] groupsOf_bound(2)[of n] groupsVal_groupsOf[OF assms] show ?thesis by auto
qed

text \<open>The IPv4-mapped form, printed with the IPv4 address in dotted decimal.\<close>

lemma length_showDec: "n < 10 ^ Suc k \<Longrightarrow> length (showDec n) \<le> Suc k"
proof (induction k arbitrary: n)
  case (Suc k)
  show ?case
  proof (cases "n < 10")
    case False
    have "n div 10 < 10 ^ Suc k" using Suc.prems by (simp add: less_mult_imp_div_less)
    with Suc.IH[of "n div 10"] False show ?thesis by (simp add: showDec_step)
  qed (simp add: showDec_small)
qed (simp add: showDec_small)

lemma digits_hexVal: "\<forall>c\<in>set xs. isDigit c \<Longrightarrow> map hexVal xs = map Some (map (\<lambda>c. byte c - 48) xs)"
  by (auto simp: hexVal_def)

lemma spanHex_string4:
  obtains d ds rest where "spanHex (string4 m) = (d # ds, CHR ''.'' # rest)" "length ds \<le> 3"
proof -
  obtain a rest where a: "a < 256" "string4 m = showDec a @ CHR ''.'' # rest"
    by (rule that[of "m div 16777216 mod 256"]) (simp_all add: string4_def octetsOf_def)
  let ?ds = "map (\<lambda>c. byte c - 48) (showDec a)"
  have "map hexVal (showDec a) = map Some ?ds" using digits_hexVal showDec_digits by blast
  then have "spanHex (string4 m) = (?ds, CHR ''.'' # rest)"
    unfolding a(2) by (rule spanHex_append) (simp add: hexVal_def isDigit_def)
  moreover have "length ?ds \<le> 3" using length_showDec[of a 2] a(1) by simp
  moreover have "?ds \<noteq> []" by simp
  ultimately show thesis using that by (cases ?ds) auto
qed

lemma parseIPv6_mapped:
  assumes "is4In6 n"
  shows "parseIPv6 (''::ffff:'' @ string4 (n mod 2 ^ 32)) = Some (V6 n [])"
proof -
  let ?m = "n mod 2 ^ 32"
  obtain d ds rest where sp: "spanHex (string4 ?m) = (d # ds, CHR ''.'' # rest)" "length ds \<le> 3"
    by (rule spanHex_string4)
  have v: "octetsVal (octetsOf ?m) = ?m" by (rule octets_of_val) simp
  have "parseGroups [65535] (Some 0) (string4 ?m) = Some ([65535, ?m div 65536, ?m mod 65536], Some 0)"
    using sp v parseIPv4Loop_string4[of ?m] by (subst parseGroups.simps) simp
  moreover have ne: "string4 ?m \<noteq> []" using sp(1) by auto
  moreover have "hd (string4 ?m) \<noteq> CHR '':''"
    using string4_chars[OF hd_in_set[OF ne]] by (auto simp: isDigit_def)
  moreover have "showHex 65535 = ''ffff''" by (simp add: showHex.simps hexDigitChar_def char_of_def bit_0)
  ultimately have "parseGroups [] (Some 0) (''ffff:'' @ string4 ?m) = Some ([65535, ?m div 65536, ?m mod 65536], Some 0)"
    using parseGroups_colon[of 65535 "[]" "string4 ?m" "Some 0"] by simp
  moreover have "cutByte (''::ffff:'' @ string4 ?m) CHR ''%'' = None"
    using string4_chars[of "CHR ''%''" ?m] by (auto simp: cutByte_None isDigit_def)
  moreover have "replicate 5 (0 :: nat) = [0, 0, 0, 0, 0]" by (simp add: numeral_eq_Suc)
  moreover have "(65535 * 65536 + ?m div 65536) * 65536 + ?m mod 65536 = n"
    using assms div_mult_mod_eq[of n "2 ^ 32"] div_mult_mod_eq[of ?m 65536] by (simp add: is4In6_def)
  ultimately show ?thesis
    by (simp add: parseIPv6_def hasPrefix_def expandEllipsis_def groupsVal_def)
qed

section \<open>Addresses and prefixes\<close>

lemma kind_hex: "list_all (\<lambda>c. c \<noteq> CHR ''.'' \<and> c \<noteq> CHR '':'' \<and> c \<noteq> CHR ''%'') (showHex g)"
proof -
  obtain ds where ds: "map hexVal (showHex g) = map Some ds" using showHex_hex by blast
  have "hexVal c \<noteq> None" if "c \<in> set (showHex g)" for c
  proof -
    have "hexVal c \<in> Some ` set ds" using that ds by (metis image_eqI image_set)
    then show ?thesis by auto
  qed
  then show ?thesis by (fastforce simp: list_all_iff hexVal_def isDigit_def)
qed

lemma kind_hexGroups: "gs \<noteq> [] \<Longrightarrow> parseAddrKind (hexGroups gs @ CHR '':'' # rest) = Some CHR '':''"
  by (cases gs rule: list.exhaust; cases "tl gs") (auto simp: parseAddrKind_append[OF kind_hex])

lemma kind_string6: "parseAddrKind (string6 n @ rest) = Some CHR '':''"
proof (rule string6_parts[of n])
  assume s: "string6 n = hexGroups (groupsOf n)"
  obtain g h gs where "groupsOf n = g # h # gs"
    using groupsOf_bound(1)[of n] by (cases "groupsOf n"; cases "tl (groupsOf n)") auto
  then show ?thesis by (simp add: s parseAddrKind_append[OF kind_hex])
next
  fix l r
  assume "string6 n = hexGroups l @ CHR '':'' # CHR '':'' # hexGroups r"
  then show ?thesis using kind_hexGroups[of l] by (cases "l = []") auto
qed

lemma string6_no_percent: "CHR ''%'' \<notin> set (string6 n)"
  by (rule string6_parts[of n]) (auto simp: hexGroups_no_percent)

theorem ParseAddr_addrString:
  assumes "addrOK a"
  shows "ParseAddr (addrString a) = Some a"
proof (cases a)
  case (V4 n)
  then show ?thesis using assms ParseAddr_string4[of n] by (simp add: addrOK_def)
next
  case (V6 n z)
  let ?z = "if z = [] then [] else CHR ''%'' # z"
  show ?thesis
  proof (cases "is4In6 n")
    case True
    have "CHR ''%'' \<notin> set (''::ffff:'' @ string4 (n mod 2 ^ 32))"
      using string4_chars[of "CHR ''%''"] by (auto simp: isDigit_def)
    from parseIPv6_zone[OF this, of z] parseIPv6_mapped[OF True]
    have "parseIPv6 ((''::ffff:'' @ string4 (n mod 2 ^ 32)) @ ?z) = Some (V6 n z)" by simp
    with True V6 show ?thesis by (simp add: ParseAddr_def)
  next
    case False
    have "parseIPv6 (string6 n @ ?z) = Some (V6 n z)"
      using parseIPv6_zone[OF string6_no_percent, of n z] parseIPv6_string6[of n] assms V6 by (simp add: addrOK_def)
    with False V6 kind_string6[of n ?z] show ?thesis by (simp add: ParseAddr_def)
  qed
qed

text \<open>What parsing returns is in range.\<close>

lemma parseIPv4Loop_bound:
  assumes "parseIPv4Loop v k fs s = Some os" and "v < 256" and "\<forall>f\<in>set fs. f < 256"
  shows "length os = 4 \<and> (\<forall>o'\<in>set os. o' < 256)"
  using assms
proof (induction s arbitrary: v k fs)
  case (Cons c s)
  consider (digit) "isDigit c" | (dot) "\<not> isDigit c" "c = CHR ''.''" | (bad) "\<not> isDigit c" "c \<noteq> CHR ''.''" by blast
  then show ?case
  proof cases
    case digit
    define w where "w = v * 10 + (byte c - 48)"
    have "parseIPv4Loop w (Suc k) fs s = Some os" "\<not> 255 < w"
      using digit Cons.prems(1) by (simp_all only: parseIPv4Loop.simps Let_def if_True w_def[symmetric] split: if_splits) simp_all
    with Cons.prems(3) show ?thesis by (intro Cons.IH[of w "Suc k" fs]) auto
  next
    case dot
    with Cons.prems Cons.IH[of 0 0 "fs @ [v]"] show ?thesis by (simp split: if_splits)
  next
    case bad
    with Cons.prems show ?thesis by simp
  qed
qed (simp split: if_splits, force)

lemma foldl_base_bound:
  fixes B :: nat
  assumes "\<forall>x\<in>set xs. x < B" and "a < B ^ k"
  shows "foldl (\<lambda>acc x. acc * B + x) a xs < B ^ (k + length xs)"
  using assms
proof (induction xs arbitrary: a k)
  case (Cons x xs)
  have "a * B + x < (a + 1) * B" using Cons.prems(1) by simp
  also have "\<dots> \<le> B ^ k * B" using Cons.prems(2) by (intro mult_right_mono) simp_all
  finally have "a * B + x < B ^ Suc k" by (simp add: mult.commute)
  with Cons.IH[of "a * B + x" "Suc k"] Cons.prems(1) show ?case by simp
qed simp

lemma octetsVal_bound:
  assumes "length os = 4" and "\<forall>o'\<in>set os. o' < 256"
  shows "octetsVal os < 2 ^ 32"
  using foldl_base_bound[of os 256 0 0] assms by (simp add: octetsVal_def)

lemma spanHex_bound: "spanHex s = (ds, rest) \<Longrightarrow> \<forall>d\<in>set ds. d < 16"
proof (induction s arbitrary: ds)
  case (Cons c s)
  have "d < 16" if "hexVal c = Some d" for d
    using that by (auto simp: hexVal_def isDigit_def split: if_splits)
  with Cons show ?case by (auto split: option.splits prod.splits)
qed simp

lemma group_bound:
  assumes "spanHex s = (ds, rest)" and "length ds \<le> 4"
  shows "foldl (\<lambda>a x. a * 16 + x) 0 ds < 65536"
proof -
  have "foldl (\<lambda>a x. a * 16 + x) 0 ds < 16 ^ (0 + length ds)"
    by (rule foldl_base_bound) (use spanHex_bound[OF assms(1)] in auto)
  also have "\<dots> \<le> (16 :: nat) ^ 4" using assms(2) by (intro power_increasing) auto
  finally show ?thesis by simp
qed

lemma embedded_bound:
  assumes "parseIPv4Loop 0 0 [] s = Some os"
  shows "octetsVal os div 65536 < 65536"
proof -
  have "length os = 4 \<and> (\<forall>o'\<in>set os. o' < 256)" by (rule parseIPv4Loop_bound[OF assms]) auto
  then have "octetsVal os < 65536 * 65536" using octetsVal_bound[of os] by simp
  then show ?thesis by (rule less_mult_imp_div_less)
qed

lemma parseGroups_bound:
  "parseGroups groups ell s = Some (gs, e) \<Longrightarrow> \<forall>g\<in>set groups. g < 65536 \<Longrightarrow> \<forall>g\<in>set gs. g < 65536"
proof (induction groups ell s arbitrary: gs e rule: parseGroups.induct)
  case (1 groups ell s)
  obtain ds rest where sp: "spanHex s = (ds, rest)" by (cases "spanHex s")
  show ?case
  proof (cases "length groups \<ge> 8 \<or> ds = [] \<or> length (tl ds) > 3")
    case True
    then show ?thesis using 1(3,4) sp by (subst (asm) parseGroups.simps) (auto split: if_splits list.splits)
  next
    case False
    then obtain d ds' where ds: "ds = d # ds'" "length ds' \<le> 3" "length groups < 8" by (cases ds) auto
    have b: "foldl (\<lambda>a x. a * 16 + x) 0 (d # ds') < 65536" using group_bound[OF sp] ds by simp
    have i1: "\<forall>g\<in>set gs. g < 65536"
      if "rest = CHR '':'' # CHR '':'' # rest2" "rest2 \<noteq> []" "ell = None"
        "parseGroups (groups @ [foldl (\<lambda>a x. a * 16 + x) 0 (d # ds')])
           (Some (length (groups @ [foldl (\<lambda>a x. a * 16 + x) 0 (d # ds')]))) rest2 = Some (gs, e)" for rest2
      using 1(1)[OF _ sp[symmetric] ds(1) _ that(1) _ _ refl refl refl _ that(2,4)] that(3) ds b 1(4) by simp
    have i2: "\<forall>g\<in>set gs. g < 65536"
      if "rest = CHR '':'' # c2 # rest2" "c2 \<noteq> CHR '':''"
        "parseGroups (groups @ [foldl (\<lambda>a x. a * 16 + x) 0 (d # ds')]) ell (c2 # rest2) = Some (gs, e)" for c2 rest2
      using 1(2)[OF _ sp[symmetric] ds(1) _ that(1) _ _ refl refl that(2,3)] ds b 1(4) by simp
    show ?thesis
      using 1(3,4) sp ds b embedded_bound
      by (subst (asm) parseGroups.simps)
        (auto simp: Let_def dest: i1 i2 split: if_splits list.splits option.splits)
  qed
qed

lemma groupsVal_bound:
  assumes "length gs = 8" and "\<forall>g\<in>set gs. g < 65536"
  shows "groupsVal gs < 2 ^ 128"
  using foldl_base_bound[of gs 65536 0 0] assms by (simp add: groupsVal_def)

lemma expandEllipsis_bound:
  assumes "expandEllipsis (groups, ell) = Some gs" and "\<forall>g\<in>set groups. g < 65536"
  shows "groupsVal gs < 2 ^ 128"
proof (rule groupsVal_bound)
  show "length gs = 8" using assms(1) by (auto simp: expandEllipsis_def split: option.splits if_splits)
  have "set gs \<subseteq> insert 0 (set groups)"
    using assms(1) by (auto simp: expandEllipsis_def split: option.splits if_splits dest: in_set_takeD in_set_dropD)
  with assms(2) show "\<forall>g\<in>set gs. g < 65536" by auto
qed

lemma parseIPv6_OK: "parseIPv6 s = Some a \<Longrightarrow> addrOK a"
proof -
  assume "parseIPv6 s = Some a"
  then consider z where "a = V6 0 z"
    | t ell groups ell' gs z where "parseGroups [] ell t = Some (groups, ell')"
        "expandEllipsis (groups, ell') = Some gs" "a = V6 (groupsVal gs) z"
    unfolding parseIPv6_def
    by (auto simp: Let_def Option.bind_eq_Some_conv split: option.splits if_splits prod.splits)
  then show ?thesis
    by cases (auto simp: addrOK_def dest!: parseGroups_bound expandEllipsis_bound)
qed

lemma ParseAddr_OK: "ParseAddr s = Some a \<Longrightarrow> addrOK a"
  using parseIPv6_OK[of s a] octetsVal_bound parseIPv4Loop_bound[of 0 0 "[]" s]
  by (auto simp: ParseAddr_def parseIPv4_def addrOK_def split: option.splits if_splits)

lemma withoutZone_id: "\<not> hasZone a \<Longrightarrow> withoutZone a = a"
  by (cases a) auto

lemma BitLen_le: "BitLen a \<le> 128"
  by (cases a) auto

theorem ParsePrefix_prefixString:
  assumes "prefixOK p" and "addrOK (pAddr p)"
  shows "ParsePrefix (prefixString p) = Some p"
proof -
  have "CHR ''/'' \<notin> set (showDec (pBits p))" using showDec_digits[of "CHR ''/''" "pBits p"] by (auto simp: isDigit_def)
  then have cut: "cutLastByte (prefixString p) CHR ''/'' = Some (addrString (pAddr p), showDec (pBits p))"
    by (simp add: prefixString_def cutLastByte_append)
  have b: "pBits p \<le> BitLen (pAddr p)" "\<not> hasZone (pAddr p)" using assms(1) by (auto simp: prefixOK_def)
  have "pBits p < 2 ^ 63" using b(1) BitLen_le[of "pAddr p"] by simp
  then have "atoi (showDec (pBits p)) = Some (int (pBits p))" by (rule atoi_showDec)
  moreover have "length (showDec (pBits p)) > 1 \<Longrightarrow>
      \<not> (byte (hd (showDec (pBits p))) < 49 \<or> byte (hd (showDec (pBits p))) > 57)"
    using hd_showDec[of "pBits p"] by (cases "pBits p = 0") (auto simp: showDec_small)
  ultimately show ?thesis
    using cut b ParseAddr_addrString[OF assms(2)]
    by (auto simp: ParsePrefix_def PrefixFrom_def withoutZone_id)
qed

lemma ParsePrefix_addrOK: "ParsePrefix s = Some p \<Longrightarrow> addrOK (pAddr p)"
  using ParseAddr_OK by (auto simp: ParsePrefix_def PrefixFrom_def addrOK_def split: option.splits if_splits)

lemma Masked_OK:
  assumes "prefixOK p" and "addrOK (pAddr p)"
  shows "prefixOK (Masked p)" and "addrOK (pAddr (Masked p))" and "Masked (Masked p) = Masked p"
proof -
  have lt: "n div d * d < m" if "n < m" for n d m :: nat
    using that by (metis div_times_less_eq_dividend le_less_trans)
  show "prefixOK (Masked p)" using assms(1) by (simp add: prefixOK_def Masked_def)
  show "addrOK (pAddr (Masked p))"
    using assms(2) by (cases "pAddr p") (auto simp: addrOK_def Masked_def intro: lt)
  show "Masked (Masked p) = Masked p" by (cases "pAddr p") (simp_all add: Masked_def)
qed

lemma ParsePrefix_canonical:
  assumes "ParsePrefix c = Some p"
  shows "ParsePrefix (prefixString (Masked p)) = Some (Masked p)" and "Masked (Masked p) = Masked p"
  using ParsePrefix_prefixString Masked_OK ParsePrefix_OK[OF assms] ParsePrefix_addrOK[OF assms] by auto

end
