(* ===== verification/Client_Ip.thy ===== *)
theory Client_Ip
  imports Go_Http Netip_Roundtrip
begin

text \<open>
  Who the client is: \<^verbatim>\<open>clientIP\<close> of \<^verbatim>\<open>src/accesslog.go\<close> with the peer-trust policy of
  \<^verbatim>\<open>src/trustedproxy.go\<close>, the address selection of \<^verbatim>\<open>src/ip_selection.go\<close>, the allow and deny lists of
  \<^verbatim>\<open>src/iplist.go\<close>, and \<^verbatim>\<open>resolveCIDRs\<close> of \<^verbatim>\<open>src/resolve.go\<close>.  What middleware stores in the request
  context is the record \<open>ctxReq\<close> extending a request.
\<close>

section \<open>Trust policy\<close>

record trustedProxyPolicy =
  tpPrefixes :: "Prefix list"
  tpHeader :: string

record ctxReq = httpReq +
  cxTrusted :: "trustedProxyPolicy option"
  cxCloudflare :: bool
  cxListener :: string

definition mustParsePrefixes :: "string list \<Rightarrow> Prefix list" where
  "mustParsePrefixes cidrs = List.map_filter ParsePrefix cidrs"

definition addrInPrefixes :: "Addr \<Rightarrow> Prefix list \<Rightarrow> bool" where
  "addrInPrefixes a ps = list_ex (\<lambda>p. Contains p (Unmap a)) ps"

definition trustedProxyMiddleware :: "string list \<Rightarrow> string \<Rightarrow> ctxReq \<Rightarrow> ctxReq" where
  "trustedProxyMiddleware cidrs header r =
     r\<lparr>cxTrusted := Some \<lparr>tpPrefixes = mustParsePrefixes cidrs, tpHeader = header\<rparr>\<rparr>"

text \<open>The text after the last comma, which is all of it when there is none.\<close>

definition lastElement :: "string \<Rightarrow> string" where
  "lastElement s = (case cutLastByte s CHR '','' of None \<Rightarrow> s | Some (_, t) \<Rightarrow> t)"

definition policyClientIP :: "trustedProxyPolicy \<Rightarrow> ctxReq \<Rightarrow> string" where
  "policyClientIP p r = (case ParseAddrPort (rRemoteAddr r) of
       None \<Rightarrow> rRemoteAddr r
     | Some peer \<Rightarrow>
         (let peerIP = addrString (Unmap peer) in
          if \<not> addrInPrefixes peer (tpPrefixes p) then peerIP
          else (let vals = headerValues (rHeader r) (tpHeader p) in
            if vals = [] then peerIP
            else (let trimmed = trimSpace (lastElement (last vals)) in
              if trimmed \<noteq> [] then trimmed else peerIP))))"

definition peerString :: "ctxReq \<Rightarrow> string" where
  "peerString r = (case ParseAddrPort (rRemoteAddr r) of
       Some peer \<Rightarrow> addrString (Unmap peer) | None \<Rightarrow> rRemoteAddr r)"

definition clientIP :: "ctxReq \<Rightarrow> string" where
  "clientIP r = (case cxTrusted r of
       Some p \<Rightarrow> policyClientIP p r
     | None \<Rightarrow>
         if cxCloudflare r \<and> headerGet (rHeader r) ''CF-Connecting-IP'' \<noteq> []
         then headerGet (rHeader r) ''CF-Connecting-IP''
         else if cxCloudflare r \<and> headerGet (rHeader r) ''True-Client-IP'' \<noteq> []
         then headerGet (rHeader r) ''True-Client-IP''
         else peerString r)"

section \<open>Address lists\<close>

definition splitHostPortLast :: "string \<Rightarrow> (string \<times> string) option" where
  "splitHostPortLast s =
     (if s = [] then None
      else if hd s = CHR ''['' then
        (case cutByte s CHR '']'' of
           None \<Rightarrow> None
         | Some (opened, rest) \<Rightarrow>
             Some (tl opened, if length rest > 1 \<and> hd rest = CHR '':'' then tl rest else []))
      else (case cutByte s CHR '':'' of
          None \<Rightarrow> Some (s, [])
        | Some (before, after) \<Rightarrow>
            if containsByte after CHR '':'' then Some (s, []) else Some (before, after)))"

definition parseClientAddr :: "ctxReq \<Rightarrow> Addr option" where
  "parseClientAddr r =
     (let ip = clientIP r;
          ip = (case splitHostPortLast ip of Some (h, _) \<Rightarrow> h | None \<Rightarrow> ip)
      in ParseAddr ip)"

definition ipInList :: "ctxReq \<Rightarrow> Prefix list \<Rightarrow> bool" where
  "ipInList r ps = (case parseClientAddr r of
       None \<Rightarrow> False
     | Some addr \<Rightarrow> list_ex (\<lambda>p. Contains p addr) ps)"

definition resolveCIDRs :: "string list \<Rightarrow> string list option" where
  "resolveCIDRs cidrs =
     (if cidrs = [] then None
      else those (map (\<lambda>c. map_option (\<lambda>p. prefixString (Masked p)) (ParsePrefix c)) cidrs))"

section \<open>Address selection\<close>

record IPSelection =
  Mode :: string
  Depth :: int
  ExcludedIPs :: "string list"
  IPv6Subnet :: "int option"

text \<open>One excluded entry: a bare address widened to its host prefix, then masked.\<close>

definition excludedEntry :: "string \<Rightarrow> string option" where
  "excludedEntry value =
     (let value = (case ParseAddr value of
          Some a \<Rightarrow> prefixString (PrefixFrom a (BitLen a)) | None \<Rightarrow> value)
      in map_option (\<lambda>p. prefixString (Masked p)) (ParsePrefix value))"

definition resolveIPSelection :: "IPSelection option \<Rightarrow> IPSelection option option" where
  "resolveIPSelection p = (case p of
       None \<Rightarrow> Some None
     | Some out \<Rightarrow>
         if \<not> List.member [''peer'', ''verified'', ''forwarded''] (Mode out) then None
         else if Depth out < 0 then None
         else (case those (map excludedEntry (ExcludedIPs out)) of
             None \<Rightarrow> None
           | Some excluded \<Rightarrow>
               (case IPv6Subnet out of
                  None \<Rightarrow> Some (Some (out\<lparr>ExcludedIPs := excluded\<rparr>))
                | Some bits \<Rightarrow>
                    if bits < 0 \<or> bits > 128 then None
                    else Some (Some (out\<lparr>ExcludedIPs := excluded\<rparr>)))))"

fun firstNotExcluded :: "Prefix list \<Rightarrow> string list \<Rightarrow> string" where
  "firstNotExcluded excluded [] = []"
| "firstNotExcluded excluded (part # parts) =
     (let part = trimSpace part in
      if part = [] then firstNotExcluded excluded parts
      else (case ParseAddr part of
          None \<Rightarrow> part
        | Some ip \<Rightarrow> if \<not> addrInPrefixes ip excluded then part else firstNotExcluded excluded parts))"

definition forwardedSelection :: "IPSelection \<Rightarrow> ctxReq \<Rightarrow> string" where
  "forwardedSelection p r =
     (let parts = splitByte (headerGet (rHeader r) ''X-Forwarded-For'') CHR '','' in
      if Depth p > 0 then
        (if Depth p \<le> int (length parts) then trimSpace (parts ! (length parts - nat (Depth p))) else [])
      else firstNotExcluded (mustParsePrefixes (ExcludedIPs p)) (rev parts))"

definition selectedRequestIP :: "IPSelection option \<Rightarrow> ctxReq \<Rightarrow> string" where
  "selectedRequestIP sel r = (case sel of
       None \<Rightarrow> clientIP r
     | Some p \<Rightarrow>
         (let value = (if Mode p = ''verified'' then clientIP r
              else if Mode p = ''forwarded'' then forwardedSelection p r
              else (case SplitHostPort (rRemoteAddr r) of Some (host, _) \<Rightarrow> host | None \<Rightarrow> rRemoteAddr r))
          in case IPv6Subnet p of
               None \<Rightarrow> value
             | Some bits \<Rightarrow> (case ParseAddr value of
                 None \<Rightarrow> value
               | Some ip \<Rightarrow>
                   if is6 ip \<and> 0 \<le> bits \<and> bits \<le> 128
                   then addrString (maskAddr (withoutZone ip) (nat bits)) else value)))"

section \<open>The middleware\<close>

datatype verdict403 = Forbidden403 | PassOn

definition allowIPsHandler :: "string list \<Rightarrow> IPSelection option \<Rightarrow> ctxReq \<Rightarrow> verdict403" where
  "allowIPsHandler cidrs sel r =
     (let ps = mustParsePrefixes cidrs in
      case ParseAddr (selectedRequestIP sel r) of
        None \<Rightarrow> Forbidden403
      | Some value \<Rightarrow> if \<not> addrInPrefixes value ps then Forbidden403 else PassOn)"

definition denyIPsHandler :: "string list \<Rightarrow> ctxReq \<Rightarrow> verdict403" where
  "denyIPsHandler cidrs r = (if ipInList r (mustParsePrefixes cidrs) then Forbidden403 else PassOn)"

definition routePeerMatches :: "Prefix list \<Rightarrow> ctxReq \<Rightarrow> bool" where
  "routePeerMatches ps r =
     (if ps = [] then True
      else (case ParseAddrPort (rRemoteAddr r) of
          None \<Rightarrow> False
        | Some peer \<Rightarrow> addrInPrefixes (withoutZone peer) ps))"

section \<open>Lemmas\<close>

lemma lastElement_append: "CHR '','' \<notin> set t \<Longrightarrow> lastElement (s @ CHR '','' # t) = t"
  by (simp add: lastElement_def cutLastByte_append)

lemma splitByte_append: "splitByte (x @ c # y) c = splitByte x c @ splitByte y c"
  by (induction x) (auto split: list.splits)

lemma firstNotExcluded_append:
  "firstNotExcluded ps xs \<noteq> [] \<Longrightarrow> firstNotExcluded ps (xs @ ys) = firstNotExcluded ps xs"
  by (induction xs) (auto simp: Let_def split: option.splits if_splits)

lemma Unmap_mapped: "is4In6 n \<Longrightarrow> Unmap (V6 n z) = V4 (n mod 2 ^ 32)"
  by simp

lemma those_map: "those (map f xs) = Some ys \<longleftrightarrow> list_all2 (\<lambda>x y. f x = Some y) xs ys"
proof (induction xs arbitrary: ys)
  case (Cons x xs)
  then show ?case by (cases ys) (auto split: option.splits)
qed auto

lemma resolveCIDRs_parsed:
  assumes "list_all2 (\<lambda>c t. map_option (\<lambda>p. prefixString (Masked p)) (ParsePrefix c) = Some t) cidrs out"
  shows "mustParsePrefixes out = map Masked (mustParsePrefixes cidrs)"
    and "list_all2 (\<lambda>c t. map_option (\<lambda>p. prefixString (Masked p)) (ParsePrefix c) = Some t) out out"
  using assms
  by (induction cidrs out rule: list_all2_induct)
     (auto simp: mustParsePrefixes_def List.map_filter_simps ParsePrefix_canonical)

section \<open>Properties\<close>

text \<open>
  C12: Canonicalising an access list changes its spelling only.  \<^verbatim>\<open>resolveCIDRs\<close> stores every entry in masked
  form; parsed again at run time, the stored texts admit exactly the addresses the configured ones do,
  and resolving the stored list once more returns it unchanged.
\<close>

theorem resolveCIDRs_canonical:
  assumes "resolveCIDRs cidrs = Some out"
  shows "resolveCIDRs out = Some out \<and> length out = length cidrs \<and>
    (\<forall>a. addrInPrefixes a (mustParsePrefixes out) \<longleftrightarrow> addrInPrefixes a (mustParsePrefixes cidrs))"
proof -
  have l: "list_all2 (\<lambda>c t. map_option (\<lambda>p. prefixString (Masked p)) (ParsePrefix c) = Some t) cidrs out"
    and ne: "cidrs \<noteq> []"
    using assms unfolding resolveCIDRs_def those_map[symmetric] by (auto split: if_splits)
  have "out \<noteq> []" using l ne by auto
  with resolveCIDRs_parsed[OF l] list_all2_lengthD[OF l] show ?thesis
    by (simp add: resolveCIDRs_def those_map addrInPrefixes_def list_ex_iff)
qed

lemma demoCIDR: "ParsePrefix ''10.1.2.3/8'' = Some \<lparr>pAddr = V4 167838211, pBits = 8\<rparr>"
proof -
  have "parseIPv4Loop 0 0 [] ''10.1.2.3'' = Some [10, 1, 2, 3]" by (simp add: isDigit_def)
  then have a: "ParseAddr ''10.1.2.3'' = Some (V4 167838211)"
    by (simp add: ParseAddr_def parseIPv4_def octetsVal_def)
  have "cutLastByte ''10.1.2.3/8'' (CHR ''/'') = Some (''10.1.2.3'', ''8'')" by (simp add: cutLastByte_def)
  then show ?thesis by (simp add: ParsePrefix_def a atoi_def parseDec_def isDigit_def PrefixFrom_def)
qed

theorem resolveCIDRs_canonical_witness:
  "resolveCIDRs [''10.1.2.3/8''] = Some [''10.0.0.0/8''] \<and> resolveCIDRs [''10.0.0.0/8''] = Some [''10.0.0.0/8'']"
proof -
  have r: "resolveCIDRs [''10.1.2.3/8''] = Some [''10.0.0.0/8'']"
    by (simp add: resolveCIDRs_def demoCIDR Masked_def prefixString_def string4_def octetsOf_def showDec.simps char_of_def bit_0)
  with resolveCIDRs_canonical[OF r] show ?thesis by blast
qed

text \<open>
  C10: A client cannot choose its own address.  When the connecting peer is not inside the listener's trusted
  ranges, or the listener trusts nobody and is not declared to sit behind Cloudflare, the client address
  is the peer's own and no request header can change it.
\<close>

theorem clientIP_unspoofable:
  assumes "case cxTrusted r of
      Some p \<Rightarrow> (case ParseAddrPort (rRemoteAddr r) of Some peer \<Rightarrow> \<not> addrInPrefixes peer (tpPrefixes p) | None \<Rightarrow> True)
    | None \<Rightarrow> \<not> cxCloudflare r"
  shows "clientIP (r\<lparr>rHeader := h\<rparr>) = peerString r"
  using assms by (auto simp: clientIP_def policyClientIP_def peerString_def Let_def split: option.splits)

definition demoReq :: ctxReq where
  "demoReq = \<lparr>rMethod = ''GET'', rHost = ''a.io'', rPath = ''/'', rRemoteAddr = ''1.2.3.4:99'', rHeader = emptyHeader,
     cxTrusted = None, cxCloudflare = False, cxListener = []\<rparr>"

theorem clientIP_unspoofable_witness:
  "clientIP (demoReq\<lparr>rHeader := headerSet emptyHeader ''X-Forwarded-For'' ''9.9.9.9''\<rparr>) = peerString demoReq"
  by (rule clientIP_unspoofable) (simp add: demoReq_def)

text \<open>
  Behind a trusted proxy only the last hop counts: whatever earlier values and earlier elements a client
  has put into the forwarded header, the client address is the last element, the one the proxy added.
\<close>

theorem clientIP_last_hop:
  assumes "cxTrusted r = Some p" and "ParseAddrPort (rRemoteAddr r) = Some peer"
    and "addrInPrefixes peer (tpPrefixes p)"
    and "headerValues (rHeader r) (tpHeader p) = vs @ [x @ CHR '','' # hop]"
    and "CHR '','' \<notin> set hop" and "trimSpace hop \<noteq> []"
  shows "clientIP r = trimSpace hop"
  using assms by (simp add: clientIP_def policyClientIP_def Let_def lastElement_append)

definition demoPolicy :: trustedProxyPolicy where
  "demoPolicy = \<lparr>tpPrefixes = [\<lparr>pAddr = V4 0, pBits = 0\<rparr>], tpHeader = ''X-Forwarded-For''\<rparr>"

lemma demoReq_peer:
  "rRemoteAddr r = ''1.2.3.4:99'' \<Longrightarrow> ParseAddrPort (rRemoteAddr r) = Some (V4 16909060)"
proof -
  assume r: "rRemoteAddr r = ''1.2.3.4:99''"
  have "parseIPv4Loop 0 0 [] ''1.2.3.4'' = Some [1, 2, 3, 4]" by (simp add: isDigit_def)
  then have a: "ParseAddr ''1.2.3.4'' = Some (V4 16909060)"
    by (simp add: ParseAddr_def parseIPv4_def octetsVal_def)
  have "cutLastByte ''1.2.3.4:99'' (CHR '':'') = Some (''1.2.3.4'', ''99'')" by (simp add: cutLastByte_def)
  then show ?thesis by (simp add: r ParseAddrPort_def a portOK_def parseDec_def isDigit_def)
qed

lemma demoPolicy_trusts: "addrInPrefixes (V4 n) (tpPrefixes demoPolicy) \<longleftrightarrow> n < 2 ^ 32"
  by (simp add: demoPolicy_def addrInPrefixes_def Contains_def shiftBits_def div_eq_0_iff)

theorem clientIP_last_hop_witness:
  "clientIP (demoReq\<lparr>cxTrusted := Some demoPolicy, rHeader := (\<lambda>_. [''6.6.6.6, 7.7.7.7''])\<rparr>) = trimSpace '' 7.7.7.7''"
proof (rule clientIP_last_hop[where vs = "[]" and x = "''6.6.6.6''"])
  show "ParseAddrPort (rRemoteAddr (demoReq\<lparr>cxTrusted := Some demoPolicy, rHeader := (\<lambda>_. [''6.6.6.6, 7.7.7.7''])\<rparr>))
      = Some (V4 16909060)" by (rule demoReq_peer) (simp add: demoReq_def)
  show "addrInPrefixes (V4 16909060) (tpPrefixes demoPolicy)" by (simp only: demoPolicy_trusts) simp
qed (simp_all add: demoPolicy_trusts headerValues_def trimSpace_def trim_def trimLeft_def trimRight_def spaceChars_def)

text \<open>
  Selecting an address from the forwarded chain counts from the right, so prepending elements to the
  header changes nothing once an address is selected.
\<close>

theorem forwardedSelection_prepend:
  assumes "headerGet h ''X-Forwarded-For'' = x @ CHR '','' # hdr"
    and "headerGet h0 ''X-Forwarded-For'' = hdr"
    and "forwardedSelection p (r\<lparr>rHeader := h0\<rparr>) \<noteq> []"
  shows "forwardedSelection p (r\<lparr>rHeader := h\<rparr>) = forwardedSelection p (r\<lparr>rHeader := h0\<rparr>)"
proof (cases "Depth p > 0")
  case True
  with assms show ?thesis
    by (auto simp: forwardedSelection_def Let_def splitByte_append nth_append split: if_splits)
next
  case False
  with assms show ?thesis
    by (simp add: forwardedSelection_def Let_def splitByte_append firstNotExcluded_append)
qed

theorem forwardedSelection_prepend_witness:
  "forwardedSelection \<lparr>Mode = ''forwarded'', Depth = 1, ExcludedIPs = [], IPv6Subnet = None\<rparr>
     (demoReq\<lparr>rHeader := (\<lambda>_. [''6.6.6.6,7.7.7.7''])\<rparr>) =
   forwardedSelection \<lparr>Mode = ''forwarded'', Depth = 1, ExcludedIPs = [], IPv6Subnet = None\<rparr>
     (demoReq\<lparr>rHeader := (\<lambda>_. [''7.7.7.7''])\<rparr>)"
  by (rule forwardedSelection_prepend[where x = "''6.6.6.6''" and hdr = "''7.7.7.7''"])
     (simp_all add: headerGet_def headerValues_def forwardedSelection_def Let_def trimSpace_def trim_def
       trimLeft_def trimRight_def spaceChars_def)

text \<open>
  C39: The deny list overlooks IPv4-mapped IPv6 addresses: a request whose client address is written in the
  mapped form passes every deny list of IPv4 ranges, even one that contains the mapped IPv4 address,
  while the allow list, which unmaps, would recognise it.
\<close>

theorem denyIPs_mapped_passes:
  assumes "parseClientAddr r = Some (V6 n [])" and "is4In6 n" and "ParsePrefix c = Some p"
    and "BitLen (pAddr p) = 32" and "Contains p (V4 (n mod 2 ^ 32))"
  shows "denyIPsHandler [c] r = PassOn \<and> addrInPrefixes (V6 n []) (mustParsePrefixes [c])"
  using assms
  by (simp add: denyIPsHandler_def ipInList_def mustParsePrefixes_def map_filter_def addrInPrefixes_def Contains_def)

lemma ParseAddr_mapped: "ParseAddr ''::ffff:1.2.3.4'' = Some (V6 281470698652420 [])"
proof -
  have r: "replicate 5 (0 :: nat) = [0, 0, 0, 0, 0]" by (simp add: numeral_eq_Suc)
  have "parseGroups [65535] (Some 0) ''1.2.3.4'' = Some ([65535, 258, 772], Some 0)"
    by (subst parseGroups.simps) (simp add: hexVal_def isDigit_def octetsVal_def)
  then have "parseGroups [] (Some 0) ''ffff:1.2.3.4'' = Some ([65535, 258, 772], Some 0)"
    by (subst parseGroups.simps) (simp add: hexVal_def isDigit_def)
  then show ?thesis
    by (simp add: ParseAddr_def parseIPv6_def hasPrefix_def expandEllipsis_def groupsVal_def r)
qed

theorem denyIPs_mapped_passes_witness:
  "denyIPsHandler [''1.2.3.0/24''] (demoReq\<lparr>cxTrusted := Some demoPolicy, rHeader := (\<lambda>_. [''::ffff:1.2.3.4''])\<rparr>) = PassOn \<and>
   addrInPrefixes (V6 281470698652420 []) (mustParsePrefixes [''1.2.3.0/24''])"
proof (rule denyIPs_mapped_passes[where p = "\<lparr>pAddr = V4 16909056, pBits = 24\<rparr>"])
  let ?r = "demoReq\<lparr>cxTrusted := Some demoPolicy, rHeader := (\<lambda>_. [''::ffff:1.2.3.4''])\<rparr>"
  have "ParseAddrPort (rRemoteAddr ?r) = Some (V4 16909060)" by (rule demoReq_peer) (simp add: demoReq_def)
  then have "clientIP ?r = ''::ffff:1.2.3.4''"
    by (simp add: clientIP_def policyClientIP_def demoPolicy_trusts headerValues_def lastElement_def cutLastByte_def
        trimSpace_def trim_def trimLeft_def trimRight_def spaceChars_def)
  then show "parseClientAddr ?r = Some (V6 281470698652420 [])"
    by (simp add: parseClientAddr_def splitHostPortLast_def ParseAddr_mapped containsByte_def)
  have "parseIPv4Loop 0 0 [] ''1.2.3.0'' = Some [1, 2, 3, 0]" by (simp add: isDigit_def)
  then have a: "ParseAddr ''1.2.3.0'' = Some (V4 16909056)"
    by (simp add: ParseAddr_def parseIPv4_def octetsVal_def)
  have "cutLastByte ''1.2.3.0/24'' (CHR ''/'') = Some (''1.2.3.0'', ''24'')" by (simp add: cutLastByte_def)
  then show "ParsePrefix ''1.2.3.0/24'' = Some \<lparr>pAddr = V4 16909056, pBits = 24\<rparr>"
    by (simp add: ParsePrefix_def a atoi_def parseDec_def isDigit_def PrefixFrom_def)
qed (simp_all add: is4In6_def Contains_def shiftBits_def)

end
