(* ===== verification/Router.thy ===== *)
theory Router
  imports Docker_Match Client_Ip "HOL-Library.Char_ord" "HOL-Library.List_Lexorder" "HOL-Library.Product_Lexorder"
    "HOL-Library.Multiset"
begin

text \<open>
  Route selection: the compiled routes and the dispatcher of \<^verbatim>\<open>src/server.go\<close>, the priority and listener
  selection of \<^verbatim>\<open>src/routing_selection.go\<close>, and the order of the discovered routes of
  \<^verbatim>\<open>src/dockerprovider.go\<close>.  Handlers are the values of a type parameter: the router only hands a
  request to one of them.
\<close>

section \<open>Compiled routes\<close>

record 'h compiledRoute =
  crHandler :: 'h
  crService :: string
  crMatcher :: Matcher
  clientPrefixes :: "Prefix list"
  peerPrefixes :: "Prefix list"

record 'h dynamicTable =
  dtRoutes :: "'h compiledRoute list"
  rejections :: "'h compiledRoute list"
  quarantines :: "'h compiledRoute list"
  tombstones :: "'h compiledRoute list"

definition namedListener :: "string \<Rightarrow> ctxReq \<Rightarrow> ctxReq" where
  "namedListener name r = (if name = [] then r else r\<lparr>cxListener := name\<rparr>)"

definition listenerMatches :: "string list \<Rightarrow> ctxReq \<Rightarrow> bool" where
  "listenerMatches names r = (if names = [] then True else List.member names (cxListener r))"

definition routeMatchesRequest :: "'h compiledRoute \<Rightarrow> string \<Rightarrow> string \<Rightarrow> bool" where
  "routeMatchesRequest c host path = Match (crMatcher c) host path"

text \<open>
  The scan of \<^verbatim>\<open>findCompiledRoute\<close>.  The first argument is the client address once some candidate has
  needed it: it is resolved lazily and at most once.
\<close>

fun findLoop :: "Addr option option \<Rightarrow> 'h compiledRoute list \<Rightarrow> string \<Rightarrow> ctxReq \<Rightarrow> 'h compiledRoute option" where
  "findLoop cached [] host req = None"
| "findLoop cached (c # cs) host req =
     (if \<not> listenerMatches (ListenerNames (crMatcher c)) req \<or> \<not> routeMatchesRequest c host (rPath req)
      then findLoop cached cs host req
      else if \<not> routePeerMatches (peerPrefixes c) req then findLoop cached cs host req
      else if clientPrefixes c \<noteq> [] then
        (let addr = (case cached of Some a \<Rightarrow> a | None \<Rightarrow> parseClientAddr req) in
         case addr of
           None \<Rightarrow> findLoop (Some addr) cs host req
         | Some a \<Rightarrow> if addrInPrefixes a (clientPrefixes c) then Some c else findLoop (Some addr) cs host req)
      else Some c)"

definition findCompiledRoute :: "'h compiledRoute list \<Rightarrow> string \<Rightarrow> ctxReq \<Rightarrow> 'h compiledRoute option" where
  "findCompiledRoute routes host req = findLoop None routes host req"

definition findHandler :: "'h compiledRoute list \<Rightarrow> string \<Rightarrow> ctxReq \<Rightarrow> 'h option" where
  "findHandler routes host req = map_option crHandler (findCompiledRoute routes host req)"

section \<open>The order of discovered routes\<close>

definition dynamicPatternSpecificity :: "Matcher \<Rightarrow> bool \<times> int \<times> int" where
  "dynamicPatternSpecificity m = (case PathKind m of
       PathByte \<Rightarrow> (False, int (length (Path m)), 0)
     | PathSegment \<Rightarrow> (False, int (length (fst (cutSuffix (Path m) ''/*''))), 1)
     | PathAny \<Rightarrow> (False, int (length (fst (cutSuffix (Path m) ''/*''))), 1)
     | PathExact \<Rightarrow> (True, int (length (Path m)), 2))"

definition dynamicHostSpecificity :: "Matcher \<Rightarrow> int" where
  "dynamicHostSpecificity m = (if HostKind m = HostExact then 1 else 0)"

definition compareDynamicSpecificity :: "Matcher \<Rightarrow> Matcher \<Rightarrow> int" where
  "compareDynamicSpecificity a b =
     (if (Host a \<noteq> []) \<noteq> (Host b \<noteq> []) then (if Host a \<noteq> [] then 1 else -1)
      else (case dynamicPatternSpecificity a of (aExact, aLen, aKind) \<Rightarrow>
            case dynamicPatternSpecificity b of (bExact, bLen, bKind) \<Rightarrow>
              if aExact \<noteq> bExact then (if aExact then 1 else -1)
              else if aLen \<noteq> bLen then aLen - bLen
              else if aKind \<noteq> bKind then aKind - bKind
              else dynamicHostSpecificity a - dynamicHostSpecificity b))"

definition dynamicRoutePrecedes :: "'h compiledRoute \<Rightarrow> 'h compiledRoute \<Rightarrow> bool" where
  "dynamicRoutePrecedes aRoute bRoute =
     (let a = crMatcher aRoute; b = crMatcher bRoute; order = compareDynamicSpecificity a b in
      if PriorityOrder a \<and> PriorityOrder b \<and> Priority a \<noteq> Priority b then Priority a > Priority b
      else if order \<noteq> 0 then order > 0
      else if Host a \<noteq> Host b then Host a < Host b
      else if Path a \<noteq> Path b then Path a < Path b
      else crService aRoute < crService bRoute)"

text \<open>
  \<^verbatim>\<open>sort.SliceStable\<close>: each route is put in front of the first later one that does not precede it, so
  that routes the order does not separate keep their positions.
\<close>

fun insertRoute :: "'h compiledRoute \<Rightarrow> 'h compiledRoute list \<Rightarrow> 'h compiledRoute list" where
  "insertRoute r [] = [r]"
| "insertRoute r (x # xs) = (if dynamicRoutePrecedes x r then x # insertRoute r xs else r # x # xs)"

definition sortDynamicRoutes :: "'h compiledRoute list \<Rightarrow> 'h compiledRoute list" where
  "sortDynamicRoutes routes = foldr insertRoute routes []"

definition sameDynamicTraffic :: "Matcher \<Rightarrow> Matcher \<Rightarrow> bool" where
  "sameDynamicTraffic a b \<longleftrightarrow> Host a = Host b \<and> HostKind a = HostKind b \<and> Path a = Path b \<and>
     PathKind a = PathKind b \<and> PeerIPCIDRs a = PeerIPCIDRs b \<and> ListenerNames a = ListenerNames b"

section \<open>Discovered routes and their refusals\<close>

fun findSameServiceDynamicRoute ::
  "'h compiledRoute list \<Rightarrow> string \<Rightarrow> ctxReq \<Rightarrow> 'h compiledRoute \<Rightarrow> 'h compiledRoute option" where
  "findSameServiceDynamicRoute [] host req quarantine = None"
| "findSameServiceDynamicRoute (route # routes) host req quarantine =
     (if crService route \<noteq> crService quarantine \<or> \<not> sameDynamicTraffic (crMatcher route) (crMatcher quarantine)
      then findSameServiceDynamicRoute routes host req quarantine
      else if findCompiledRoute [route] host req \<noteq> None then Some route
      else findSameServiceDynamicRoute routes host req quarantine)"

fun quarantineLoop ::
  "'h compiledRoute list \<Rightarrow> string \<Rightarrow> ctxReq \<Rightarrow> 'h compiledRoute \<Rightarrow> 'h compiledRoute list \<Rightarrow> 'h compiledRoute \<times> bool" where
  "quarantineLoop routes host req route [] = (route, False)"
| "quarantineLoop routes host req route (q # qs) =
     (if findCompiledRoute [q] host req = None then quarantineLoop routes host req route qs
      else if sameDynamicTraffic (crMatcher route) (crMatcher q) then
        (case findSameServiceDynamicRoute routes host req q of
           None \<Rightarrow> (q, True)
         | Some sameService \<Rightarrow> quarantineLoop routes host req sameService qs)
      else if dynamicRoutePrecedes q route then (q, True)
      else (route, False))"

definition findDynamicCandidate ::
  "'h dynamicTable \<Rightarrow> string \<Rightarrow> ctxReq \<Rightarrow> 'h compiledRoute option \<times> bool" where
  "findDynamicCandidate t host req = (case findCompiledRoute (dtRoutes t) host req of
       None \<Rightarrow> (let quarantine = findCompiledRoute (quarantines t) host req in (quarantine, quarantine \<noteq> None))
     | Some route \<Rightarrow> (case quarantineLoop (dtRoutes t) host req route (quarantines t) of
         (r, quarantined) \<Rightarrow> (Some r, quarantined)))"

definition findDynamicHandler :: "'h dynamicTable \<Rightarrow> string \<Rightarrow> ctxReq \<Rightarrow> 'h option" where
  "findDynamicHandler t host req = (case findDynamicCandidate t host req of
       (None, _) \<Rightarrow> (case findCompiledRoute (rejections t) host req of
           Some rejected \<Rightarrow> Some (crHandler rejected)
         | None \<Rightarrow> findHandler (tombstones t) host req)
     | (Some route, quarantined) \<Rightarrow>
         if quarantined then Some (crHandler route)
         else (case findCompiledRoute (rejections t) host req of
             Some rejected \<Rightarrow>
               if compareDynamicSpecificity (crMatcher rejected) (crMatcher route) \<ge> 0
               then Some (crHandler rejected) else Some (crHandler route)
           | None \<Rightarrow> Some (crHandler route)))"

section \<open>Priority selection\<close>

definition outranks :: "'h compiledRoute \<Rightarrow> 'h compiledRoute option \<Rightarrow> bool" where
  "outranks candidate best = (case best of
       None \<Rightarrow> True | Some b \<Rightarrow> Priority (crMatcher candidate) > Priority (crMatcher b))"

fun bestPriorityLoop ::
  "'h compiledRoute option \<Rightarrow> 'h compiledRoute list \<Rightarrow> string \<Rightarrow> ctxReq \<Rightarrow> 'h compiledRoute option" where
  "bestPriorityLoop best [] host r = best"
| "bestPriorityLoop best (c # cs) host r = (case findCompiledRoute [c] host r of
       Some candidate \<Rightarrow>
         bestPriorityLoop (if outranks candidate best then Some candidate else best) cs host r
     | None \<Rightarrow> bestPriorityLoop best cs host r)"

definition bestPriorityRoute :: "'h compiledRoute list \<Rightarrow> string \<Rightarrow> ctxReq \<Rightarrow> 'h compiledRoute option" where
  "bestPriorityRoute routes host r = bestPriorityLoop None routes host r"

fun quarantinedLoop ::
  "'h dynamicTable \<Rightarrow> 'h compiledRoute \<Rightarrow> bool \<Rightarrow> bool \<Rightarrow> 'h compiledRoute list \<Rightarrow> string \<Rightarrow> ctxReq \<Rightarrow> bool" where
  "quarantinedLoop t route matched sameService [] host r = (matched \<and> \<not> sameService)"
| "quarantinedLoop t route matched sameService (q # qs) host r =
     (if findCompiledRoute [q] host r = None \<or> Priority (crMatcher q) < Priority (crMatcher route)
      then quarantinedLoop t route matched sameService qs host r
      else if \<not> sameDynamicTraffic (crMatcher q) (crMatcher route) \<or>
              findSameServiceDynamicRoute (dtRoutes t) host r q = None then True
      else quarantinedLoop t route True (sameService \<or> crService q = crService route) qs host r)"

definition priorityRouteQuarantined :: "'h dynamicTable \<Rightarrow> 'h compiledRoute \<Rightarrow> string \<Rightarrow> ctxReq \<Rightarrow> bool" where
  "priorityRouteQuarantined t route host r = quarantinedLoop t route False False (quarantines t) host r"

fun unquarantinedLoop ::
  "'h dynamicTable \<Rightarrow> 'h compiledRoute option \<Rightarrow> 'h compiledRoute list \<Rightarrow> string \<Rightarrow> ctxReq \<Rightarrow> 'h compiledRoute option" where
  "unquarantinedLoop t best [] host r = best"
| "unquarantinedLoop t best (c # cs) host r = (case findCompiledRoute [c] host r of
       Some candidate \<Rightarrow>
         unquarantinedLoop t
           (if outranks candidate best \<and> \<not> priorityRouteQuarantined t candidate host r then Some candidate else best)
           cs host r
     | None \<Rightarrow> unquarantinedLoop t best cs host r)"

definition bestUnquarantinedPriorityRoute :: "'h dynamicTable \<Rightarrow> string \<Rightarrow> ctxReq \<Rightarrow> 'h compiledRoute option" where
  "bestUnquarantinedPriorityRoute t host r = unquarantinedLoop t None (dtRoutes t) host r"

text \<open>A refusal with at least the priority of the route that would serve: \<open>refuses\<close> is that condition.\<close>

definition refuses :: "'h compiledRoute \<Rightarrow> 'h compiledRoute option \<Rightarrow> bool" where
  "refuses refusal serving = (case serving of
       None \<Rightarrow> True | Some s \<Rightarrow> Priority (crMatcher refusal) \<ge> Priority (crMatcher s))"

definition priorityDynamicRoute :: "'h dynamicTable \<Rightarrow> string \<Rightarrow> ctxReq \<Rightarrow> 'h compiledRoute option" where
  "priorityDynamicRoute t host r =
     (let serving = bestUnquarantinedPriorityRoute t host r;
          rejection = bestPriorityRoute (rejections t) host r;
          quarantine = (if serving = None then bestPriorityRoute (quarantines t) host r else None);
          refusal = bestPriorityRoute (tombstones t) host r
      in if quarantine \<noteq> None then quarantine
         else if rejection \<noteq> None \<and> refuses (the rejection) serving then rejection
         else if refusal \<noteq> None \<and> refuses (the refusal) serving then refusal
         else serving)"

section \<open>The dispatcher\<close>

record 'h router =
  PrioritizeRoutes :: bool
  static :: "'h compiledRoute list"
  dynamic :: "'h dynamicTable option"
  terminal :: "'h compiledRoute list"
  fallback :: 'h

definition selectPriorityRoute :: "'h router \<Rightarrow> string \<Rightarrow> ctxReq \<Rightarrow> 'h compiledRoute option" where
  "selectPriorityRoute s host req =
     (if \<not> PrioritizeRoutes s then None
      else let chosen = bestPriorityRoute (static s) host req in
        case dynamic s of
          None \<Rightarrow> chosen
        | Some table \<Rightarrow> (case priorityDynamicRoute table host req of
            Some candidate \<Rightarrow> if outranks candidate chosen then Some candidate else chosen
          | None \<Rightarrow> chosen))"

definition stripPort :: "string \<Rightarrow> string" where
  "stripPort hostport = (case cutLastByte hostport CHR '':'' of
       Some (before, _) \<Rightarrow> if \<not> containsByte before CHR '']'' then before else hostport
     | None \<Rightarrow> hostport)"

definition dispatch :: "'h router \<Rightarrow> ctxReq \<Rightarrow> 'h" where
  "dispatch s req =
     (let host = stripPort (rHost req) in
      case selectPriorityRoute s host req of
        Some chosen \<Rightarrow> crHandler chosen
      | None \<Rightarrow> (case findHandler (static s) host req of
          Some h \<Rightarrow> h
        | None \<Rightarrow> (case Option.bind (dynamic s) (\<lambda>t. findDynamicHandler t host req) of
            Some h \<Rightarrow> h
          | None \<Rightarrow> (case findHandler (terminal s) host req of
              Some h \<Rightarrow> h
            | None \<Rightarrow> fallback s))))"

definition matchPattern :: "string \<Rightarrow> string \<Rightarrow> bool" where
  "matchPattern pattern path = (case cutSuffix pattern ''/*'' of
       (before, True) \<Rightarrow> if before = [] then True else hasPrefix path (before @ ''/'') \<or> path = before
     | (_, False) \<Rightarrow> pattern = path)"

text \<open>The prefix a static route removes from the path before the file server sees it.\<close>

definition stripPrefix :: "string \<Rightarrow> string option" where
  "stripPrefix pattern = (case cutSuffix pattern ''/*'' of
       (_, False) \<Rightarrow> None
     | (before, True) \<Rightarrow> (let before = trimSuffix before ''/'' in if before = [] then None else Some before))"

record routeSpec =
  rsHost :: string
  Pattern :: string
  PathMatch :: string
  rsPriority :: int
  Listeners :: "string list"

definition compileRouteMatcher :: "routeSpec \<Rightarrow> bool \<Rightarrow> Matcher" where
  "compileRouteMatcher r prioritized =
     (let m = CompileNative (rsHost r) (Pattern r);
          m = (if PathMatch r = ''exact'' then m\<lparr>PathKind := PathExact\<rparr>
               else if PathMatch r = ''byte_prefix'' then m\<lparr>PathKind := PathByte\<rparr> else m)
      in m\<lparr>Priority := rsPriority r, PriorityOrder := prioritized, ListenerNames := Listeners r\<rparr>)"

section \<open>Listener names\<close>

text \<open>
  A middleware of a chain, as far as listener names go: the listeners it is limited to and, for a
  group, its children.
\<close>

datatype mwNames = MwNames "string list" "mwNames list"

record listenerCfg =
  lcListeners :: "string list"
  lcRoutes :: "(string list \<times> mwNames list) list"
  lcDocker :: "(mwNames list \<times> (string \<times> mwNames list) list) option"

fun validateMiddlewareListenerNames :: "mwNames \<Rightarrow> string list \<Rightarrow> bool" where
  "validateMiddlewareListenerNames (MwNames used children) names =
     (if \<exists>n\<in>set used. n \<notin> set names then False
      else list_all (\<lambda>m. validateMiddlewareListenerNames m names) children)"

definition validateDockerMiddlewareListenerNames ::
  "(mwNames list \<times> (string \<times> mwNames list) list) option \<Rightarrow> string list \<Rightarrow> bool" where
  "validateDockerMiddlewareListenerNames cfg names = (case cfg of
       None \<Rightarrow> True
     | Some (dflt, named) \<Rightarrow>
         list_all (\<lambda>m. validateMiddlewareListenerNames m names) dflt \<and>
         list_all (\<lambda>(_, chain). list_all (\<lambda>m. validateMiddlewareListenerNames m names) chain) named)"

fun collectNames :: "string list \<Rightarrow> string list \<Rightarrow> string list option" where
  "collectNames names [] = Some names"
| "collectNames names (n # ns) =
     (if n = [] then collectNames names ns
      else if List.member names n then None
      else collectNames (n # names) ns)"

definition validateListenerNames :: "listenerCfg \<Rightarrow> bool" where
  "validateListenerNames cfg = (case collectNames [] (lcListeners cfg) of
       None \<Rightarrow> False
     | Some names \<Rightarrow>
         list_all (\<lambda>(listeners, middleware).
           list_all (\<lambda>m. validateMiddlewareListenerNames m names) middleware \<and>
           list_all (\<lambda>n. List.member names n) listeners) (lcRoutes cfg) \<and>
         validateDockerMiddlewareListenerNames (lcDocker cfg) names)"

section \<open>What a scan finds\<close>

definition routeAdmits :: "string \<Rightarrow> ctxReq \<Rightarrow> 'h compiledRoute \<Rightarrow> bool" where
  "routeAdmits host req c \<longleftrightarrow> listenerMatches (ListenerNames (crMatcher c)) req \<and>
     Match (crMatcher c) host (rPath req) \<and> routePeerMatches (peerPrefixes c) req \<and>
     (clientPrefixes c \<noteq> [] \<longrightarrow>
        (case parseClientAddr req of None \<Rightarrow> False | Some a \<Rightarrow> addrInPrefixes a (clientPrefixes c)))"

lemma findLoop_find:
  "cached = None \<or> cached = Some (parseClientAddr req) \<Longrightarrow>
   findLoop cached rs host req = find (routeAdmits host req) rs"
proof (induction rs arbitrary: cached)
  case (Cons c rs)
  have a: "(case cached of Some a \<Rightarrow> a | None \<Rightarrow> parseClientAddr req) = parseClientAddr req"
    using Cons.prems by auto
  show ?case
    using Cons.IH[OF Cons.prems] Cons.IH[of "Some (parseClientAddr req)"]
    by (cases "parseClientAddr req") (simp_all add: a routeAdmits_def[of host req c] routeMatchesRequest_def)
qed simp

lemma findCompiledRoute_find: "findCompiledRoute rs host req = find (routeAdmits host req) rs"
  by (simp add: findCompiledRoute_def findLoop_find)

lemma findCompiledRoute_single [simp]: "findCompiledRoute [c] host req = (if routeAdmits host req c then Some c else None)"
  by (simp add: findCompiledRoute_find)

lemma find_SomeD: "find P xs = Some x \<Longrightarrow> x \<in> set xs \<and> P x"
  by (auto simp: find_Some_iff)

lemma findSameService_find:
  "findSameServiceDynamicRoute rs host req q = find (\<lambda>r. crService r = crService q \<and>
     sameDynamicTraffic (crMatcher r) (crMatcher q) \<and> routeAdmits host req r) rs"
  by (induction rs) auto

lemma sameDynamicTraffic_equiv:
  "sameDynamicTraffic a a" "sameDynamicTraffic a b \<Longrightarrow> sameDynamicTraffic b a"
  "sameDynamicTraffic a b \<Longrightarrow> sameDynamicTraffic b c \<Longrightarrow> sameDynamicTraffic a c"
  by (auto simp: sameDynamicTraffic_def)

section \<open>The order is a linear preorder\<close>

text \<open>
  The comparison cascade of \<^const>\<open>dynamicRoutePrecedes\<close> is the lexicographic order of a key, on any set of
  routes that agree on whether priorities count.
\<close>

definition specKey :: "Matcher \<Rightarrow> bool \<times> bool \<times> int \<times> int \<times> int" where
  "specKey m = (case dynamicPatternSpecificity m of (ex, len, kind) \<Rightarrow>
     (Host m = [], \<not> ex, - len, - kind, - dynamicHostSpecificity m))"

lemma compare_zero: "compareDynamicSpecificity a b = 0 \<longleftrightarrow> specKey a = specKey b"
  by (auto simp: compareDynamicSpecificity_def specKey_def split: prod.splits)

lemma compare_pos: "compareDynamicSpecificity a b > 0 \<longleftrightarrow> specKey a < specKey b"
proof -
  obtain ea la ka where a: "dynamicPatternSpecificity a = (ea, la, ka)" by (cases "dynamicPatternSpecificity a")
  obtain eb lb kb where b: "dynamicPatternSpecificity b = (eb, lb, kb)" by (cases "dynamicPatternSpecificity b")
  show ?thesis
    by (cases "Host a = []"; cases "Host b = []"; cases ea; cases eb; cases "la = lb"; cases "ka = kb")
       (auto simp: compareDynamicSpecificity_def specKey_def a b less_prod_def)
qed

definition routeKey :: "'h compiledRoute \<Rightarrow> int \<times> (bool \<times> bool \<times> int \<times> int \<times> int) \<times> string \<times> string \<times> string" where
  "routeKey c = (let m = crMatcher c in
     (if PriorityOrder m then - Priority m else 0, specKey m, Host m, Path m, crService c))"


lemma lex4:
  fixes k k' :: "'a :: linorder" and h h' :: "'b :: linorder" and p p' :: "'c :: linorder" and s s' :: "'d :: linorder"
  shows "(k, h, p, s) < (k', h', p', s') \<longleftrightarrow>
    (if k \<noteq> k' then k < k' else if h \<noteq> h' then h < h' else if p \<noteq> p' then p < p' else s < s')"
  by (auto simp: less_prod_def)

lemma precedes_key:
  assumes "PriorityOrder (crMatcher a) = PriorityOrder (crMatcher b)"
  shows "dynamicRoutePrecedes a b \<longleftrightarrow> routeKey a < routeKey b"
proof -
  let ?a = "crMatcher a" and ?b = "crMatcher b"
  consider "PriorityOrder ?a" "Priority ?a \<noteq> Priority ?b" | "\<not> PriorityOrder ?a \<or> Priority ?a = Priority ?b" by blast
  then show ?thesis
  proof cases
    case 1
    with assms show ?thesis by (auto simp: dynamicRoutePrecedes_def routeKey_def Let_def less_prod_def)
  next
    case 2
    then have "routeKey a < routeKey b \<longleftrightarrow>
        (specKey ?a, Host ?a, Path ?a, crService a) < (specKey ?b, Host ?b, Path ?b, crService b)"
      using assms by (auto simp: routeKey_def Let_def)
    moreover have "dynamicRoutePrecedes a b \<longleftrightarrow>
        (if specKey ?a \<noteq> specKey ?b then specKey ?a < specKey ?b else if Host ?a \<noteq> Host ?b then Host ?a < Host ?b
         else if Path ?a \<noteq> Path ?b then Path ?a < Path ?b else crService a < crService b)"
      using 2 assms by (auto simp: dynamicRoutePrecedes_def Let_def compare_zero compare_pos)
    ultimately show ?thesis by (simp only: lex4)
  qed
qed

definition uniform :: "bool \<Rightarrow> 'h compiledRoute list \<Rightarrow> bool" where
  "uniform po rs \<longleftrightarrow> list_all (\<lambda>c. PriorityOrder (crMatcher c) = po) rs"

lemma insertRoute_insort:
  "PriorityOrder (crMatcher r) = po \<Longrightarrow> uniform po xs \<Longrightarrow> insertRoute r xs = insort_key routeKey r xs"
proof (induction xs)
  case (Cons x xs)
  then have "dynamicRoutePrecedes x r \<longleftrightarrow> routeKey x < routeKey r" by (intro precedes_key) (simp add: uniform_def)
  with Cons show ?case by (auto simp: uniform_def)
qed simp

lemma sortDynamicRoutes_sort: "uniform po rs \<Longrightarrow> sortDynamicRoutes rs = sort_key routeKey rs"
proof (induction rs)
  case (Cons r rs)
  have "uniform po (sort_key routeKey rs)" using Cons.prems by (auto simp: uniform_def list_all_iff)
  with Cons show ?case
    using insertRoute_insort[of r po "sort_key routeKey rs"] by (auto simp: sortDynamicRoutes_def uniform_def)
qed (simp add: sortDynamicRoutes_def)

lemma set_insertRoute [simp]: "set (insertRoute r xs) = insert r (set xs)"
  by (induction xs) auto

lemma set_sortDynamicRoutes [simp]: "set (sortDynamicRoutes rs) = set rs"
  by (induction rs) (auto simp: sortDynamicRoutes_def)

lemma sorted_find_least:
  assumes "sorted (map f xs)" and "find P xs = Some x" and "y \<in> set xs" and "P y"
  shows "f x \<le> f y"
  using assms by (induction xs) (auto split: if_splits)

abbreviation prio :: "'h compiledRoute \<Rightarrow> int" where
  "prio c \<equiv> Priority (crMatcher c)"

lemma bestPriorityLoop_Some:
  assumes "bestPriorityLoop best rs host r = Some b"
  shows "(best = Some b \<or> b \<in> set rs \<and> routeAdmits host r b) \<and>
    (\<forall>c\<in>set rs. routeAdmits host r c \<longrightarrow> prio c \<le> prio b) \<and> (\<forall>b0. best = Some b0 \<longrightarrow> prio b0 \<le> prio b)"
  using assms
proof (induction rs arbitrary: best)
  case (Cons c rs)
  let ?best = "if routeAdmits host r c \<and> outranks c best then Some c else best"
  have "bestPriorityLoop ?best rs host r = Some b" using Cons.prems by (simp split: if_splits)
  from Cons.IH[OF this] show ?case
    by (cases "routeAdmits host r c \<and> outranks c best") (auto simp: outranks_def split: option.splits)
qed simp

lemma bestPriorityLoop_None:
  "bestPriorityLoop best rs host r = None \<longleftrightarrow> best = None \<and> (\<forall>c\<in>set rs. \<not> routeAdmits host r c)"
  by (induction rs arbitrary: best) (auto simp: outranks_def)

lemma bestPriorityRoute_Some:
  assumes "bestPriorityRoute rs host r = Some b"
  shows "b \<in> set rs" "routeAdmits host r b" "\<And>c. c \<in> set rs \<Longrightarrow> routeAdmits host r c \<Longrightarrow> prio c \<le> prio b"
  using bestPriorityLoop_Some[OF assms[unfolded bestPriorityRoute_def]] by auto

lemma bestPriorityRoute_None:
  "bestPriorityRoute rs host r = None \<longleftrightarrow> (\<forall>c\<in>set rs. \<not> routeAdmits host r c)"
  by (simp add: bestPriorityRoute_def bestPriorityLoop_None)

text \<open>
  A discovered route stands clear of the quarantines when every admitting quarantine of at least its priority
  covers the same traffic and has a serving route of its own service, and, if there is any, one of them belongs
  to the route's service.
\<close>

definition standsClear :: "'h dynamicTable \<Rightarrow> string \<Rightarrow> ctxReq \<Rightarrow> 'h compiledRoute \<Rightarrow> bool" where
  "standsClear t host r c \<longleftrightarrow>
     (\<forall>q\<in>set (quarantines t). routeAdmits host r q \<and> prio c \<le> prio q \<longrightarrow>
        sameDynamicTraffic (crMatcher q) (crMatcher c) \<and>
        (\<exists>d\<in>set (dtRoutes t). crService d = crService q \<and> sameDynamicTraffic (crMatcher d) (crMatcher q) \<and>
           routeAdmits host r d)) \<and>
     ((\<exists>q\<in>set (quarantines t). routeAdmits host r q \<and> prio c \<le> prio q) \<longrightarrow>
      (\<exists>q\<in>set (quarantines t). routeAdmits host r q \<and> prio c \<le> prio q \<and> crService q = crService c))"

lemma findSameService_None:
  "findSameServiceDynamicRoute rs host r q = None \<longleftrightarrow>
     \<not> (\<exists>d\<in>set rs. crService d = crService q \<and> sameDynamicTraffic (crMatcher d) (crMatcher q) \<and> routeAdmits host r d)"
  by (induction rs) auto

lemma quarantinedLoop_iff:
  "quarantinedLoop t c m s qs host r \<longleftrightarrow>
     (\<exists>q\<in>set qs. routeAdmits host r q \<and> prio c \<le> prio q \<and>
        (\<not> sameDynamicTraffic (crMatcher q) (crMatcher c) \<or> findSameServiceDynamicRoute (dtRoutes t) host r q = None)) \<or>
     ((m \<or> (\<exists>q\<in>set qs. routeAdmits host r q \<and> prio c \<le> prio q)) \<and>
      \<not> (s \<or> (\<exists>q\<in>set qs. routeAdmits host r q \<and> prio c \<le> prio q \<and> crService q = crService c)))"
  by (induction qs arbitrary: m s) (auto simp: not_less)

lemma priorityRouteQuarantined_iff: "priorityRouteQuarantined t c host r \<longleftrightarrow> \<not> standsClear t host r c"
  unfolding priorityRouteQuarantined_def quarantinedLoop_iff standsClear_def findSameService_None by blast

lemma unquarantinedLoop_Some:
  assumes "unquarantinedLoop t best rs host r = Some b"
  shows "(best = Some b \<or> standsClear t host r b) \<and>
    (\<forall>c\<in>set rs. routeAdmits host r c \<longrightarrow> standsClear t host r c \<longrightarrow> prio c \<le> prio b) \<and>
    (\<forall>b0. best = Some b0 \<longrightarrow> prio b0 \<le> prio b)"
  using assms
proof (induction rs arbitrary: best)
  case (Cons c rs)
  let ?best = "if routeAdmits host r c \<and> outranks c best \<and> standsClear t host r c then Some c else best"
  have "unquarantinedLoop t ?best rs host r = Some b"
    using Cons.prems by (auto simp: priorityRouteQuarantined_iff split: if_splits)
  from Cons.IH[OF this] show ?case
    by (cases "routeAdmits host r c \<and> outranks c best \<and> standsClear t host r c") (auto simp: outranks_def split: option.splits)
qed simp

lemma unquarantinedLoop_None:
  "unquarantinedLoop t best rs host r = None \<longleftrightarrow>
     best = None \<and> (\<forall>c\<in>set rs. routeAdmits host r c \<longrightarrow> \<not> standsClear t host r c)"
  by (induction rs arbitrary: best) (auto simp: outranks_def priorityRouteQuarantined_iff)

lemma unquarantinedLoop_mem:
  "unquarantinedLoop t best rs host r = Some b \<Longrightarrow> best = Some b \<or> b \<in> set rs \<and> routeAdmits host r b"
proof (induction rs arbitrary: best)
  case (Cons c rs)
  let ?best = "if routeAdmits host r c \<and> outranks c best \<and> \<not> priorityRouteQuarantined t c host r then Some c else best"
  have "unquarantinedLoop t ?best rs host r = Some b" using Cons.prems by (auto split: if_splits)
  from Cons.IH[OF this] show ?case by (auto split: if_splits)
qed simp

text \<open>Every route of a discovered table, refusals included.\<close>

definition tableRoutes :: "'h dynamicTable \<Rightarrow> 'h compiledRoute list" where
  "tableRoutes t = dtRoutes t @ rejections t @ quarantines t @ tombstones t"

lemma priorityDynamicRoute_mem:
  assumes "priorityDynamicRoute t host r = Some c"
  shows "c \<in> set (tableRoutes t) \<and> routeAdmits host r c"
proof -
  have "bestUnquarantinedPriorityRoute t host r = Some c \<or> bestPriorityRoute (rejections t) host r = Some c \<or>
      bestPriorityRoute (quarantines t) host r = Some c \<or> bestPriorityRoute (tombstones t) host r = Some c"
    using assms by (auto simp: priorityDynamicRoute_def Let_def split: if_splits)
  then show ?thesis
    using unquarantinedLoop_mem[of t None "dtRoutes t" host r c] bestPriorityRoute_Some(1,2)[of _ host r c]
    by (auto simp: bestUnquarantinedPriorityRoute_def tableRoutes_def)
qed

text \<open>Whatever is selected from the table ranks at least as high as every discovered route that stands clear.\<close>

lemma priorityDynamicRoute_highest:
  assumes "c \<in> set (dtRoutes t)" and "routeAdmits host req c" and "standsClear t host req c"
  shows "\<exists>r. priorityDynamicRoute t host req = Some r \<and> prio c \<le> prio r"
proof -
  let ?srv = "bestUnquarantinedPriorityRoute t host req"
  obtain b where b: "?srv = Some b"
    using assms unquarantinedLoop_None[of t None "dtRoutes t" host req]
    by (cases ?srv) (auto simp: bestUnquarantinedPriorityRoute_def)
  then have "prio c \<le> prio b"
    using assms unquarantinedLoop_Some[of t None "dtRoutes t" host req b] by (simp add: bestUnquarantinedPriorityRoute_def)
  then show ?thesis using b by (auto simp: priorityDynamicRoute_def Let_def refuses_def)
qed

lemma priorityDynamicRoute_outranks:
  assumes "priorityDynamicRoute t host req = Some r"
  shows "r \<in> set (rejections t) \<or> r \<in> set (quarantines t) \<or> r \<in> set (tombstones t) \<or>
    (r \<in> set (dtRoutes t) \<and> standsClear t host req r \<and> (\<forall>c\<in>set (rejections t) \<union> set (tombstones t). routeAdmits host req c \<longrightarrow> prio c < prio r))"
proof (rule ccontr)
  let ?rej = "bestPriorityRoute (rejections t) host req" and ?tomb = "bestPriorityRoute (tombstones t) host req"
  assume neg: "\<not> ?thesis"
  then have "?rej \<noteq> Some r" "?tomb \<noteq> Some r" "bestPriorityRoute (quarantines t) host req \<noteq> Some r"
    using bestPriorityRoute_Some(1)[of _ host req r] by blast+
  then have srv: "bestUnquarantinedPriorityRoute t host req = Some r"
    and ref: "\<not> (?rej \<noteq> None \<and> refuses (the ?rej) (Some r))" "\<not> (?tomb \<noteq> None \<and> refuses (the ?tomb) (Some r))"
    using assms by (auto simp: priorityDynamicRoute_def Let_def split: if_splits)
  have low: "prio c < prio r" if c: "c \<in> set xs" "routeAdmits host req c"
      "\<not> (bestPriorityRoute xs host req \<noteq> None \<and> refuses (the (bestPriorityRoute xs host req)) (Some r))" for c xs
  proof -
    obtain b where b: "bestPriorityRoute xs host req = Some b"
      using bestPriorityRoute_None[of xs host req] c(1,2) by (cases "bestPriorityRoute xs host req") auto
    with c(3) have "prio b < prio r" by (simp add: refuses_def)
    then show ?thesis using bestPriorityRoute_Some(3)[OF b c(1,2)] by simp
  qed
  have "r \<in> set (dtRoutes t)" "standsClear t host req r"
    using srv unquarantinedLoop_mem[of t None "dtRoutes t" host req r] unquarantinedLoop_Some[of t None "dtRoutes t" host req r]
    by (simp_all add: bestUnquarantinedPriorityRoute_def)
  with neg low ref show False by blast
qed

lemma quarantineLoop_mem:
  assumes "quarantineLoop rs host req route qs = (r, b)" and "route \<in> set rs" and "routeAdmits host req route"
  shows "routeAdmits host req r \<and> (if b then r \<in> set qs else r \<in> set rs)"
  using assms
proof (induction qs arbitrary: route)
  case (Cons q qs)
  show ?case
  proof (cases "routeAdmits host req q \<and> sameDynamicTraffic (crMatcher route) (crMatcher q)")
    case True
    show ?thesis
    proof (cases "findSameServiceDynamicRoute rs host req q")
      case None
      with True Cons.prems show ?thesis by auto
    next
      case (Some s)
      then have "s \<in> set rs" "routeAdmits host req s"
        unfolding findSameService_find by (auto dest: find_SomeD)
      with Some True Cons.prems Cons.IH[of s] show ?thesis by auto
    qed
  next
    case False
    with Cons.prems Cons.IH[of route] show ?thesis by (auto split: if_splits)
  qed
qed simp

lemma findDynamicCandidate_cases:
  assumes "findDynamicCandidate t host req = (c, b)"
  shows "case c of
      None \<Rightarrow> \<not> b \<and> (\<forall>x\<in>set (dtRoutes t) \<union> set (quarantines t). \<not> routeAdmits host req x)
    | Some r \<Rightarrow> routeAdmits host req r \<and> (if b then r \<in> set (quarantines t) else r \<in> set (dtRoutes t))"
proof (cases "find (routeAdmits host req) (dtRoutes t)")
  case None
  then show ?thesis
    using assms by (auto simp: findDynamicCandidate_def findCompiledRoute_find find_None_iff Let_def split: option.splits
        dest: find_SomeD)
next
  case (Some route)
  obtain r b' where q: "quarantineLoop (dtRoutes t) host req route (quarantines t) = (r, b')" by fastforce
  from quarantineLoop_mem[OF q] find_SomeD[OF Some] Some q assms show ?thesis
    by (auto simp: findDynamicCandidate_def findCompiledRoute_find)
qed

lemma findDynamicHandler_table:
  assumes "c \<in> set (tableRoutes t)" and "routeAdmits host req c"
  shows "\<exists>d\<in>set (tableRoutes t). routeAdmits host req d \<and> findDynamicHandler t host req = Some (crHandler d)"
proof -
  obtain cand b where cb: "findDynamicCandidate t host req = (cand, b)" by fastforce
  note cases = findDynamicCandidate_cases[OF cb]
  show ?thesis
  proof (cases cand)
    case None
    then have "c \<in> set (rejections t) \<union> set (tombstones t)" using cases assms by (auto simp: tableRoutes_def)
    then obtain d where d: "find (routeAdmits host req) (rejections t) = Some d \<or>
        find (routeAdmits host req) (rejections t) = None \<and> find (routeAdmits host req) (tombstones t) = Some d"
      using assms(2) by (metis Un_iff find_None_iff not_None_eq)
    then have "findDynamicHandler t host req = Some (crHandler d)"
      using cb None by (auto simp: findDynamicHandler_def findHandler_def findCompiledRoute_find)
    moreover have "d \<in> set (tableRoutes t) \<and> routeAdmits host req d"
      using d by (auto simp: tableRoutes_def dest: find_SomeD)
    ultimately show ?thesis by blast
  next
    case (Some r)
    then have r: "r \<in> set (tableRoutes t)" "routeAdmits host req r"
      using cases by (auto simp: tableRoutes_def split: if_splits)
    then show ?thesis
      using cb Some by (auto simp: findDynamicHandler_def findCompiledRoute_find tableRoutes_def
          split: option.splits dest!: find_SomeD)
  qed
qed

section \<open>Containment and specificity\<close>

text \<open>
  The matchers a discovered table holds: well formed, with the host field empty exactly when any host
  matches and no path operand but the wildcard on a matcher of every path.
\<close>

definition dynMatcher :: "Matcher \<Rightarrow> bool" where
  "dynMatcher m \<longleftrightarrow> wfMatcher m \<and> (HostKind m = HostAny \<longrightarrow> Host m = []) \<and>
     (PathKind m = PathAny \<longrightarrow> Path m = [] \<or> Path m = ''/*'')"

lemma any_len: "dynMatcher m \<Longrightarrow> PathKind m = PathAny \<Longrightarrow> dynamicPatternSpecificity m = (False, 0, 1)"
  by (auto simp: dynMatcher_def dynamicPatternSpecificity_def cutSuffix_def)

lemma seg_len:
  assumes "dynMatcher m" and "PathKind m = PathSegment"
  obtains b where "Path m = b @ ''/*''" "b \<noteq> []" "dynamicPatternSpecificity m = (False, int (length b), 1)"
proof -
  obtain b where "Path m = b @ ''/*''" "b \<noteq> []" using assms by (auto simp: dynMatcher_def elim: wf_segment)
  with assms that show thesis by (simp add: dynamicPatternSpecificity_def)
qed

lemma byte_len:
  assumes "dynMatcher m" and "PathKind m = PathByte"
  shows "dynamicPatternSpecificity m = (False, int (length (Path m)), 0)" "Path m \<noteq> []"
  using assms by (auto simp: dynamicPatternSpecificity_def dynMatcher_def wfMatcher_def rooted_def)

text \<open>A path matcher below another is at least as specific, and as specific only when they match the same paths.\<close>

definition pathAtLeast :: "Matcher \<Rightarrow> Matcher \<Rightarrow> bool" where
  "pathAtLeast a b = (case dynamicPatternSpecificity a of (ea, la, ka) \<Rightarrow>
     case dynamicPatternSpecificity b of (eb, lb, kb) \<Rightarrow>
       (ea \<and> \<not> eb) \<or> (ea = eb \<and> (la > lb \<or> la = lb \<and> (ka > kb \<or> ka = kb \<and> (\<forall>p. matchPath a p = matchPath b p)))))"

lemma exact_atLeast: "PathKind a = PathExact \<Longrightarrow> PathKind b \<noteq> PathExact \<Longrightarrow> pathAtLeast a b"
  by (cases "PathKind b") (auto simp: pathAtLeast_def dynamicPatternSpecificity_def)

lemma any_atLeast:
  assumes "dynMatcher a" and "dynMatcher b" and "PathKind b = PathAny"
  shows "pathAtLeast a b"
proof (cases "PathKind a")
  case PathAny
  then show ?thesis using any_len[OF assms(1)] any_len[OF assms(2,3)] assms(3) by (simp add: pathAtLeast_def matchPath_def)
next
  case PathSegment
  obtain c where c: "Path a = c @ ''/*''" "c \<noteq> []" "dynamicPatternSpecificity a = (False, int (length c), 1)"
    by (rule seg_len[OF assms(1) PathSegment])
  show ?thesis using c(2) by (simp add: pathAtLeast_def any_len[OF assms(2,3)] c(3))
next
  case PathByte
  from byte_len[OF assms(1) this] show ?thesis by (simp add: pathAtLeast_def any_len[OF assms(2,3)])
qed (use assms(3) in \<open>simp add: exact_atLeast\<close>)

lemma segment_atLeast:
  assumes "segmentCovers a (Path b)" and "\<not> anyPath a" and "dynMatcher a" and "dynMatcher b" and "PathKind b = PathSegment"
  shows "pathAtLeast a b"
proof -
  obtain c where c: "Path b = c @ ''/*''" "c \<noteq> []" "dynamicPatternSpecificity b = (False, int (length c), 1)"
    by (rule seg_len[OF assms(4,5)])
  show ?thesis
  proof (cases "PathKind a")
    case PathSegment
    obtain d where d: "Path a = d @ ''/*''" "d \<noteq> []" "dynamicPatternSpecificity a = (False, int (length d), 1)"
      by (rule seg_len[OF assms(3) PathSegment])
    with assms(1) c(1,2) PathSegment have "d = c \<or> hasPrefix d (c @ ''/'')" by (simp add: segmentCovers_def)
    then show ?thesis
      using c d assms(5) PathSegment by (auto simp: pathAtLeast_def matchPath_def dest!: hasPrefix_length)
  next
    case PathByte
    with assms(1) c(1,2) have "hasPrefix (Path a) (c @ ''/'')" by (simp add: segmentCovers_def)
    with byte_len[OF assms(3) PathByte] c(3) show ?thesis by (auto simp: pathAtLeast_def dest!: hasPrefix_length)
  qed (use assms(2,5) in \<open>simp_all add: anyPath_def exact_atLeast\<close>)
qed

lemma byte_atLeast:
  assumes "bytePrefixCovers a (Path b)" and "\<not> anyPath a" and "dynMatcher a" and "dynMatcher b" and "PathKind b = PathByte"
    and "Path b \<noteq> ''/''"
  shows "pathAtLeast a b"
proof (cases "PathKind a")
  case PathSegment
  obtain d where d: "Path a = d @ ''/*''" "d \<noteq> []" "dynamicPatternSpecificity a = (False, int (length d), 1)"
    by (rule seg_len[OF assms(3) PathSegment])
  with assms(1,6) PathSegment have "hasPrefix d (Path b)" by (simp add: bytePrefixCovers_def)
  then show ?thesis using byte_len(1)[OF assms(4,5)] d(3) by (auto simp: pathAtLeast_def dest!: hasPrefix_length)
next
  case PathByte
  with assms(1,6) have "hasPrefix (Path a) (Path b)" by (simp add: bytePrefixCovers_def)
  then obtain t where t: "Path a = Path b @ t" by (auto simp: hasPrefix_iff)
  have "matchPath a p = matchPath b p" if "t = []" for p
    using that t PathByte assms(5) by (simp add: matchPath_def)
  with t show ?thesis
    by (cases "t = []") (auto simp: pathAtLeast_def byte_len(1)[OF assms(4,5)] byte_len(1)[OF assms(3) PathByte])
qed (use assms(2,5) in \<open>simp_all add: anyPath_def exact_atLeast\<close>)

lemma path_specificity:
  assumes "pathMatcherLE a b" and "dynMatcher a" and "dynMatcher b" and "\<not> (PathKind b = PathByte \<and> Path b = ''/'')"
  shows "pathAtLeast a b"
proof (cases "PathKind b")
  case PathExact
  with assms(1) have "PathKind a = PathExact" "Path a = Path b"
    by (auto simp: pathMatcherLE_def anyPath_def split: if_splits)
  with PathExact show ?thesis by (simp add: pathAtLeast_def dynamicPatternSpecificity_def matchPath_def)
next
  case PathSegment
  then show ?thesis
    using assms(1-3) by (intro segment_atLeast) (auto simp: pathMatcherLE_def anyPath_def split: if_splits)
next
  case PathByte
  then show ?thesis
    using assms by (intro byte_atLeast) (auto simp: pathMatcherLE_def anyPath_def split: if_splits)
qed (use assms in \<open>simp add: any_atLeast\<close>)

lemma host_specificity:
  assumes "hostMatcherLE a b" and "dynMatcher a" and "dynMatcher b"
  shows "Host b \<noteq> [] \<Longrightarrow> Host a \<noteq> []" and "(Host a \<noteq> []) = (Host b \<noteq> []) \<Longrightarrow> dynamicHostSpecificity b \<le> dynamicHostSpecificity a"
  using assms
  by (auto simp: hostMatcherLE_def anyHost_def dynMatcher_def wfMatcher_def dynamicHostSpecificity_def
      split: if_splits HostKind.splits)

lemma containment_specificity:
  assumes "matcherLE a b" and "dynMatcher a" and "dynMatcher b" and "\<not> (PathKind b = PathByte \<and> Path b = ''/'')"
  shows "compareDynamicSpecificity a b \<ge> 0" and "compareDynamicSpecificity a b = 0 \<Longrightarrow> matchPath a p = matchPath b p"
proof -
  obtain ea la ka where a: "dynamicPatternSpecificity a = (ea, la, ka)" by (cases "dynamicPatternSpecificity a")
  obtain eb lb kb where b: "dynamicPatternSpecificity b = (eb, lb, kb)" by (cases "dynamicPatternSpecificity b")
  have "pathAtLeast a b" using assms by (intro path_specificity) (auto simp: matcherLE_def)
  then have p: "(ea \<and> \<not> eb) \<or> (ea = eb \<and> (la > lb \<or> la = lb \<and> (ka > kb \<or> ka = kb \<and> (\<forall>p. matchPath a p = matchPath b p))))"
    by (simp add: pathAtLeast_def a b)
  have h: "hostMatcherLE a b" using assms(1) by (simp add: matcherLE_def)
  note hs = host_specificity[OF h assms(2,3)]
  show "compareDynamicSpecificity a b \<ge> 0"
    using p hs by (auto simp: compareDynamicSpecificity_def a b)
  show "matchPath a p = matchPath b p" if "compareDynamicSpecificity a b = 0"
    using p that by (auto simp: compareDynamicSpecificity_def a b split: if_splits)
qed

lemma dispatch_table:
  assumes "dynamic s = Some t" and "c \<in> set (tableRoutes t)" and "routeAdmits (stripPort (rHost req)) req c"
  shows "\<exists>d\<in>set (static s) \<union> set (tableRoutes t).
    routeAdmits (stripPort (rHost req)) req d \<and> dispatch s req = crHandler d"
proof -
  let ?h = "stripPort (rHost req)"
  have prio: "d \<in> set (static s) \<union> set (tableRoutes t) \<and> routeAdmits ?h req d" if "selectPriorityRoute s ?h req = Some d" for d
    using that assms(1) bestPriorityRoute_Some(1,2)[of "static s" ?h req d] priorityDynamicRoute_mem[of t ?h req d]
    by (auto simp: selectPriorityRoute_def Let_def split: if_splits option.splits)
  obtain d where "d \<in> set (tableRoutes t)" "routeAdmits ?h req d" "findDynamicHandler t ?h req = Some (crHandler d)"
    using findDynamicHandler_table[OF assms(2,3)] by blast
  then show ?thesis
    using prio assms(1) find_SomeD[of "routeAdmits ?h req" "static s"]
    by (auto simp: dispatch_def findHandler_def findCompiledRoute_find Let_def split: option.splits)
qed

section \<open>Properties\<close>

text \<open>
  C3: Discarded registrations never reach operator code.  Whenever any entry of the discovered table admits a
  request, be it a serving route, a rejected predicate, a quarantined one or the tombstone of a
  discarded registration, the request is answered by a static route or by such an entry that admits it: neither the native
  fallback routes nor the fallback handler see it, with and without priority selection.
\<close>

theorem dispatch_refuses_discarded:
  assumes "dynamic s = Some t" and "c \<in> set (tableRoutes t)" and "routeAdmits (stripPort (rHost req)) req c"
  shows "\<exists>d\<in>set (static s) \<union> set (tableRoutes t).
    routeAdmits (stripPort (rHost req)) req d \<and> dispatch s req = crHandler d"
  using dispatch_table[OF assms] .

definition demoRoute :: "nat \<Rightarrow> string \<Rightarrow> string \<Rightarrow> string \<Rightarrow> nat compiledRoute" where
  "demoRoute h service host path = \<lparr>crHandler = h, crService = service, crMatcher = CompileNative host path,
     clientPrefixes = [], peerPrefixes = []\<rparr>"

definition demoTable :: "nat dynamicTable" where
  "demoTable = \<lparr>dtRoutes = [demoRoute 1 ''web'' ''a.io'' ''/api/*''], rejections = [], quarantines = [],
     tombstones = [demoRoute 2 [] ''a.io'' ''/*'']\<rparr>"

definition demoRouter :: "nat router" where
  "demoRouter = \<lparr>PrioritizeRoutes = False, static = [], dynamic = Some demoTable, terminal = [demoRoute 3 [] [] ''/*''],
     fallback = 4\<rparr>"

lemmas demo_defs = demoRouter_def demoTable_def demoRoute_def demoReq_def CompileNative_def zeroMatcher_def emptyHints_def

theorem dispatch_refuses_discarded_witness: "dispatch demoRouter demoReq = 1 \<or> dispatch demoRouter demoReq = 2"
proof -
  have "\<exists>d\<in>set (static demoRouter) \<union> set (tableRoutes demoTable).
      routeAdmits (stripPort (rHost demoReq)) demoReq d \<and> dispatch demoRouter demoReq = crHandler d"
    by (rule dispatch_refuses_discarded[where c = "demoRoute 2 [] ''a.io'' ''/*''"])
       (simp_all add: demo_defs tableRoutes_def routeAdmits_def listenerMatches_def routePeerMatches_def Match_def
         matchHost_def matchPath_def statutePathKind_def stripPort_def cutLastByte_def equalFold_def)
  then show ?thesis by (auto simp: demoRouter_def demoTable_def tableRoutes_def demoRoute_def)
qed



text \<open>
  C4: The most specific route wins.  In a sorted table without priorities, when the route found has traffic
  that contains the traffic of another route admitting the same request, the two are equally specific and match the same
  paths: a narrower path or a host-scoped route is never shadowed by a wider one.
  (The byte prefix \<^verbatim>\<open>/\<close>, which spells "every path" with one character, is excepted.)
\<close>

theorem most_specific_wins:
  assumes "uniform False rs" and "findCompiledRoute (sortDynamicRoutes rs) host req = Some c"
    and "d \<in> set rs" and "routeAdmits host req d" and "matcherLE (crMatcher d) (crMatcher c)"
    and "dynMatcher (crMatcher d)" and "dynMatcher (crMatcher c)"
    and "\<not> (PathKind (crMatcher c) = PathByte \<and> Path (crMatcher c) = ''/'')"
  shows "compareDynamicSpecificity (crMatcher d) (crMatcher c) = 0 \<and>
    (\<forall>p. matchPath (crMatcher d) p = matchPath (crMatcher c) p)"
proof -
  have f: "find (routeAdmits host req) (sort_key routeKey rs) = Some c"
    using assms(2) by (simp add: findCompiledRoute_find sortDynamicRoutes_sort[OF assms(1)])
  then have "c \<in> set rs" by (auto dest: find_SomeD)
  then have po: "\<not> PriorityOrder (crMatcher c)" "\<not> PriorityOrder (crMatcher d)"
    using assms(1,3) by (auto simp: uniform_def list_all_iff)
  have "routeKey c \<le> routeKey d"
    by (rule sorted_find_least[OF _ f _ assms(4)]) (simp_all add: assms(3))
  then have "specKey (crMatcher c) \<le> specKey (crMatcher d)"
    using po by (auto simp: routeKey_def Let_def)
  then have "\<not> compareDynamicSpecificity (crMatcher d) (crMatcher c) > 0" by (simp add: compare_pos)
  with containment_specificity[OF assms(5-8)] show ?thesis by auto
qed

theorem most_specific_wins_witness:
  "findCompiledRoute (sortDynamicRoutes [demoRoute 2 ''all'' [] ''/*'', demoRoute 1 ''web'' ''a.io'' ''/api/*'']) ''a.io''
     (demoReq\<lparr>rPath := ''/api/x''\<rparr>) = Some (demoRoute 1 ''web'' ''a.io'' ''/api/*'') \<and>
   compareDynamicSpecificity (CompileNative ''a.io'' ''/api/*'') (CompileNative ''a.io'' ''/api/*'') = 0"
proof -
  let ?c = "demoRoute 1 ''web'' ''a.io'' ''/api/*''"
  let ?req = "demoReq\<lparr>rPath := ''/api/x''\<rparr>"
  have f: "findCompiledRoute (sortDynamicRoutes [demoRoute 2 ''all'' [] ''/*'', ?c]) ''a.io'' ?req = Some ?c"
    by (simp add: sortDynamicRoutes_def demo_defs dynamicRoutePrecedes_def compareDynamicSpecificity_def Let_def
        findCompiledRoute_find routeAdmits_def listenerMatches_def routePeerMatches_def Match_def matchHost_def
        matchPath_def statutePathKind_def equalFold_def hasSuffix_def matchSegmentPrefix_def cutSuffix_def)
  have "compareDynamicSpecificity (crMatcher ?c) (crMatcher ?c) = 0 \<and> (\<forall>p. matchPath (crMatcher ?c) p = matchPath (crMatcher ?c) p)"
    by (rule most_specific_wins[OF _ f])
       (simp_all add: uniform_def demo_defs dynMatcher_def wfMatcher_def statutePathKind_def hasSuffix_def cutSuffix_def
         routeAdmits_def listenerMatches_def routePeerMatches_def Match_def matchHost_def matchPath_def equalFold_def
         matchSegmentPrefix_def matcherLE_def hostMatcherLE_def pathMatcherLE_def anyHost_def anyPath_def segmentCovers_def
         rooted_def)
  then have "compareDynamicSpecificity (CompileNative ''a.io'' ''/api/*'') (CompileNative ''a.io'' ''/api/*'') = 0"
    by (simp add: demoRoute_def)
  with f show ?thesis by blast
qed

lemma quarantineLoop_serves:
  assumes "quarantineLoop rs host req route qs = (r, False)" and "sorted (map routeKey qs)"
    and "uniform po (route # qs @ rs)"
  shows "sameDynamicTraffic (crMatcher route) (crMatcher r) \<and> (\<forall>q\<in>set qs. routeAdmits host req q \<longrightarrow>
    routeKey r \<le> routeKey q \<or> sameDynamicTraffic (crMatcher r) (crMatcher q) \<and> (\<exists>s\<in>set rs. routeAdmits host req s \<and>
      crService s = crService q \<and> sameDynamicTraffic (crMatcher s) (crMatcher q)))"
  using assms
proof (induction qs arbitrary: route)
  case Nil
  then show ?case by (simp add: sameDynamicTraffic_equiv(1))
next
  case (Cons q qs)
  have u: "uniform po (route # qs @ rs)" and srt: "sorted (map routeKey qs)"
    using Cons.prems(2,3) by (auto simp: uniform_def)
  consider (skip) "\<not> routeAdmits host req q"
    | (same) "routeAdmits host req q" "sameDynamicTraffic (crMatcher route) (crMatcher q)"
    | (other) "routeAdmits host req q" "\<not> sameDynamicTraffic (crMatcher route) (crMatcher q)" by blast
  then show ?case
  proof cases
    case skip
    with Cons.prems(1) Cons.IH[OF _ srt u] show ?thesis by auto
  next
    case same
    then obtain s where s: "findSameServiceDynamicRoute rs host req q = Some s"
      "quarantineLoop rs host req s qs = (r, False)"
      using Cons.prems(1) by (auto split: option.splits)
    have sq: "s \<in> set rs" "crService s = crService q" "sameDynamicTraffic (crMatcher s) (crMatcher q)" "routeAdmits host req s"
      using find_SomeD[OF s(1)[unfolded findSameService_find]] by auto
    have "uniform po (s # qs @ rs)" using u sq(1) by (auto simp: uniform_def list_all_iff)
    note ih = Cons.IH[OF s(2) srt this]
    have "sameDynamicTraffic (crMatcher r) (crMatcher q)"
      using ih sq(3) sameDynamicTraffic_equiv(2,3) by blast
    moreover have "sameDynamicTraffic (crMatcher route) (crMatcher r)"
      using calculation same(2) sameDynamicTraffic_equiv(2,3) by blast
    ultimately show ?thesis using ih sq by auto
  next
    case other
    then have r: "r = route" "\<not> dynamicRoutePrecedes q route" using Cons.prems(1) by (auto split: if_splits)
    have "routeKey route \<le> routeKey q"
      using r(2) precedes_key[of q route] Cons.prems(3) by (auto simp: uniform_def not_less)
    with Cons.prems(2) have "routeKey route \<le> routeKey x" if "x \<in> set (q # qs)" for x using that by auto
    then show ?thesis by (auto simp: r(1) sameDynamicTraffic_equiv(1))
  qed
qed

text \<open>
  C14: Quarantine is terminal.  When the discovered table serves a request with a live route although quarantined
  registrations admit it too, then each of those either does not precede the served route, or has the very
  same traffic and its own service still has a live route for that traffic which admits the request.
\<close>

theorem quarantine_terminal:
  assumes "quarantines t = sortDynamicRoutes qs" and "uniform po (qs @ dtRoutes t)"
    and "findDynamicCandidate t host req = (Some r, False)" and "q \<in> set qs" and "routeAdmits host req q"
  shows "r \<in> set (dtRoutes t) \<and> routeAdmits host req r \<and>
    (\<not> dynamicRoutePrecedes q r \<or> sameDynamicTraffic (crMatcher r) (crMatcher q) \<and>
      (\<exists>s\<in>set (dtRoutes t). routeAdmits host req s \<and> crService s = crService q \<and>
         sameDynamicTraffic (crMatcher s) (crMatcher q)))"
proof -
  have r: "r \<in> set (dtRoutes t)" "routeAdmits host req r" using findDynamicCandidate_cases[OF assms(3)] by auto
  have uall: "PriorityOrder (crMatcher x) = po" if "x \<in> set qs \<union> set (dtRoutes t)" for x
    using assms(2) that by (auto simp: uniform_def list_all_iff)
  have uqs: "uniform po qs" using assms(2) by (simp add: uniform_def)
  from r(1,2) obtain route where f: "find (routeAdmits host req) (dtRoutes t) = Some route"
    by (metis find_None_iff not_None_eq)
  then have l: "quarantineLoop (dtRoutes t) host req route (quarantines t) = (r, False)"
    using assms(3) by (auto simp: findDynamicCandidate_def findCompiledRoute_find split: prod.splits)
  have "uniform po (route # quarantines t @ dtRoutes t)"
    using find_SomeD[OF f] uall assms(1) by (auto simp: uniform_def list_all_iff)
  moreover have "sorted (map routeKey (quarantines t))"
    unfolding assms(1) sortDynamicRoutes_sort[OF uqs] by simp
  ultimately have "routeKey r \<le> routeKey q \<or> sameDynamicTraffic (crMatcher r) (crMatcher q) \<and>
      (\<exists>s\<in>set (dtRoutes t). routeAdmits host req s \<and> crService s = crService q \<and> sameDynamicTraffic (crMatcher s) (crMatcher q))"
    using quarantineLoop_serves[OF l] assms(1,4,5) by auto
  moreover have "dynamicRoutePrecedes q r \<longleftrightarrow> routeKey q < routeKey r"
    using uall r(1) assms(4) by (intro precedes_key) simp
  ultimately show ?thesis using r by auto
qed

theorem quarantine_terminal_witness:
  "let t = demoTable\<lparr>quarantines := [demoRoute 5 ''old'' [] ''/*'']\<rparr>; req = demoReq\<lparr>rPath := ''/api/x''\<rparr> in
   demoRoute 1 ''web'' ''a.io'' ''/api/*'' \<in> set (dtRoutes t) \<and>
   \<not> dynamicRoutePrecedes (demoRoute 5 ''old'' [] ''/*'') (demoRoute 1 ''web'' ''a.io'' ''/api/*'')"
proof -
  let ?t = "demoTable\<lparr>quarantines := [demoRoute 5 ''old'' [] ''/*'']\<rparr>"
  let ?req = "demoReq\<lparr>rPath := ''/api/x''\<rparr>"
  let ?r = "demoRoute 1 ''web'' ''a.io'' ''/api/*''" and ?q = "demoRoute 5 ''old'' [] ''/*''"
  have "sameDynamicTraffic (crMatcher ?r) (crMatcher ?q) = False" by code_simp
  moreover have "?r \<in> set (dtRoutes ?t) \<and> routeAdmits ''a.io'' ?req ?r \<and>
    (\<not> dynamicRoutePrecedes ?q ?r \<or> sameDynamicTraffic (crMatcher ?r) (crMatcher ?q) \<and>
      (\<exists>s\<in>set (dtRoutes ?t). routeAdmits ''a.io'' ?req s \<and> crService s = crService ?q \<and>
         sameDynamicTraffic (crMatcher s) (crMatcher ?q)))"
    by (rule quarantine_terminal[where qs = "[?q]" and po = False])
       (simp_all add: sortDynamicRoutes_def demo_defs uniform_def findDynamicCandidate_def findCompiledRoute_find
         routeAdmits_def listenerMatches_def routePeerMatches_def Match_def matchHost_def matchPath_def
         statutePathKind_def equalFold_def hasSuffix_def matchSegmentPrefix_def cutSuffix_def sameDynamicTraffic_def
         dynamicRoutePrecedes_def compareDynamicSpecificity_def Let_def)
  ultimately show ?thesis by simp
qed

text \<open>
  C34: Under priority selection the request goes to a route of the highest priority: every static route that admits it,
  and every discovered route that admits it and stands clear of the quarantines, has at most the priority of
  the selected one.  A discovered route that is selected stands clear itself and outranks every rejection and every tombstone
  that admits the request: ties go to the refusal.
\<close>

theorem priority_selection:
  assumes "PrioritizeRoutes s" and "dynamic s = Some t" and "selectPriorityRoute s host req = Some r"
  shows "(\<forall>c\<in>set (static s). routeAdmits host req c \<longrightarrow> prio c \<le> prio r) \<and>
    (\<forall>c\<in>set (dtRoutes t). routeAdmits host req c \<and> standsClear t host req c \<longrightarrow> prio c \<le> prio r) \<and>
    (r \<in> set (static s) \<or> r \<in> set (rejections t) \<or> r \<in> set (quarantines t) \<or> r \<in> set (tombstones t) \<or>
     (r \<in> set (dtRoutes t) \<and> standsClear t host req r \<and>
      (\<forall>c\<in>set (rejections t) \<union> set (tombstones t). routeAdmits host req c \<longrightarrow> prio c < prio r)))"
proof -
  let ?static = "bestPriorityRoute (static s) host req" and ?dyn = "priorityDynamicRoute t host req"
  have sel: "?static = Some r \<or> (?dyn = Some r \<and> outranks r ?static)"
    using assms by (auto simp: selectPriorityRoute_def Let_def split: option.splits if_splits)
  have dyn: "prio d \<le> prio r" if "?dyn = Some d" for d
    using assms that by (auto simp: selectPriorityRoute_def Let_def outranks_def split: option.splits if_splits)
  have "prio c \<le> prio r" if "c \<in> set (dtRoutes t)" "routeAdmits host req c" "standsClear t host req c" for c
    using priorityDynamicRoute_highest[OF that] dyn by force
  moreover have "\<forall>c\<in>set (static s). routeAdmits host req c \<longrightarrow> prio c \<le> prio r"
    using sel bestPriorityRoute_Some(3)[of "static s" host req] bestPriorityRoute_None[of "static s" host req]
    by (auto simp: outranks_def split: option.splits) force
  moreover have "r \<in> set (static s)" if "?static = Some r" using bestPriorityRoute_Some(1)[OF that] .
  ultimately show ?thesis using sel priorityDynamicRoute_outranks[of t host req r] by blast
qed

definition demoUrgent :: "nat compiledRoute" where
  "demoUrgent = (demoRoute 8 [] ''a.io'' ''/*'')\<lparr>crMatcher := (CompileNative ''a.io'' ''/*'')\<lparr>Priority := 3\<rparr>\<rparr>"

definition demoPriority :: "nat router" where
  "demoPriority = demoRouter\<lparr>PrioritizeRoutes := True, static := [demoRoute 7 [] [] ''/*'', demoUrgent]\<rparr>"

theorem priority_selection_witness:
  "selectPriorityRoute demoPriority ''a.io'' demoReq = Some demoUrgent \<and> prio (demoRoute 7 [] [] ''/*'') \<le> prio demoUrgent"
proof -
  have a: "routeAdmits ''a.io'' demoReq (demoRoute 7 [] [] ''/*'')" "routeAdmits ''a.io'' demoReq demoUrgent"
      "routeAdmits ''a.io'' demoReq (demoRoute 2 [] ''a.io'' ''/*'')" "\<not> routeAdmits ''a.io'' demoReq (demoRoute 1 ''web'' ''a.io'' ''/api/*'')"
    by (simp_all add: demoUrgent_def demo_defs routeAdmits_def listenerMatches_def routePeerMatches_def Match_def
        matchHost_def matchPath_def statutePathKind_def equalFold_def hasSuffix_def matchSegmentPrefix_def cutSuffix_def)
  have p: "prio (demoRoute h sv hs pt) = 0" "prio demoUrgent = 3" for h sv hs pt
    by (simp_all add: demoUrgent_def demoRoute_def CompileNative_def zeroMatcher_def Let_def)
  have "priorityDynamicRoute demoTable ''a.io'' demoReq = Some (demoRoute 2 [] ''a.io'' ''/*'')"
    using a by (simp add: priorityDynamicRoute_def demoTable_def bestUnquarantinedPriorityRoute_def bestPriorityRoute_def
        outranks_def refuses_def)
  then have s: "selectPriorityRoute demoPriority ''a.io'' demoReq = Some demoUrgent"
    using a p by (simp add: selectPriorityRoute_def demoPriority_def demoRouter_def bestPriorityRoute_def outranks_def)
  from priority_selection[OF _ _ s] have "prio (demoRoute 7 [] [] ''/*'') \<le> prio demoUrgent"
    using a by (simp add: demoPriority_def demoRouter_def)
  with s show ?thesis by blast
qed

text \<open>
  \<^verbatim>\<open>stripPort\<close> does not handle bracketed IPv6 literals.  Without a port the host is cut at
  the last colon of the address itself, and with a port the port stays.
\<close>

theorem stripPort_ipv6_literal:
  assumes "CHR '']'' \<notin> set (a @ b)" and "CHR '':'' \<notin> set (b @ port)"
  shows "stripPort (''['' @ a @ '':'' @ b @ '']'') = ''['' @ a \<and>
    stripPort (''['' @ a @ '':'' @ b @ '']:'' @ port) = ''['' @ a @ '':'' @ b @ '']:'' @ port"
proof -
  have "cutLastByte ((''['' @ a) @ CHR '':'' # (b @ '']'')) CHR '':'' = Some (''['' @ a, b @ '']'')"
    by (rule cutLastByte_append) (use assms(2) in simp)
  moreover have "cutLastByte ((''['' @ a @ '':'' @ b @ '']'') @ CHR '':'' # port) CHR '':'' = Some (''['' @ a @ '':'' @ b @ '']'', port)"
    by (rule cutLastByte_append) (use assms(2) in simp)
  ultimately show ?thesis using assms(1) by (simp add: stripPort_def containsByte_def)
qed

theorem stripPort_ipv6_literal_witness:
  "stripPort ''[::1]'' = ''[:'' \<and> stripPort ''[::1]:8080'' = ''[::1]:8080''"
  using stripPort_ipv6_literal[of "'':''" "''1''" "''8080''"] by simp

lemma filter_eq_distinct: "distinct xs \<Longrightarrow> l \<in> set xs \<Longrightarrow> filter (\<lambda>n. n = l) xs = [l]"
  by (induction xs) (auto simp: filter_empty_conv)

lemma collectNames_iff:
  "collectNames acc ns = Some names \<longleftrightarrow> distinct (filter (\<lambda>n. n \<noteq> []) ns) \<and> set (filter (\<lambda>n. n \<noteq> []) ns) \<inter> set acc = {} \<and>
     names = rev (filter (\<lambda>n. n \<noteq> []) ns) @ acc"
  by (induction ns arbitrary: acc) auto

text \<open>
  A configuration whose listener names are accepted has routes that can be reached: every listener a
  route is limited to is declared, under a name no other listener has, so that some request context makes
  \<^const>\<open>listenerMatches\<close> true for the route.
\<close>

theorem validateListenerNames_reachable:
  assumes "validateListenerNames cfg" and "(listeners, middleware) \<in> set (lcRoutes cfg)" and "listeners \<noteq> []"
  shows "\<exists>l\<in>set (lcListeners cfg). l \<noteq> [] \<and> length (filter (\<lambda>n. n = l) (lcListeners cfg)) = 1 \<and>
    listenerMatches listeners (namedListener l req)"
proof -
  let ?ns = "filter (\<lambda>n. n \<noteq> []) (lcListeners cfg)"
  obtain names where n: "collectNames [] (lcListeners cfg) = Some names"
    "list_all (\<lambda>n. List.member names n) listeners"
    using assms(1,2) by (fastforce simp: validateListenerNames_def list_all_iff split: option.splits)
  obtain l where l: "l \<in> set listeners" using assms(3) by (cases listeners) auto
  with n have in_ns: "l \<in> set ?ns" "distinct ?ns" by (auto simp: collectNames_iff list_all_iff)
  have "filter (\<lambda>n. n = l) (lcListeners cfg) = filter (\<lambda>n. n = l) ?ns"
    using in_ns(1) by (auto intro: filter_cong)
  also have "length \<dots> = 1" by (subst filter_eq_distinct[OF in_ns(2,1)]) simp
  finally show ?thesis using l in_ns(1) by (intro bexI[of _ l]) (auto simp: listenerMatches_def namedListener_def)
qed

theorem validateListenerNames_reachable_witness:
  "let cfg = \<lparr>lcListeners = [''web'', [], ''admin''], lcRoutes = [([''admin''], [])], lcDocker = None\<rparr> in
   \<exists>l\<in>set (lcListeners cfg). l \<noteq> [] \<and> length (filter (\<lambda>n. n = l) (lcListeners cfg)) = 1 \<and>
     listenerMatches [''admin''] (namedListener l demoReq)"
  unfolding Let_def
  by (rule validateListenerNames_reachable[where middleware = "[]"])
     (simp_all add: validateListenerNames_def validateDockerMiddlewareListenerNames_def)

end
