(* ===== verification/Middleware_Chain.thy ===== *)
theory Middleware_Chain
  imports Router "HOL-Library.Sublist"
begin

text \<open>
  Middleware chains: the order they run in and the checks on it.  Groups and listener groups
  (\<^verbatim>\<open>src/middleware_order.go\<close>), the assembly of a route's chain (\<^verbatim>\<open>wrapRouteMiddleware\<close> of \<^verbatim>\<open>src/server.go\<close>) and the
  validators of \<^verbatim>\<open>src/cache_policy_order.go\<close>, \<^verbatim>\<open>src/requestid_policy.go\<close>, \<^verbatim>\<open>src/basicauth_credentials.go\<close> and
  \<^verbatim>\<open>src/resolve.go\<close>.
\<close>

section \<open>Middleware\<close>

datatype MiddlewareType =
  MWTimeout | MWRateLimit | MWRetry | MWCache | MWCompress | MWETag | MWBodyLimit | MWRequestID | MWSecurityHeaders
  | MWCORS | MWBasicAuth | MWAllowIPs | MWDenyIPs | MWSetRequestHeader | MWAddRequestHeader | MWRemoveRequestHeader
  | MWSetResponseHeader | MWAddResponseHeader | MWRemoveResponseHeader | MWStripPrefix | MWAddPrefix | MWReplacePath
  | MWRewritePath | MWRequestBuffer | MWRedirectRegex | MWRedirectScheme | MWInOrder | MWReplaceEscapedPath
  | MWRewriteEscapedPath | MWStripBytePrefixes | MWPrefixPath | MWEncodeResponse | MWBufferBodies | MWOnListeners

datatype CompressAlgo = Gzip | Brotli

text \<open>The fields the chain logic reads; the settings of the individual middleware are one value \<open>mwRest\<close>.\<close>

record 'x mwFields =
  Type :: MiddlewareType
  MiddlewareListeners :: "string list"
  CacheTTL :: int
  CompressAlgos :: "CompressAlgo list"
  RequestIDHeader :: string
  RequestIDFromHeader :: string
  HeaderName :: string
  mwRest :: 'x

datatype 'x Middleware = Middleware (mw: "'x mwFields") (Group: "'x Middleware list")

abbreviation mtype :: "'x Middleware \<Rightarrow> MiddlewareType" where
  "mtype m \<equiv> Type (mw m)"

definition isRequestHeaderOp :: "MiddlewareType \<Rightarrow> bool" where
  "isRequestHeaderOp op \<longleftrightarrow> op = MWSetRequestHeader \<or> op = MWAddRequestHeader \<or> op = MWRemoveRequestHeader"

definition isResponseHeaderOp :: "MiddlewareType \<Rightarrow> bool" where
  "isResponseHeaderOp op \<longleftrightarrow> op = MWSetResponseHeader \<or> op = MWAddResponseHeader \<or> op = MWRemoveResponseHeader"

definition isGroup :: "'x Middleware \<Rightarrow> bool" where
  "isGroup m \<longleftrightarrow> mtype m = MWInOrder \<or> mtype m = MWOnListeners"

section \<open>Groups\<close>

fun middlewareLeaves :: "'x Middleware list \<Rightarrow> 'x Middleware list" where
  "middlewareLeaves [] = []"
| "middlewareLeaves (Middleware f g # ms) =
     (if isGroup (Middleware f g) then middlewareLeaves g else [Middleware f g]) @ middlewareLeaves ms"

fun middlewareWithoutCache :: "'x Middleware list \<Rightarrow> 'x Middleware list" where
  "middlewareWithoutCache [] = []"
| "middlewareWithoutCache (Middleware f g # ms) =
     (if Type f = MWCache then middlewareWithoutCache ms
      else (if isGroup (Middleware f g) then Middleware f (middlewareWithoutCache g) else Middleware f g)
           # middlewareWithoutCache ms)"

fun middlewareForListener :: "'x Middleware list \<Rightarrow> string \<Rightarrow> 'x Middleware list" where
  "middlewareForListener [] name = []"
| "middlewareForListener (Middleware f g # ms) name =
     (if Type f = MWOnListeners \<and> \<not> List.member (MiddlewareListeners f) name then middlewareForListener ms name
      else (if isGroup (Middleware f g) then middlewareForListener g name else [Middleware f g])
           @ middlewareForListener ms name)"

fun collectListeners :: "'x Middleware list \<Rightarrow> string list" where
  "collectListeners [] = []"
| "collectListeners (Middleware f g # ms) = MiddlewareListeners f @ collectListeners g @ collectListeners ms"

section \<open>The chain a request runs through\<close>

definition routeWritesCacheCredentials :: "'x Middleware list \<Rightarrow> bool" where
  "routeWritesCacheCredentials mws = list_ex (\<lambda>m.
     let name = (if mtype m = MWRequestID then RequestIDHeader (mw m)
                 else if mtype m = MWSetRequestHeader \<or> mtype m = MWAddRequestHeader then HeaderName (mw m)
                 else [])
     in equalFold name ''Authorization'' \<or> equalFold name ''Cookie'') mws"

definition routeWritesCacheAge :: "'x Middleware list \<Rightarrow> bool" where
  "routeWritesCacheAge mws = list_ex (\<lambda>m. isResponseHeaderOp (mtype m) \<and>
     (equalFold (HeaderName (mw m)) ''Age'' \<or> equalFold (HeaderName (mw m)) ''Date'')) mws"

definition cacheBypass :: "'x Middleware list \<Rightarrow> bool" where
  "cacheBypass mws = (let leaves = middlewareLeaves mws in
     routeWritesCacheCredentials leaves \<or> routeWritesCacheAge leaves)"

lemma size_withoutCache: "size_list size (middlewareWithoutCache ms) \<le> size_list size ms"
proof (induction ms rule: middlewareWithoutCache.induct)
  case (2 f g ms)
  then show ?case by (cases "Type f = MWCache"; cases "isGroup (Middleware f g)") auto
qed simp

text \<open>
  The middleware a request on listener \<open>name\<close> meets, outermost first (header operations and path rewrites are kept at
  their place here, the code runs them at the edge of their group): the handler \<^verbatim>\<open>wrapRouteMiddleware\<close> builds
  runs its own members in order, a group in place (\<^verbatim>\<open>orderedMiddlewareHandler\<close>, which calls
  \<^verbatim>\<open>wrapRouteMiddleware\<close> again) and a listener group only on its listeners
  (\<^verbatim>\<open>conditionalListenerMiddleware\<close>).  The flag is the cache bypass of the chain being assembled.
\<close>

function (sequential) wrapLoop :: "bool \<Rightarrow> 'x Middleware list \<Rightarrow> string \<Rightarrow> 'x Middleware list" where
  "wrapLoop bypass [] name = []"
| "wrapLoop bypass (Middleware f g # ms) name =
     (if bypass \<and> Type f = MWCache then []
      else if isGroup (Middleware f g) then
        (if Type f = MWOnListeners \<and> MiddlewareListeners f \<noteq> [] \<and> \<not> List.member (MiddlewareListeners f) name then []
         else let values = (if bypass then middlewareWithoutCache g else g)
              in wrapLoop (cacheBypass values) values name)
      else [Middleware f g]) @ wrapLoop bypass ms name"
  by pat_completeness auto
termination
proof (relation "measure (\<lambda>(b, ms, name). size_list size ms)", goal_cases)
  case (2 bypass f g ms name vals)
  then show ?case using size_withoutCache[of g] by auto
qed auto

definition wrapRouteMiddleware :: "'x Middleware list \<Rightarrow> string \<Rightarrow> 'x Middleware list" where
  "wrapRouteMiddleware mws name = wrapLoop (cacheBypass mws) mws name"

section \<open>Validation\<close>

datatype mwError =
  OwnedEncoding nat | IPAfterCache nat nat | IDAfterCache nat nat | BadOutputHeader nat | SecondRequestID nat nat
  | ReplacesCredentials nat

definition enabledCache :: "'x Middleware \<Rightarrow> bool" where
  "enabledCache m \<longleftrightarrow> mtype m = MWCache \<and> CacheTTL (mw m) > 0"

fun cacheOrderLoop :: "nat \<Rightarrow> nat option \<Rightarrow> 'x Middleware list \<Rightarrow> mwError option" where
  "cacheOrderLoop i cacheIndex [] = None"
| "cacheOrderLoop i cacheIndex (m # ms) =
     (let cacheIndex = (if enabledCache m \<and> cacheIndex = None then Some i else cacheIndex) in
      case cacheIndex of
        None \<Rightarrow> cacheOrderLoop (Suc i) cacheIndex ms
      | Some c \<Rightarrow>
          if mtype m = MWAllowIPs \<or> mtype m = MWDenyIPs then Some (IPAfterCache i c)
          else if mtype m = MWRequestID then Some (IDAfterCache i c)
          else cacheOrderLoop (Suc i) cacheIndex ms)"

definition validateCachePolicyOrder :: "'x Middleware list \<Rightarrow> mwError option" where
  "validateCachePolicyOrder mws = cacheOrderLoop 0 None mws"

fun representationLoop :: "nat \<Rightarrow> 'x Middleware list \<Rightarrow> mwError option" where
  "representationLoop i [] = None"
| "representationLoop i (m # ms) =
     (let isID = mtype m = MWRequestID;
          writesHeader = isID \<or> isResponseHeaderOp (mtype m);
          header = (if isID then RequestIDHeader (mw m) else HeaderName (mw m))
      in if writesHeader \<and> equalFold header ''Content-Encoding'' then Some (OwnedEncoding i)
         else representationLoop (Suc i) ms)"

definition validateMiddlewareRepresentation :: "'x Middleware list \<Rightarrow> mwError option" where
  "validateMiddlewareRepresentation mws =
     (if \<not> list_ex (\<lambda>m. mtype m = MWCompress \<and> CompressAlgos (mw m) \<noteq> [] \<or> mtype m = MWEncodeResponse) mws then None
      else representationLoop 0 mws)"

definition parseHeaderName :: "string \<Rightarrow> string option" where
  "parseHeaderName s = (if s = [] \<or> \<not> list_all isTchar s then None else Some (CanonicalMIMEHeaderKey s))"

definition requestIDForbiddenOutputHeaders :: "string list" where
  "requestIDForbiddenOutputHeaders =
     [''Content-Length'', ''Transfer-Encoding'', ''Trailer'', ''Connection'', ''Upgrade'',
      ''TE'', ''Keep-Alive'', ''Proxy-Connection'', ''Expect'', ''Max-Forwards'',
      ''Sec-WebSocket-Accept'', ''Sec-WebSocket-Key'', ''Sec-WebSocket-Version'', ''Sec-WebSocket-Extensions'', ''Sec-WebSocket-Protocol'',
      ''Content-Encoding'', ''Content-Type'', ''Content-Range'', ''Content-Disposition'', ''Content-Language'', ''Content-Location'',
      ''Accept'', ''Accept-Encoding'', ''Accept-Language'', ''Accept-Charset'', ''Accept-Ranges'', ''Range'',
      ''Content-MD5'', ''Digest'', ''Content-Digest'', ''Repr-Digest'', ''Want-Digest'', ''Want-Content-Digest'', ''Want-Repr-Digest'',
      ''ETag'', ''Last-Modified'', ''If-Match'', ''If-None-Match'', ''If-Modified-Since'', ''If-Unmodified-Since'', ''If-Range'',
      ''Cache-Control'', ''Vary'', ''Expires'', ''Age'', ''Date'', ''Pragma'', ''Warning'', ''CDN-Cache-Control'', ''Surrogate-Control'',
      ''Set-Cookie'', ''Set-Cookie2'', ''Location'', ''Refresh'', ''Retry-After'', ''Strict-Transport-Security'',
      ''Content-Security-Policy'', ''Content-Security-Policy-Report-Only'', ''WWW-Authenticate'', ''Proxy-Authenticate'', ''Proxy-Authorization'',
      ''Authentication-Info'', ''Proxy-Authentication-Info'', ''Alt-Svc'', ''Alt-Used'', ''Clear-Site-Data'',
      ''X-Content-Type-Options'', ''X-Frame-Options'', ''X-XSS-Protection'', ''Referrer-Policy'', ''Permissions-Policy'',
      ''Cross-Origin-Opener-Policy'', ''Cross-Origin-Opener-Policy-Report-Only'', ''Cross-Origin-Embedder-Policy'',
      ''Cross-Origin-Embedder-Policy-Report-Only'', ''Cross-Origin-Resource-Policy'',
      ''Origin'', ''Access-Control-Allow-Origin'', ''Access-Control-Allow-Credentials'', ''Access-Control-Allow-Headers'',
      ''Access-Control-Allow-Methods'', ''Access-Control-Expose-Headers'', ''Access-Control-Max-Age'', ''Access-Control-Allow-Private-Network'',
      ''Access-Control-Request-Headers'', ''Access-Control-Request-Method'', ''Access-Control-Request-Private-Network'',
      ''Host'', ''Forwarded'', ''X-Forwarded-For'', ''X-Forwarded-Host'', ''X-Forwarded-Proto'', ''X-Forwarded-Port'', ''X-Real-IP'']"

definition normalizeRequestIDOutputHeader :: "string \<Rightarrow> string option" where
  "normalizeRequestIDOutputHeader name =
     (case parseHeaderName (if name = [] then ''X-Request-Id'' else name) of
        None \<Rightarrow> None
      | Some n \<Rightarrow> if list_ex (equalFold n) requestIDForbiddenOutputHeaders then None else Some n)"

fun requestIDLoop :: "nat \<Rightarrow> nat option \<Rightarrow> 'x Middleware list \<Rightarrow> mwError option" where
  "requestIDLoop i owner [] = None"
| "requestIDLoop i owner (m # ms) =
     (if mtype m \<noteq> MWRequestID then requestIDLoop (Suc i) owner ms
      else if normalizeRequestIDOutputHeader (RequestIDHeader (mw m)) = None then Some (BadOutputHeader i)
      else (case owner of Some o' \<Rightarrow> Some (SecondRequestID i o') | None \<Rightarrow> requestIDLoop (Suc i) (Some i) ms))"

definition validateRequestIDOwnership :: "'x Middleware list \<Rightarrow> mwError option" where
  "validateRequestIDOwnership mws = requestIDLoop 0 None mws"

definition basicAuthMappedInput :: "'x Middleware \<Rightarrow> string" where
  "basicAuthMappedInput m =
     (if mtype m = MWRequestID \<and> equalFold (RequestIDHeader (mw m)) ''Authorization''
      then RequestIDFromHeader (mw m) else [])"

fun lastAuth :: "nat \<Rightarrow> nat option \<Rightarrow> 'x Middleware list \<Rightarrow> nat option" where
  "lastAuth i acc [] = acc"
| "lastAuth i acc (m # ms) = lastAuth (Suc i) (if mtype m = MWBasicAuth then Some i else acc) ms"

fun credentialLoop :: "nat \<Rightarrow> string list \<Rightarrow> 'x Middleware list \<Rightarrow> mwError option" where
  "credentialLoop i inputs [] = None"
| "credentialLoop i inputs (m # ms) =
     (if isRequestHeaderOp (mtype m) \<and> List.member inputs (toLower (HeaderName (mw m))) then Some (ReplacesCredentials i)
      else credentialLoop (Suc i) inputs ms)"

definition validateBasicAuthCredentials :: "'x Middleware list \<Rightarrow> mwError option" where
  "validateBasicAuthCredentials mws = (case lastAuth 0 None mws of
       None \<Rightarrow> None
     | Some l \<Rightarrow> credentialLoop 0
         (toLower ''Authorization'' #
          map toLower (filter (\<lambda>s. s \<noteq> []) (map basicAuthMappedInput (take l mws)))) mws)"

definition validateChain :: "'x Middleware list \<Rightarrow> mwError option" where
  "validateChain chain =
     (case validateMiddlewareRepresentation chain of Some e \<Rightarrow> Some e | None \<Rightarrow>
     (case validateCachePolicyOrder chain of Some e \<Rightarrow> Some e | None \<Rightarrow>
     (case validateRequestIDOwnership chain of Some e \<Rightarrow> Some e | None \<Rightarrow>
      validateBasicAuthCredentials chain)))"

fun firstError :: "('a \<Rightarrow> 'e option) \<Rightarrow> 'a list \<Rightarrow> 'e option" where
  "firstError f [] = None"
| "firstError f (x # xs) = (case f x of Some e \<Rightarrow> Some e | None \<Rightarrow> firstError f xs)"

definition validateResolvedMiddlewares :: "'x Middleware list \<Rightarrow> mwError option" where
  "validateResolvedMiddlewares mws =
     firstError (\<lambda>name. validateChain (middlewareForListener mws name)) ([] # collectListeners mws)"

section \<open>What runs is what was validated\<close>

text \<open>Listener groups name at least one listener; \<^verbatim>\<open>listenerMiddleware.resolve\<close> rejects the others.\<close>

fun wfListeners :: "'x Middleware list \<Rightarrow> bool" where
  "wfListeners [] = True"
| "wfListeners (Middleware f g # ms) \<longleftrightarrow>
     (Type f = MWOnListeners \<longrightarrow> MiddlewareListeners f \<noteq> []) \<and> wfListeners g \<and> wfListeners ms"

abbreviation noCache :: "'x Middleware \<Rightarrow> bool" where
  "noCache m \<equiv> mtype m \<noteq> MWCache"

lemma isGroup_not_cache: "isGroup (Middleware f g) \<Longrightarrow> Type f \<noteq> MWCache"
  by (auto simp: isGroup_def)

lemma wfListeners_withoutCache: "wfListeners ms \<Longrightarrow> wfListeners (middlewareWithoutCache ms)"
  by (induction ms rule: middlewareWithoutCache.induct) auto

lemma forListener_withoutCache:
  "middlewareForListener (middlewareWithoutCache ms) name = filter noCache (middlewareForListener ms name)"
proof (induction ms rule: middlewareWithoutCache.induct)
  case (2 f g ms)
  then show ?case by (cases "Type f = MWCache"; cases "isGroup (Middleware f g)") (auto simp: isGroup_def)
qed simp

lemma wrapLoop_subseq:
  "wfListeners ms \<Longrightarrow> subseq (wrapLoop bypass ms name) (middlewareForListener ms name)"
proof (induction bypass ms name rule: wrapLoop.induct)
  case (2 bypass f g ms name)
  have tail: "subseq (wrapLoop bypass ms name) (middlewareForListener ms name)" using 2(2) 2(3) by simp
  let ?vals = "if bypass then middlewareWithoutCache g else g"
  have grp: "subseq (wrapLoop (cacheBypass ?vals) ?vals name) (middlewareForListener g name)"
    if "isGroup (Middleware f g)" "\<not> (Type f = MWOnListeners \<and> MiddlewareListeners f \<noteq> [] \<and> \<not> List.member (MiddlewareListeners f) name)"
  proof -
    have "subseq (wrapLoop (cacheBypass ?vals) ?vals name) (middlewareForListener ?vals name)"
      using 2(1)[OF _ that refl] 2(3) isGroup_not_cache[OF that(1)] wfListeners_withoutCache[of g] by auto
    also have "subseq \<dots> (middlewareForListener g name)"
      by (simp add: forListener_withoutCache subseq_filter_left)
    finally show ?thesis .
  qed
  show ?case
    using tail grp 2(3)
    by (cases "bypass \<and> Type f = MWCache"; cases "isGroup (Middleware f g)")
       (auto simp: Let_def isGroup_def list_emb_append_mono list_emb_append2)
qed simp

lemma wrapLoop_keeps:
  "wfListeners ms \<Longrightarrow> filter noCache (wrapLoop bypass ms name) = filter noCache (middlewareForListener ms name)"
proof (induction bypass ms name rule: wrapLoop.induct)
  case (2 bypass f g ms name)
  have tail: "filter noCache (wrapLoop bypass ms name) = filter noCache (middlewareForListener ms name)" using 2(2) 2(3) by simp
  let ?vals = "if bypass then middlewareWithoutCache g else g"
  have grp: "filter noCache (wrapLoop (cacheBypass ?vals) ?vals name) = filter noCache (middlewareForListener g name)"
    if "isGroup (Middleware f g)" "\<not> (Type f = MWOnListeners \<and> MiddlewareListeners f \<noteq> [] \<and> \<not> List.member (MiddlewareListeners f) name)"
    using 2(1)[OF _ that refl] 2(3) isGroup_not_cache[OF that(1)] wfListeners_withoutCache[of g]
    by (simp add: forListener_withoutCache split: if_splits)
  show ?case
    using tail grp 2(3)
    by (cases "bypass \<and> Type f = MWCache"; cases "isGroup (Middleware f g)") (auto simp: Let_def isGroup_def)
qed simp

lemma subseq_set: "subseq xs ys \<Longrightarrow> set xs \<subseteq> set ys"
  by (induction rule: list_emb.induct) auto

lemma wrapLoop_bypassed:
  assumes "wfListeners ms" and "m \<in> set (wrapLoop True ms name)"
  shows "noCache m"
  using assms
proof (induction "True" ms name rule: wrapLoop.induct)
  case (2 f g ms name)
  have grp: "noCache m" if "m \<in> set (wrapLoop b (middlewareWithoutCache g) name)" for b
  proof -
    have "wfListeners (middlewareWithoutCache g)" using 2(3) wfListeners_withoutCache by auto
    from wrapLoop_subseq[OF this, of b name] that
    have "m \<in> set (filter noCache (middlewareForListener g name))"
      unfolding forListener_withoutCache[symmetric] by (rule subsetD[OF subseq_set])
    then show ?thesis by simp
  qed
  show ?case using 2(2-4) grp by (auto simp: Let_def split: if_splits)
qed simp

section \<open>The order a validated chain has\<close>

definition policyMW :: "'x Middleware \<Rightarrow> bool" where
  "policyMW m \<longleftrightarrow> mtype m = MWAllowIPs \<or> mtype m = MWDenyIPs \<or> mtype m = MWRequestID"

fun cacheOrdered :: "'x Middleware list \<Rightarrow> bool" where
  "cacheOrdered [] = True"
| "cacheOrdered (m # ms) \<longleftrightarrow> (enabledCache m \<longrightarrow> list_all (\<lambda>x. \<not> policyMW x) ms) \<and> cacheOrdered ms"

lemma cacheOrderLoop_Some: "cacheOrderLoop i (Some c) ms = None \<longleftrightarrow> list_all (\<lambda>x. \<not> policyMW x) ms"
  by (induction ms arbitrary: i) (auto simp: policyMW_def)

lemma cacheOrderLoop_None: "cacheOrderLoop i None ms = None \<longleftrightarrow> cacheOrdered ms"
proof (induction ms arbitrary: i)
  case (Cons m ms)
  have "enabledCache m \<Longrightarrow> \<not> policyMW m" by (auto simp: enabledCache_def policyMW_def)
  moreover have "list_all (\<lambda>x. \<not> policyMW x) ms \<Longrightarrow> cacheOrdered ms" by (induction ms) auto
  ultimately show ?case using Cons by (auto simp: cacheOrderLoop_Some policyMW_def)
qed simp

lemma cacheOrdered_subseq: "subseq xs ys \<Longrightarrow> cacheOrdered ys \<Longrightarrow> cacheOrdered xs"
proof (induction rule: list_emb.induct)
  case (list_emb_Cons2 x y xs ys)
  then have "set xs \<subseteq> set ys" by (auto dest: subseq_set)
  with list_emb_Cons2 show ?case by (auto simp: list_all_iff)
qed auto

lemma cacheOrdered_split: "cacheOrdered (xs @ c # ys) \<Longrightarrow> enabledCache c \<Longrightarrow> y \<in> set ys \<Longrightarrow> \<not> policyMW y"
  by (induction xs) (auto simp: list_all_iff)

lemma forListener_unnamed:
  "name \<notin> set (collectListeners ms) \<Longrightarrow> subseq (middlewareForListener ms name) (middlewareForListener ms other)"
proof (induction ms name rule: middlewareForListener.induct)
  case (2 f g ms name)
  then show ?case
    by (auto simp: isGroup_def list_emb_append_mono list_emb_append2)
qed simp

lemma firstError_None: "firstError f xs = None \<longleftrightarrow> (\<forall>x\<in>set xs. f x = None)"
  by (induction xs) (auto split: option.splits)

lemma validated_order:
  assumes "validateResolvedMiddlewares mws = None"
  shows "cacheOrdered (middlewareForListener mws name)"
proof -
  have "cacheOrdered (middlewareForListener mws n)" if "n \<in> set ([] # collectListeners mws)" for n
  proof -
    have "validateChain (middlewareForListener mws n) = None"
      using assms that unfolding validateResolvedMiddlewares_def firstError_None by blast
    then have "validateCachePolicyOrder (middlewareForListener mws n) = None"
      by (simp add: validateChain_def split: option.splits)
    then show ?thesis by (simp add: validateCachePolicyOrder_def cacheOrderLoop_None)
  qed
  then show ?thesis
    using cacheOrdered_subseq[OF forListener_unnamed[of name mws "[]"]] by (cases "name \<in> set (collectListeners mws)") auto
qed

section \<open>Properties\<close>

text \<open>
  C6: A cache hit never skips a policy.  In a chain that passed validation, whatever listener a request arrives
  on, no IP list and no request identity runs behind an enabled cache: the chain that runs is, caches
  aside, exactly the chain validated for that listener, also for listeners no group names.
\<close>

theorem validated_chain_order:
  assumes "validateResolvedMiddlewares mws = None" and "wfListeners mws"
    and "wrapRouteMiddleware mws name = xs @ c # ys" and "enabledCache c" and "y \<in> set ys"
  shows "mtype y \<notin> {MWAllowIPs, MWDenyIPs, MWRequestID} \<and>
    filter noCache (wrapRouteMiddleware mws name) = filter noCache (middlewareForListener mws name)"
proof -
  have "cacheOrdered (wrapRouteMiddleware mws name)"
    unfolding wrapRouteMiddleware_def
    by (rule cacheOrdered_subseq[OF wrapLoop_subseq[OF assms(2)] validated_order[OF assms(1)]])
  with cacheOrdered_split assms(3-5) have "\<not> policyMW y" by metis
  then show ?thesis by (simp add: policyMW_def wrapRouteMiddleware_def wrapLoop_keeps[OF assms(2)])
qed

definition demoMW :: "MiddlewareType \<Rightarrow> unit Middleware" where
  "demoMW t = Middleware \<lparr>Type = t, MiddlewareListeners = [], CacheTTL = 60, CompressAlgos = [], RequestIDHeader = [],
     RequestIDFromHeader = [], HeaderName = [], mwRest = ()\<rparr> []"

definition demoGroup :: "string list \<Rightarrow> unit Middleware list \<Rightarrow> unit Middleware" where
  "demoGroup ls ms = Middleware ((mw (demoMW MWOnListeners))\<lparr>MiddlewareListeners := ls\<rparr>) ms"

definition demoChain :: "unit Middleware list" where
  "demoChain = [demoGroup [''web''] [demoMW MWAllowIPs], demoMW MWCache, demoMW MWTimeout]"

theorem validated_chain_order_witness: "mtype (demoMW MWTimeout) \<notin> {MWAllowIPs, MWDenyIPs, MWRequestID}"
proof -
  have w: "wrapRouteMiddleware demoChain ''web'' = [demoMW MWAllowIPs] @ demoMW MWCache # [demoMW MWTimeout]"
    by (simp add: wrapRouteMiddleware_def demoChain_def demoGroup_def demoMW_def cacheBypass_def isGroup_def
        routeWritesCacheCredentials_def routeWritesCacheAge_def isResponseHeaderOp_def equalFold_def)
  have v: "validateResolvedMiddlewares demoChain = None"
    by (simp add: validateResolvedMiddlewares_def demoChain_def demoGroup_def demoMW_def isGroup_def validateChain_def
        validateMiddlewareRepresentation_def validateCachePolicyOrder_def validateRequestIDOwnership_def
        validateBasicAuthCredentials_def enabledCache_def)
  show ?thesis
    using validated_chain_order[OF v _ w] by (simp add: demoChain_def demoGroup_def demoMW_def enabledCache_def)
qed

text \<open>The middleware of a chain at any depth of its groups.\<close>

inductive occursIn :: "'x Middleware \<Rightarrow> 'x Middleware list \<Rightarrow> bool" where
  here: "m \<in> set ms \<Longrightarrow> \<not> isGroup m \<Longrightarrow> occursIn m ms"
| inside: "Middleware f g \<in> set ms \<Longrightarrow> isGroup (Middleware f g) \<Longrightarrow> occursIn m g \<Longrightarrow> occursIn m ms"

lemma leaves_member: "Middleware f g \<in> set ms \<Longrightarrow>
  (if isGroup (Middleware f g) then set (middlewareLeaves g) else {Middleware f g}) \<subseteq> set (middlewareLeaves ms)"
proof (induction ms)
  case (Cons a ms)
  then show ?case by (cases a) auto
qed simp

lemma occursIn_leaves: "occursIn m ms \<Longrightarrow> m \<in> set (middlewareLeaves ms)"
proof (induction rule: occursIn.induct)
  case (here m ms)
  then show ?case using leaves_member[of "mw m" "Group m" ms] by simp
next
  case (inside f g ms m)
  then show ?case using leaves_member[OF inside(1)] by auto
qed

text \<open>
  C17: A route caches nothing when some middleware, at any depth of its groups, writes a request credential
  (a request identifier, set or added request header named Authorization or Cookie) or touches the age of the response
  (a response header operation on Age or Date): no cache of its chain, enabled or not, is part of the handler on any
  listener.
\<close>

theorem credential_routes_never_cache:
  assumes "occursIn w mws" and "wfListeners mws" and "m \<in> set (wrapRouteMiddleware mws name)"
    and "mtype w = MWRequestID \<and> (equalFold (RequestIDHeader (mw w)) ''Authorization'' \<or> equalFold (RequestIDHeader (mw w)) ''Cookie'') \<or>
      mtype w \<in> {MWSetRequestHeader, MWAddRequestHeader} \<and>
        (equalFold (HeaderName (mw w)) ''Authorization'' \<or> equalFold (HeaderName (mw w)) ''Cookie'') \<or>
      mtype w \<in> {MWSetResponseHeader, MWAddResponseHeader, MWRemoveResponseHeader} \<and>
        (equalFold (HeaderName (mw w)) ''Age'' \<or> equalFold (HeaderName (mw w)) ''Date'')"
  shows "mtype m \<noteq> MWCache"
proof -
  have "cacheBypass mws"
    using assms(4) occursIn_leaves[OF assms(1)]
    by (force simp: cacheBypass_def routeWritesCacheCredentials_def routeWritesCacheAge_def isResponseHeaderOp_def list_ex_iff Let_def)
  then show ?thesis using assms(3) wrapLoop_bypassed[OF assms(2)] by (simp add: wrapRouteMiddleware_def)
qed

definition demoHeaderOp :: "MiddlewareType \<Rightarrow> string \<Rightarrow> unit Middleware" where
  "demoHeaderOp op name = Middleware ((mw (demoMW op))\<lparr>HeaderName := name\<rparr>) []"

theorem credential_routes_never_cache_witness:
  "list_all (\<lambda>m. mtype m \<noteq> MWCache) (wrapRouteMiddleware [demoMW MWCache, demoHeaderOp MWSetRequestHeader ''cookie''] []) \<and>
   list_all (\<lambda>m. mtype m \<noteq> MWCache)
     (wrapRouteMiddleware [demoMW MWCache, demoGroup [''web''] [demoHeaderOp MWSetResponseHeader ''AGE'']] ''web'')"
proof -
  have c: "equalFold ''cookie'' ''Cookie''" "equalFold ''AGE'' ''Age''" by code_simp+
  have age: "occursIn (demoHeaderOp MWSetResponseHeader ''AGE'') [demoMW MWCache, demoGroup [''web''] [demoHeaderOp MWSetResponseHeader ''AGE'']]"
    by (rule inside[of "mw (demoGroup [''web''] [])" "[demoHeaderOp MWSetResponseHeader ''AGE'']"])
       (simp_all add: here demoGroup_def demoHeaderOp_def demoMW_def isGroup_def)
  have cookie: "occursIn (demoHeaderOp MWSetRequestHeader ''cookie'') [demoMW MWCache, demoHeaderOp MWSetRequestHeader ''cookie'']"
    by (rule here) (simp_all add: demoHeaderOp_def demoMW_def isGroup_def)
  show ?thesis
    unfolding list_all_iff
    using credential_routes_never_cache[OF cookie] credential_routes_never_cache[OF age]
    by (simp add: c demoHeaderOp_def demoGroup_def demoMW_def isGroup_def)
qed

end
