(* ===== verification/Docker_Rule.thy ===== *)
theory Docker_Rule
  imports Docker_Match Netip
begin

text \<open>
  The strict reader of Traefik router rules (\<^verbatim>\<open>internal/docker/rule.go\<close>): lexer, recursive
  descent parser, expansion to disjunctive normal form and rendering as matchers. The parser's
  position in the token slice is the suffix still to be read; the three mutually recursive
  parsing methods and their loops take fuel, and \<open>parse_fuel\<close> shows that the fuel
  \<open>ParseRule\<close> gives them never runs out.
\<close>

section \<open>Errors\<close>

datatype ruleError =
    Negation
  | UnexpectedChar char
  | SingleOperator char
  | UnterminatedString
  | UnexpectedEnd
  | ExpectedMatcher string
  | Expected string
  | UnterminatedCall string
  | ExpectedArgument string
  | ExpectedCommaOrParen string
  | UnexpectedInCall string string
  | TrailingToken string
  | NotLiteralPath string string
  | NotLiteralHost string
  | NoArguments string
  | InvalidClientIP
  | UnsupportedMatcher string
  | TooManyMatchers
  | DisjointHosts
  | DisjointPeers
  | MultiplePaths
  | OutOfFuel

section \<open>Lexer\<close>

datatype tokKind = tokIdent | tokString | tokLParen | tokRParen | tokComma | tokAnd | tokOr

record ruleToken =
  kind :: tokKind
  val :: string

abbreviation token :: "tokKind \<Rightarrow> string \<Rightarrow> ruleToken" where
  "token k v \<equiv> \<lparr>kind = k, val = v\<rparr>"

definition isRuleSpace :: "char \<Rightarrow> bool" where
  "isRuleSpace c \<longleftrightarrow> c = CHR '' '' \<or> c = CHR 0x09 \<or> c = CHR 0x0A \<or> c = CHR 0x0D"

definition isRuleQuote :: "char \<Rightarrow> bool" where
  "isRuleQuote c \<longleftrightarrow> c = CHR 0x60 \<or> c = CHR 0x22 \<or> c = CHR 0x27"

definition isRuleIdentChar :: "char \<Rightarrow> bool" where
  "isRuleIdentChar c \<longleftrightarrow> isLowerAlpha c \<or> isUpperAlpha c \<or> isDigit c"

definition singleCharTokens :: "char \<Rightarrow> ruleToken option" where
  "singleCharTokens c =
     (if c = CHR ''('' then Some (token tokLParen ''('')
      else if c = CHR '')'' then Some (token tokRParen '')'')
      else if c = CHR '','' then Some (token tokComma '','')
      else None)"

definition lexRuleIdent :: "char \<Rightarrow> string \<Rightarrow> ruleError + ruleToken option \<times> string" where
  "lexRuleIdent c rest =
     Inr (Some (token tokIdent (takeWhile isRuleIdentChar (c # rest))),
          dropWhile isRuleIdentChar (c # rest))"

definition lexRuleOperator :: "char \<Rightarrow> string \<Rightarrow> ruleError + ruleToken option \<times> string" where
  "lexRuleOperator c rest = (case rest of
       [] \<Rightarrow> Inl (SingleOperator c)
     | c2 # rest' \<Rightarrow>
         if c2 \<noteq> c then Inl (SingleOperator c)
         else if c = CHR ''&'' then Inr (Some (token tokAnd ''&&''), rest')
         else Inr (Some (token tokOr ''||''), rest'))"

definition lexRuleString :: "char \<Rightarrow> string \<Rightarrow> ruleError + ruleToken option \<times> string" where
  "lexRuleString c rest = (case cutByte rest c of
       None \<Rightarrow> Inl UnterminatedString
     | Some (body, rest') \<Rightarrow> Inr (Some (token tokString body), rest'))"

definition nextRuleToken :: "char \<Rightarrow> string \<Rightarrow> ruleError + ruleToken option \<times> string" where
  "nextRuleToken c rest =
     (if isRuleSpace c then Inr (None, rest)
      else case singleCharTokens c of
        Some tok \<Rightarrow> Inr (Some tok, rest)
      | None \<Rightarrow>
          if c = CHR ''&'' \<or> c = CHR ''|'' then lexRuleOperator c rest
          else if isRuleQuote c then lexRuleString c rest
          else if isRuleIdentChar c then lexRuleIdent c rest
          else if c = CHR ''!'' then Inl Negation
          else Inl (UnexpectedChar c))"

lemma nextRuleToken_length:
  "nextRuleToken c rest = Inr (t, rest') \<Longrightarrow> length rest' \<le> length rest"
  by (auto simp: nextRuleToken_def lexRuleOperator_def lexRuleString_def lexRuleIdent_def
      length_dropWhile_le split: if_splits option.splits list.splits dest: cutByte_length)

function lexRule :: "string \<Rightarrow> ruleError + ruleToken list" where
  "lexRule [] = Inr []"
| "lexRule (c # s) =
     bindR (nextRuleToken c s) (\<lambda>(tok, rest).
     bindR (lexRule rest) (\<lambda>toks.
     Inr (case tok of None \<Rightarrow> toks | Some t \<Rightarrow> t # toks)))"
  by pat_completeness auto
termination
  by (relation "measure length") (auto dest: nextRuleToken_length)

section \<open>Parser\<close>

datatype ruleExpr = orExpr ruleExpr ruleExpr | andExpr ruleExpr ruleExpr | fnExpr string "string list"

definition expect :: "tokKind \<Rightarrow> string \<Rightarrow> ruleToken list \<Rightarrow> ruleError + ruleToken list" where
  "expect k what ts = (case ts of
       [] \<Rightarrow> Inl (Expected what)
     | t # ts' \<Rightarrow> if kind t \<noteq> k then Inl (Expected what) else Inr ts')"

fun parseArgs :: "string \<Rightarrow> string list \<Rightarrow> ruleToken list \<Rightarrow> ruleError + string list \<times> ruleToken list" where
  "parseArgs fn args [] = Inl (UnterminatedCall fn)"
| "parseArgs fn args (at # rest) = (case kind at of
       tokString \<Rightarrow> (case rest of
           [] \<Rightarrow> Inl (UnterminatedCall fn)
         | nt # rest2 \<Rightarrow> (case kind nt of
             tokComma \<Rightarrow> (case rest2 of
                 [] \<Rightarrow> Inl (ExpectedArgument fn)
               | n2 # _ \<Rightarrow>
                   if kind n2 \<noteq> tokString then Inl (ExpectedArgument fn)
                   else parseArgs fn (args @ [val at]) rest2)
           | tokRParen \<Rightarrow> parseArgs fn (args @ [val at]) rest
           | _ \<Rightarrow> Inl (ExpectedCommaOrParen fn)))
     | tokRParen \<Rightarrow> Inr (args, rest)
     | _ \<Rightarrow> Inl (UnexpectedInCall (val at) fn))"

fun parseOr :: "nat \<Rightarrow> ruleToken list \<Rightarrow> ruleError + ruleExpr \<times> ruleToken list"
and parseOrLoop :: "nat \<Rightarrow> ruleExpr \<Rightarrow> ruleToken list \<Rightarrow> ruleError + ruleExpr \<times> ruleToken list"
and parseAnd :: "nat \<Rightarrow> ruleToken list \<Rightarrow> ruleError + ruleExpr \<times> ruleToken list"
and parseAndLoop :: "nat \<Rightarrow> ruleExpr \<Rightarrow> ruleToken list \<Rightarrow> ruleError + ruleExpr \<times> ruleToken list"
and parseTerm :: "nat \<Rightarrow> ruleToken list \<Rightarrow> ruleError + ruleExpr \<times> ruleToken list"
where
  "parseOr 0 ts = Inl OutOfFuel"
| "parseOr (Suc n) ts = bindR (parseAnd n ts) (\<lambda>(left, ts). parseOrLoop n left ts)"
| "parseOrLoop 0 left ts = Inl OutOfFuel"
| "parseOrLoop (Suc n) left ts = (case ts of
       [] \<Rightarrow> Inr (left, ts)
     | t # ts' \<Rightarrow>
         if kind t \<noteq> tokOr then Inr (left, ts)
         else bindR (parseAnd n ts') (\<lambda>(right, ts). parseOrLoop n (orExpr left right) ts))"
| "parseAnd 0 ts = Inl OutOfFuel"
| "parseAnd (Suc n) ts = bindR (parseTerm n ts) (\<lambda>(left, ts). parseAndLoop n left ts)"
| "parseAndLoop 0 left ts = Inl OutOfFuel"
| "parseAndLoop (Suc n) left ts = (case ts of
       [] \<Rightarrow> Inr (left, ts)
     | t # ts' \<Rightarrow>
         if kind t \<noteq> tokAnd then Inr (left, ts)
         else bindR (parseTerm n ts') (\<lambda>(right, ts). parseAndLoop n (andExpr left right) ts))"
| "parseTerm 0 ts = Inl OutOfFuel"
| "parseTerm (Suc n) ts = (case ts of
       [] \<Rightarrow> Inl UnexpectedEnd
     | t # ts' \<Rightarrow>
         if kind t = tokLParen then
           bindR (parseOr n ts') (\<lambda>(inner, ts).
           bindR (expect tokRParen '')'' ts) (\<lambda>ts. Inr (inner, ts)))
         else if kind t \<noteq> tokIdent then Inl (ExpectedMatcher (val t))
         else
           bindR (expect tokLParen ''('' ts') (\<lambda>ts.
           bindR (parseArgs (val t) [] ts) (\<lambda>(args, ts).
           Inr (fnExpr (val t) args, ts))))"

definition ruleFuel :: "ruleToken list \<Rightarrow> nat" where
  "ruleFuel ts = 3 * length ts + 3"

section \<open>Expansion\<close>

record conj =
  hosts :: "string list"
  peers :: "string list"
  cpath :: string
  cprefix :: bool
  pathSet :: bool

definition zeroConj :: conj where
  "zeroConj = \<lparr>hosts = [], peers = [], cpath = [], cprefix = False, pathSet = False\<rparr>"

definition maxRuleMatchers :: nat where
  "maxRuleMatchers = 64"

definition envMetaChars :: string where
  "envMetaChars = ''{}^$*+?()[]|'' @ [CHR 0x5C]"

definition literalArg :: "string \<Rightarrow> bool" where
  "literalArg s \<longleftrightarrow> \<not> containsAny s envMetaChars"

definition rulePathArg :: "string \<Rightarrow> string \<Rightarrow> ruleError + unit" where
  "rulePathArg name a =
     (if \<not> literalArg a \<or> \<not> hasPrefix a ''/'' \<or> pathHasPercent a
      then Inl (NotLiteralPath name a) else Inr ())"

definition ruleHostArg :: "string \<Rightarrow> ruleError + unit" where
  "ruleHostArg a =
     (if a = [] \<or> traefikHostForbidden a \<or> \<not> isASCII a then Inl (NotLiteralHost a) else Inr ())"

definition intersectRuleHosts :: "string list \<Rightarrow> string list \<Rightarrow> ruleError + string list" where
  "intersectRuleHosts a b =
     (if a = [] then Inr b
      else if b = [] then Inr a
      else (let intersection = concat (map (\<lambda>left. filter (\<lambda>right. left = right) b) a)
            in if intersection = [] then Inl DisjointHosts else Inr intersection))"

text \<open>
  The prefixes were printed by \<^verbatim>\<open>Prefix.String\<close>, so re-reading them succeeds; an entry that does
  not parse is Go's invalid zero \<^verbatim>\<open>Prefix\<close>, which contains nothing.
\<close>

definition prefixMeet :: "string \<Rightarrow> string \<Rightarrow> string option" where
  "prefixMeet left right = (case (ParsePrefix left, ParsePrefix right) of
       (Some l, Some r) \<Rightarrow>
         if pBits l \<le> pBits r \<and> Contains l (pAddr r) then Some right
         else if pBits r \<le> pBits l \<and> Contains r (pAddr l) then Some left
         else None
     | _ \<Rightarrow> None)"

definition intersectRulePeers :: "string list \<Rightarrow> string list \<Rightarrow> ruleError + string list" where
  "intersectRulePeers a b =
     (if a = [] then Inr b
      else if b = [] then Inr a
      else (let intersection = concat (map (\<lambda>left. List.map_filter (prefixMeet left) b) a)
            in if intersection = [] then Inl DisjointPeers else Inr (compact (sort intersection))))"

definition mergeConj :: "conj \<Rightarrow> conj \<Rightarrow> ruleError + conj" where
  "mergeConj a b =
     bindR (intersectRuleHosts (hosts a) (hosts b)) (\<lambda>hs.
     bindR (intersectRulePeers (peers a) (peers b)) (\<lambda>ps.
     let out = a\<lparr>hosts := hs, peers := ps\<rparr> in
     if pathSet b then
       (if pathSet out then Inl MultiplePaths
        else Inr (out\<lparr>cpath := cpath b, cprefix := cprefix b, pathSet := True\<rparr>))
     else Inr out))"

fun expandPairs :: "(conj \<times> conj) list \<Rightarrow> conj list \<Rightarrow> ruleError + conj list" where
  "expandPairs [] out = Inr out"
| "expandPairs ((l, r) # ps) out =
     bindR (mergeConj l r) (\<lambda>m.
     if length (out @ [m]) > maxRuleMatchers then Inl TooManyMatchers
     else expandPairs ps (out @ [m]))"

definition expandPathMatcher :: "string \<Rightarrow> string list \<Rightarrow> bool \<Rightarrow> ruleError + conj list" where
  "expandPathMatcher name args pre =
     mapR (\<lambda>a. bindR (rulePathArg name a)
       (\<lambda>_. Inr (zeroConj\<lparr>cpath := a, cprefix := pre, pathSet := True\<rparr>))) args"

text \<open>One \<^verbatim>\<open>ClientIP\<close> argument: a bare address is widened to its host prefix, then masked.\<close>

definition clientIPArg :: "string \<Rightarrow> ruleError + string" where
  "clientIPArg value =
     (let value' = (case ParseAddr value of
            Some ip \<Rightarrow> prefixString (PrefixFrom (Unmap ip) (BitLen (Unmap ip)))
          | None \<Rightarrow> value)
      in case ParsePrefix value' of
           None \<Rightarrow> Inl InvalidClientIP
         | Some p \<Rightarrow> Inr (prefixString (Masked p)))"

definition expandFn :: "string \<Rightarrow> string list \<Rightarrow> ruleError + conj list" where
  "expandFn name args =
     (if args = [] then Inl (NoArguments name)
      else if name = ''Host'' then
        bindR (mapR ruleHostArg args) (\<lambda>_. Inr [zeroConj\<lparr>hosts := args\<rparr>])
      else if name = ''ClientIP'' then
        bindR (mapR clientIPArg args) (\<lambda>cidrs. Inr [zeroConj\<lparr>peers := compact (sort cidrs)\<rparr>])
      else if name = ''Path'' \<or> name = ''PathPrefix'' then
        expandPathMatcher name args (name = ''PathPrefix'')
      else Inl (UnsupportedMatcher name))"

fun expand :: "ruleExpr \<Rightarrow> ruleError + conj list" where
  "expand (orExpr l r) = bindR (expand l) (\<lambda>ls. bindR (expand r) (\<lambda>rs. Inr (ls @ rs)))"
| "expand (andExpr l r) =
     bindR (expand l) (\<lambda>ls. bindR (expand r) (\<lambda>rs. expandPairs (List.product ls rs) []))"
| "expand (fnExpr name args) = expandFn name args"

section \<open>Rendering and the entry point\<close>

text \<open>The path operand of a conjunction, and the matcher of one of its hosts.\<close>

definition conjPath :: "conj \<Rightarrow> string \<times> PathKind" where
  "conjPath c =
     (if pathSet c then
        (if cprefix c then
           (if cpath c = ''/'' then (''/*'', PathAny) else (cpath c, PathByte))
         else (cpath c, PathExact))
      else (''/*'', PathAny))"

definition conjMatcher :: "conj \<Rightarrow> string \<Rightarrow> Matcher" where
  "conjMatcher c h =
     (let m = zeroMatcher\<lparr>Path := fst (conjPath c), PathKind := snd (conjPath c),
                PeerIPCIDRs := peers c\<rparr>
      in if toLower h \<noteq> [] then m\<lparr>Host := toLower h, HostKind := HostTraefik\<rparr> else m)"

definition conjHosts :: "conj \<Rightarrow> string list" where
  "conjHosts c = (if hosts c = [] then [[]] else hosts c)"

fun appendCapped :: "Matcher list \<Rightarrow> Matcher list \<Rightarrow> ruleError + Matcher list" where
  "appendCapped out [] = Inr out"
| "appendCapped out (m # ms) =
     (if length (out @ [m]) > maxRuleMatchers then Inl TooManyMatchers
      else appendCapped (out @ [m]) ms)"

definition conjsToMatchers :: "conj list \<Rightarrow> ruleError + Matcher list" where
  "conjsToMatchers conjs =
     appendCapped [] (concat (map (\<lambda>c. map (conjMatcher c) (conjHosts c)) conjs))"

definition parseTree :: "string \<Rightarrow> ruleError + ruleExpr" where
  "parseTree rule =
     bindR (lexRule rule) (\<lambda>toks.
     bindR (parseOr (ruleFuel toks) toks) (\<lambda>(expr, rest).
     case rest of [] \<Rightarrow> Inr expr | t # _ \<Rightarrow> Inl (TrailingToken (val t))))"

definition ParseRule :: "string \<Rightarrow> ruleError + Matcher list" where
  "ParseRule rule =
     bindR (parseTree rule) (\<lambda>expr.
     bindR (expand expr) (\<lambda>conjs.
     conjsToMatchers conjs))"

section \<open>The fuel suffices\<close>

text \<open>Every parsing method consumes at least one token.\<close>

lemma expect_length: "expect k w ts = Inr ts' \<Longrightarrow> length ts = Suc (length ts')"
  by (auto simp: expect_def split: list.splits if_splits)

lemma parseArgs_length: "parseArgs fn args ts = Inr (as, ts') \<Longrightarrow> length ts' < length ts"
  by (induction fn args ts rule: parseArgs.induct)
     (auto split: tokKind.splits list.splits if_splits)

lemma parse_length:
  "parseOr n ts = Inr (e, ts') \<Longrightarrow> length ts' < length ts"
  "parseOrLoop n l ts = Inr (e, ts') \<Longrightarrow> length ts' \<le> length ts"
  "parseAnd n ts = Inr (e, ts') \<Longrightarrow> length ts' < length ts"
  "parseAndLoop n l ts = Inr (e, ts') \<Longrightarrow> length ts' \<le> length ts"
  "parseTerm n ts = Inr (e, ts') \<Longrightarrow> length ts' < length ts"
proof (induction n ts and n l ts and n ts and n l ts and n ts arbitrary: e ts' and e ts' and e ts' and e ts' and e ts'
    rule: parseOr_parseOrLoop_parseAnd_parseAndLoop_parseTerm.induct)
  case (10 n ts)
  then show ?case
    by (fastforce simp: bindR_Inr_iff split: list.splits if_splits dest: expect_length parseArgs_length)
qed (fastforce simp: bindR_Inr_iff split: list.splits if_splits)+

lemma parseArgs_fuel: "parseArgs fn args ts \<noteq> Inl OutOfFuel"
  by (induction fn args ts rule: parseArgs.induct)
     (auto split: tokKind.splits list.splits if_splits)

lemma parse_fuel:
  "3 * length ts + 3 \<le> n \<Longrightarrow> parseOr n ts \<noteq> Inl OutOfFuel"
  "3 * length ts + 1 \<le> n \<Longrightarrow> parseOrLoop n l ts \<noteq> Inl OutOfFuel"
  "3 * length ts + 2 \<le> n \<Longrightarrow> parseAnd n ts \<noteq> Inl OutOfFuel"
  "3 * length ts + 1 \<le> n \<Longrightarrow> parseAndLoop n l ts \<noteq> Inl OutOfFuel"
  "3 * length ts + 1 \<le> n \<Longrightarrow> parseTerm n ts \<noteq> Inl OutOfFuel"
proof (induction n ts and n l ts and n ts and n l ts and n ts
    rule: parseOr_parseOrLoop_parseAnd_parseAndLoop_parseTerm.induct)
  case (2 n ts)
  then show ?case
    by (fastforce simp: bindR_Inl_iff dest: parse_length)
next
  case (4 n left ts)
  show ?case
  proof (cases ts)
    case (Cons t ts')
    have "parseAnd n ts' \<noteq> Inl OutOfFuel" if "kind t = tokOr"
      using that Cons "4.IH"(1) "4.prems" by simp
    moreover have "parseOrLoop n (orExpr left r) us \<noteq> Inl OutOfFuel"
      if "kind t = tokOr" and "parseAnd n ts' = Inr (r, us)" for r us
      using that Cons "4.IH"(2) "4.prems" parse_length(3,5) by fastforce
    ultimately show ?thesis
      using Cons by (auto simp: bindR_Inl_iff)
  qed simp
next
  case (6 n ts)
  then show ?case
    by (fastforce simp: bindR_Inl_iff dest: parse_length)
next
  case (8 n left ts)
  show ?case
  proof (cases ts)
    case (Cons t ts')
    have "parseTerm n ts' \<noteq> Inl OutOfFuel" if "kind t = tokAnd"
      using that Cons "8.IH"(1) "8.prems" by simp
    moreover have "parseAndLoop n (andExpr left r) us \<noteq> Inl OutOfFuel"
      if "kind t = tokAnd" and "parseTerm n ts' = Inr (r, us)" for r us
      using that Cons "8.IH"(2) "8.prems" parse_length(3,5) by fastforce
    ultimately show ?thesis
      using Cons by (auto simp: bindR_Inl_iff)
  qed simp
next
  case (10 n ts)
  then show ?case
    by (auto simp: bindR_Inl_iff expect_def parseArgs_fuel split: list.splits if_splits)
qed auto

section \<open>What a rule and its expansion accept\<close>

text \<open>
  A request as the dispatcher sees it: the host without its port, the decoded path and the
  address of the peer (unmapped, without zone).
\<close>

record request =
  rqHost :: string
  rqPath :: string
  rqPeer :: Addr

definition inCIDR :: "Addr \<Rightarrow> string \<Rightarrow> bool" where
  "inCIDR a cidr \<longleftrightarrow> (case ParsePrefix cidr of None \<Rightarrow> False | Some p \<Rightarrow> Contains p a)"

definition peerAllowed :: "string list \<Rightarrow> Addr \<Rightarrow> bool" where
  "peerAllowed cidrs a \<longleftrightarrow> cidrs = [] \<or> list_ex (inCIDR a) cidrs"

definition hostsAllow :: "string list \<Rightarrow> string \<Rightarrow> bool" where
  "hostsAllow hs h \<longleftrightarrow> hs = [] \<or> list_ex (\<lambda>c. matchTraefikHost c h) hs"

definition conjPathAllows :: "conj \<Rightarrow> string \<Rightarrow> bool" where
  "conjPathAllows c p \<longleftrightarrow>
     (pathSet c \<longrightarrow> (if cprefix c then hasPrefix p (cpath c) else p = cpath c))"

definition conjMatches :: "conj \<Rightarrow> request \<Rightarrow> bool" where
  "conjMatches c q \<longleftrightarrow> hostsAllow (hosts c) (rqHost q) \<and> peerAllowed (peers c) (rqPeer q) \<and>
     conjPathAllows c (rqPath q)"

definition matcherMatches :: "Matcher \<Rightarrow> request \<Rightarrow> bool" where
  "matcherMatches m q \<longleftrightarrow> Match m (rqHost q) (rqPath q) \<and> peerAllowed (PeerIPCIDRs m) (rqPeer q)"

text \<open>The meaning of a rule tree over the four matchers \<^verbatim>\<open>ParseRule\<close> supports.\<close>

definition fnSem :: "string \<Rightarrow> string list \<Rightarrow> request \<Rightarrow> bool" where
  "fnSem name args q =
     (if name = ''Host'' then list_ex (\<lambda>a. matchTraefikHost a (rqHost q)) args
      else if name = ''ClientIP'' then
        list_ex (\<lambda>a. case clientIPArg a of Inr c \<Rightarrow> inCIDR (rqPeer q) c | Inl _ \<Rightarrow> False) args
      else if name = ''Path'' then list_ex (\<lambda>a. rqPath q = a) args
      else if name = ''PathPrefix'' then list_ex (\<lambda>a. hasPrefix (rqPath q) a) args
      else False)"

fun ruleSem :: "ruleExpr \<Rightarrow> request \<Rightarrow> bool" where
  "ruleSem (orExpr l r) q = (ruleSem l q \<or> ruleSem r q)"
| "ruleSem (andExpr l r) q = (ruleSem l q \<and> ruleSem r q)"
| "ruleSem (fnExpr name args) q = fnSem name args q"

text \<open>
  A host is in canonical spelling when it is lower case and does not end in a dot: the spelling
  in which string equality and \<^const>\<open>matchTraefikHost\<close> agree.
\<close>

definition canonicalHost :: "string \<Rightarrow> bool" where
  "canonicalHost h \<longleftrightarrow> toLower h = h \<and> \<not> hasSuffix h ''.''"

fun canonicalRule :: "ruleExpr \<Rightarrow> bool" where
  "canonicalRule (orExpr l r) = (canonicalRule l \<and> canonicalRule r)"
| "canonicalRule (andExpr l r) = (canonicalRule l \<and> canonicalRule r)"
| "canonicalRule (fnExpr name args) = (name = ''Host'' \<longrightarrow> list_all canonicalHost args)"

lemma canonicalHost_unique:
  assumes "canonicalHost a" "canonicalHost b" "matchTraefikHost a h" "matchTraefikHost b h"
  shows "a = b"
  using assms unfolding canonicalHost_def matchTraefikHost_iff hasSuffix_iff by auto

subsection \<open>Meeting constraints\<close>

lemma intersectRuleHosts_set:
  "intersectRuleHosts a b = Inr hs \<Longrightarrow> a \<noteq> [] \<Longrightarrow> b \<noteq> [] \<Longrightarrow> hs \<noteq> [] \<and> set hs = set a \<inter> set b"
  by (auto simp: intersectRuleHosts_def Let_def split: if_splits)

lemma intersectRuleHosts_subset:
  "intersectRuleHosts a b = Inr hs \<Longrightarrow> set hs \<subseteq> set a \<union> set b"
  by (auto simp: intersectRuleHosts_def Let_def split: if_splits)

lemma intersectRuleHosts_sound:
  assumes "intersectRuleHosts a b = Inr hs" and "hostsAllow hs h"
  shows "hostsAllow a h \<and> hostsAllow b h"
proof (cases "a = [] \<or> b = []")
  case True
  with assms show ?thesis by (auto simp: intersectRuleHosts_def hostsAllow_def split: if_splits)
next
  case False
  with assms show ?thesis
    using intersectRuleHosts_set[OF assms(1)] by (auto simp: hostsAllow_def list_ex_iff)
qed

lemma intersectRuleHosts_exact:
  assumes "intersectRuleHosts a b = Inr hs" and "list_all canonicalHost a" and "list_all canonicalHost b"
  shows "hostsAllow hs h \<longleftrightarrow> hostsAllow a h \<and> hostsAllow b h"
proof (cases "a = [] \<or> b = []")
  case True
  with assms show ?thesis by (auto simp: intersectRuleHosts_def hostsAllow_def split: if_splits)
next
  case False
  then have "hs \<noteq> []" "set hs = set a \<inter> set b"
    using intersectRuleHosts_set[OF assms(1)] by auto
  with False assms(2,3) show ?thesis
    by (auto simp: hostsAllow_def list_ex_iff list_all_iff dest: canonicalHost_unique)
qed

lemma prefixMeet_exact:
  "(\<exists>c. prefixMeet l r = Some c \<and> inCIDR a c) \<longleftrightarrow> inCIDR a l \<and> inCIDR a r"
proof (cases "ParsePrefix l"; cases "ParsePrefix r")
  fix pl pr
  assume p: "ParsePrefix l = Some pl" "ParsePrefix r = Some pr"
  have "Contains pl a" if "pBits pl \<le> pBits pr" "Contains pl (pAddr pr)" "Contains pr a"
    using Contains_nested[OF that(2,1) ParsePrefix_OK[OF p(2)] that(3)] .
  moreover have "Contains pr a" if "pBits pr \<le> pBits pl" "Contains pr (pAddr pl)" "Contains pl a"
    using Contains_nested[OF that(2,1) ParsePrefix_OK[OF p(1)] that(3)] .
  moreover have "pBits pl \<le> pBits pr \<and> Contains pl (pAddr pr) \<or>
      pBits pr \<le> pBits pl \<and> Contains pr (pAddr pl)" if "Contains pl a" "Contains pr a"
    using Contains_overlap[OF that(1,2) _ ParsePrefix_OK[OF p(2)]]
      Contains_overlap[OF that(2,1) _ ParsePrefix_OK[OF p(1)]] nat_le_linear[of "pBits pl" "pBits pr"]
    by blast
  ultimately show ?thesis
    unfolding prefixMeet_def inCIDR_def p option.case prod.case
    by (simp only: p option.case if_split_eq1 option.inject) (smt (verit) option.distinct(1) option.sel p option.case)
qed (auto simp: prefixMeet_def inCIDR_def)

lemma set_intersection_peers:
  "set (concat (map (\<lambda>l. List.map_filter (prefixMeet l) b) a)) =
     {c. \<exists>l\<in>set a. \<exists>r\<in>set b. prefixMeet l r = Some c}"
  by (force simp: map_filter_def image_iff)

lemma intersectRulePeers_exact:
  assumes "intersectRulePeers a b = Inr ps"
  shows "peerAllowed ps x \<longleftrightarrow> peerAllowed a x \<and> peerAllowed b x"
proof (cases "a = [] \<or> b = []")
  case True
  with assms show ?thesis by (auto simp: intersectRulePeers_def peerAllowed_def split: if_splits)
next
  case False
  let ?i = "concat (map (\<lambda>l. List.map_filter (prefixMeet l) b) a)"
  from False assms have ps: "?i \<noteq> []" "ps = compact (sort ?i)"
    by (auto simp: intersectRulePeers_def Let_def split: if_splits)
  then have "set ps = set ?i" by (simp only: set_compact set_sort)
  then have "ps \<noteq> []" using ps(1) by (metis set_empty)
  then have "peerAllowed ps x \<longleftrightarrow> (\<exists>c\<in>set ?i. inCIDR x c)"
    using \<open>set ps = set ?i\<close> by (auto simp only: peerAllowed_def list_ex_iff)
  also have "\<dots> \<longleftrightarrow> (\<exists>l\<in>set a. \<exists>r\<in>set b. inCIDR x l \<and> inCIDR x r)"
    unfolding set_intersection_peers using prefixMeet_exact by blast
  also have "\<dots> \<longleftrightarrow> peerAllowed a x \<and> peerAllowed b x"
    using False by (auto simp: peerAllowed_def list_ex_iff)
  finally show ?thesis .
qed

subsection \<open>Merging, expanding, rendering\<close>

text \<open>The conjunctions expansion produces: literal non-empty hosts and a rooted literal path.\<close>

definition wfConj :: "conj \<Rightarrow> bool" where
  "wfConj c \<longleftrightarrow> list_all (\<lambda>h. h \<noteq> []) (hosts c) \<and> (pathSet c \<longrightarrow> rooted (cpath c))"

definition canonicalConj :: "conj \<Rightarrow> bool" where
  "canonicalConj c \<longleftrightarrow> list_all canonicalHost (hosts c)"

lemma mergeConj_parts:
  assumes "mergeConj a b = Inr c"
  shows "intersectRuleHosts (hosts a) (hosts b) = Inr (hosts c)"
    and "intersectRulePeers (peers a) (peers b) = Inr (peers c)"
    and "conjPathAllows c p \<longleftrightarrow> conjPathAllows a p \<and> conjPathAllows b p"
    and "pathSet c \<longrightarrow> (pathSet a \<and> cpath c = cpath a) \<or> (pathSet b \<and> cpath c = cpath b)"
  using assms
  by (cases a; cases b; auto simp: mergeConj_def bindR_Inr_iff Let_def conjPathAllows_def split: if_splits)+

lemma mergeConj_wf:
  assumes "mergeConj a b = Inr c" and "wfConj a" and "wfConj b"
  shows "wfConj c"
  using mergeConj_parts(1,4)[OF assms(1)] intersectRuleHosts_subset assms(2,3)
  by (fastforce simp: wfConj_def list_all_iff)

lemma mergeConj_canonical:
  assumes "mergeConj a b = Inr c" and "canonicalConj a" and "canonicalConj b"
  shows "canonicalConj c"
  using intersectRuleHosts_subset[OF mergeConj_parts(1)[OF assms(1)]] assms(2,3)
  by (auto simp: canonicalConj_def list_all_iff)

lemma mergeConj_sound:
  assumes "mergeConj a b = Inr c" and "conjMatches c q"
  shows "conjMatches a q \<and> conjMatches b q"
  using assms(2) intersectRuleHosts_sound[OF mergeConj_parts(1)[OF assms(1)]]
    intersectRulePeers_exact[OF mergeConj_parts(2)[OF assms(1)]] mergeConj_parts(3)[OF assms(1)]
  by (simp add: conjMatches_def)

lemma mergeConj_exact:
  assumes "mergeConj a b = Inr c" and "canonicalConj a" and "canonicalConj b"
  shows "conjMatches c q \<longleftrightarrow> conjMatches a q \<and> conjMatches b q"
  using assms(2,3) intersectRuleHosts_exact[OF mergeConj_parts(1)[OF assms(1)]]
    intersectRulePeers_exact[OF mergeConj_parts(2)[OF assms(1)]] mergeConj_parts(3)[OF assms(1)]
  by (auto simp: conjMatches_def canonicalConj_def)

lemma expandPairs_mapR:
  "expandPairs ps out = Inr cs \<Longrightarrow> \<exists>ms. cs = out @ ms \<and> mapR (\<lambda>(l, r). mergeConj l r) ps = Inr ms"
proof (induction ps out rule: expandPairs.induct)
  case (2 l r ps out)
  then obtain m where m: "mergeConj l r = Inr m" "expandPairs ps (out @ [m]) = Inr cs"
    by (auto simp: bindR_Inr_iff split: if_splits)
  with 2 obtain ms where "cs = (out @ [m]) @ ms" "mapR (\<lambda>(l, r). mergeConj l r) ps = Inr ms"
    by (auto simp: bindR_Inr_iff split: if_splits)
  with m show ?case by (intro exI[of _ "m # ms"]) simp
qed simp

lemma expandPairs_bound:
  "expandPairs ps out = Inr cs \<Longrightarrow> length out \<le> maxRuleMatchers \<Longrightarrow> length cs \<le> maxRuleMatchers"
  by (induction ps out rule: expandPairs.induct) (auto simp: bindR_Inr_iff split: if_splits)

text \<open>The members of the expanded product are exactly the merged pairs.\<close>

lemma expandPairs_members:
  assumes "expandPairs (List.product ls rs) [] = Inr cs"
  shows "c \<in> set cs \<longleftrightarrow> (\<exists>l\<in>set ls. \<exists>r\<in>set rs. mergeConj l r = Inr c)"
    and "l \<in> set ls \<Longrightarrow> r \<in> set rs \<Longrightarrow> \<exists>c\<in>set cs. mergeConj l r = Inr c"
  using expandPairs_mapR[OF assms] mapR_set[of "\<lambda>(l, r). mergeConj l r" "List.product ls rs" cs]
    mapR_total[of "\<lambda>(l, r). mergeConj l r" "List.product ls rs" cs "(l, r)"]
  by auto

definition pathConj :: "string \<Rightarrow> bool \<Rightarrow> conj" where
  "pathConj a pre = zeroConj\<lparr>cpath := a, cprefix := pre, pathSet := True\<rparr>"

lemma expandPathMatcher_Inr:
  "expandPathMatcher name args pre = Inr cs \<Longrightarrow>
     cs = map (\<lambda>a. pathConj a pre) args \<and> list_all rooted args"
  unfolding expandPathMatcher_def
  by (induction args arbitrary: cs)
     (auto simp: bindR_Inr_iff rulePathArg_def rooted_def pathConj_def split: if_splits)

lemma ruleHostArgs_Inr: "mapR ruleHostArg args = Inr us \<Longrightarrow> list_all (\<lambda>h. h \<noteq> []) args"
  by (induction args arbitrary: us) (auto simp: bindR_Inr_iff ruleHostArg_def split: if_splits)

text \<open>What one matcher expands to.\<close>

lemma expandFn_cases:
  assumes "expandFn name args = Inr cs"
  obtains (Host) "name = ''Host''" "cs = [zeroConj\<lparr>hosts := args\<rparr>]" "args \<noteq> []"
      "list_all (\<lambda>h. h \<noteq> []) args"
    | (ClientIP) cidrs where "name = ''ClientIP''" "args \<noteq> []" "mapR clientIPArg args = Inr cidrs"
      "cs = [zeroConj\<lparr>peers := compact (sort cidrs)\<rparr>]"
    | (Path) "name = ''Path'' \<or> name = ''PathPrefix''" "list_all rooted args"
      "cs = map (\<lambda>a. pathConj a (name = ''PathPrefix'')) args"
proof -
  have ne: "args \<noteq> []" using assms by (auto simp: expandFn_def split: if_splits)
  consider "name = ''Host''" | "name = ''ClientIP''" | "name = ''Path'' \<or> name = ''PathPrefix''"
    using assms by (auto simp: expandFn_def split: if_splits)
  then show thesis
  proof cases
    case 1
    with assms ne show thesis
      by (intro Host) (auto simp: expandFn_def bindR_Inr_iff ruleHostArgs_Inr)
  next
    case 2
    with assms ne show thesis by (auto simp: expandFn_def bindR_Inr_iff intro: ClientIP)
  next
    case 3
    with assms ne have "expandPathMatcher name args (name = ''PathPrefix'') = Inr cs"
      by (auto simp: expandFn_def)
    from expandPathMatcher_Inr[OF this] 3 show thesis by (intro Path) auto
  qed
qed

lemma expandFn_wf: "expandFn name args = Inr cs \<Longrightarrow> c \<in> set cs \<Longrightarrow> wfConj c"
  by (erule expandFn_cases) (auto simp: wfConj_def zeroConj_def pathConj_def list_all_iff)

lemma expandFn_canonical:
  "expandFn name args = Inr cs \<Longrightarrow> canonicalRule (fnExpr name args) \<Longrightarrow> c \<in> set cs \<Longrightarrow> canonicalConj c"
  by (erule expandFn_cases) (auto simp: canonicalConj_def zeroConj_def pathConj_def)

lemma clientIPArgs_exact:
  assumes "mapR clientIPArg args = Inr cidrs"
  shows "list_ex (inCIDR x) cidrs \<longleftrightarrow>
    list_ex (\<lambda>a. case clientIPArg a of Inr c \<Rightarrow> inCIDR x c | Inl _ \<Rightarrow> False) args"
  using assms by (induction args arbitrary: cidrs) (auto simp: bindR_Inr_iff)

lemma expandFn_exact:
  assumes "expandFn name args = Inr cs"
  shows "list_ex (\<lambda>c. conjMatches c q) cs \<longleftrightarrow> fnSem name args q"
  using assms
proof (cases rule: expandFn_cases)
  case Host
  then show ?thesis
    by (simp add: fnSem_def conjMatches_def zeroConj_def hostsAllow_def peerAllowed_def conjPathAllows_def)
next
  case (ClientIP cidrs)
  then have "cidrs \<noteq> []" by (cases args) (auto simp: bindR_Inr_iff)
  then have "compact (sort cidrs) \<noteq> []"
    by (metis set_compact set_empty set_sort)
  with ClientIP show ?thesis
    using clientIPArgs_exact[OF ClientIP(3), of "rqPeer q"]
    by (simp add: fnSem_def conjMatches_def zeroConj_def hostsAllow_def peerAllowed_def
        conjPathAllows_def list_ex_iff set_compact)
next
  case Path
  then show ?thesis
    by (auto simp: list_ex_iff fnSem_def conjMatches_def zeroConj_def pathConj_def hostsAllow_def
        peerAllowed_def conjPathAllows_def)
qed

lemma expand_wf: "expand e = Inr cs \<Longrightarrow> c \<in> set cs \<Longrightarrow> wfConj c"
proof (induction e arbitrary: cs c)
  case (orExpr l r)
  then show ?case by (simp add: bindR_Inr_iff) (metis Un_iff set_append)
next
  case (andExpr l r)
  then obtain ls rs where e: "expand l = Inr ls" "expand r = Inr rs" "expandPairs (List.product ls rs) [] = Inr cs"
    by (auto simp: bindR_Inr_iff)
  with andExpr.prems(2) show ?case
    using andExpr.IH mergeConj_wf expandPairs_members(1)[OF e(3)] by blast
qed (simp add: expandFn_wf)

lemma expand_canonical:
  "expand e = Inr cs \<Longrightarrow> canonicalRule e \<Longrightarrow> c \<in> set cs \<Longrightarrow> canonicalConj c"
proof (induction e arbitrary: cs c)
  case (orExpr l r)
  then show ?case by (simp add: bindR_Inr_iff) (metis Un_iff set_append)
next
  case (andExpr l r)
  then obtain ls rs where e: "expand l = Inr ls" "expand r = Inr rs" "expandPairs (List.product ls rs) [] = Inr cs"
    by (auto simp: bindR_Inr_iff)
  with andExpr.prems(2,3) show ?case
    using andExpr.IH mergeConj_canonical expandPairs_members(1)[OF e(3)] by (metis canonicalRule.simps(2))
qed (use expandFn_canonical in auto)

lemma expand_sound:
  "expand e = Inr cs \<Longrightarrow> c \<in> set cs \<Longrightarrow> conjMatches c q \<Longrightarrow> ruleSem e q"
proof (induction e arbitrary: cs c)
  case (orExpr l r)
  then show ?case by (simp add: bindR_Inr_iff) (metis Un_iff set_append)
next
  case (andExpr l r)
  then obtain ls rs where e: "expand l = Inr ls" "expand r = Inr rs" "expandPairs (List.product ls rs) [] = Inr cs"
    by (auto simp: bindR_Inr_iff)
  with andExpr.prems(2,3) show ?case
    using andExpr.IH mergeConj_sound expandPairs_members(1)[OF e(3)] by (metis ruleSem.simps(2))
next
  case (fnExpr name args)
  then show ?case using expandFn_exact[of name args cs q] by (auto simp: list_ex_iff)
qed

lemma expand_complete:
  "expand e = Inr cs \<Longrightarrow> canonicalRule e \<Longrightarrow> ruleSem e q \<Longrightarrow> \<exists>c\<in>set cs. conjMatches c q"
proof (induction e arbitrary: cs)
  case (orExpr l r)
  then show ?case by (simp add: bindR_Inr_iff) (metis Un_iff set_append)
next
  case (andExpr l r)
  then obtain ls rs where e: "expand l = Inr ls" "expand r = Inr rs" "expandPairs (List.product ls rs) [] = Inr cs"
    by (auto simp: bindR_Inr_iff)
  have "canonicalRule l" "canonicalRule r" "ruleSem l q" "ruleSem r q"
    using andExpr.prems(2,3) by auto
  then obtain cl cr where c: "cl \<in> set ls" "conjMatches cl q" "cr \<in> set rs" "conjMatches cr q"
    using andExpr.IH(1)[OF e(1)] andExpr.IH(2)[OF e(2)] by blast
  from expandPairs_members(2)[OF e(3) c(1,3)] obtain c where "c \<in> set cs" "mergeConj cl cr = Inr c"
    by blast
  moreover have "canonicalConj cl" "canonicalConj cr"
    using andExpr.prems(2) expand_canonical e(1,2) c(1,3) by auto
  ultimately show ?case using c mergeConj_exact by blast
next
  case (fnExpr name args)
  then show ?case using expandFn_exact[of name args cs q] by (auto simp: list_ex_iff)
qed

subsection \<open>Rendering conjunctions as matchers\<close>

lemma appendCapped_Inr:
  "appendCapped out ms = Inr r \<Longrightarrow> r = out @ ms"
  by (induction out ms rule: appendCapped.induct) (auto split: if_splits)

lemma appendCapped_bound:
  "appendCapped out ms = Inr r \<Longrightarrow> length out \<le> maxRuleMatchers \<Longrightarrow> length r \<le> maxRuleMatchers"
  by (induction out ms rule: appendCapped.induct) (auto split: if_splits)

lemma conjsToMatchers_set:
  "conjsToMatchers cs = Inr ms \<Longrightarrow> m \<in> set ms \<longleftrightarrow> (\<exists>c\<in>set cs. \<exists>h\<in>set (conjHosts c). m = conjMatcher c h)"
  by (force simp: conjsToMatchers_def dest!: appendCapped_Inr)

lemma conjMatcher_path:
  "rooted p \<Longrightarrow> matchPath (conjMatcher c h) p \<longleftrightarrow> conjPathAllows c p"
  by (auto simp: conjMatcher_def Let_def matchPath_def conjPath_def conjPathAllows_def rooted_def zeroMatcher_def)

lemma conjMatcher_host:
  "matchHost (conjMatcher c h) x \<longleftrightarrow> h = [] \<or> matchTraefikHost h x"
proof -
  have "toLower h = [] \<longleftrightarrow> h = []" by (simp add: toLower_def)
  then show ?thesis by (simp add: conjMatcher_def Let_def matchHost_def zeroMatcher_def)
qed

lemma conjMatcher_peers [simp]: "PeerIPCIDRs (conjMatcher c h) = peers c"
  by (simp add: conjMatcher_def Let_def)

lemma conjMatcher_exact:
  assumes "wfConj c" and "rooted (rqPath q)"
  shows "(\<exists>h\<in>set (conjHosts c). matcherMatches (conjMatcher c h) q) \<longleftrightarrow> conjMatches c q"
  using assms
  by (auto simp: matcherMatches_def Match_def conjMatcher_path conjMatcher_host conjMatches_def
      conjHosts_def hostsAllow_def wfConj_def list_all_iff list_ex_iff)

lemma conjMatcher_wf: "wfConj c \<Longrightarrow> wfMatcher (conjMatcher c h)"
  by (auto simp: conjMatcher_def Let_def wfMatcher_def wfConj_def conjPath_def zeroMatcher_def)

lemma conjsToMatchers_exact:
  assumes "conjsToMatchers cs = Inr ms" and "\<And>c. c \<in> set cs \<Longrightarrow> wfConj c" and "rooted (rqPath q)"
  shows "(\<exists>m\<in>set ms. matcherMatches m q) \<longleftrightarrow> (\<exists>c\<in>set cs. conjMatches c q)"
proof -
  have "(\<exists>m\<in>set ms. matcherMatches m q) \<longleftrightarrow>
      (\<exists>c\<in>set cs. \<exists>h\<in>set (conjHosts c). matcherMatches (conjMatcher c h) q)"
    using conjsToMatchers_set[OF assms(1)] by metis
  then show ?thesis using conjMatcher_exact assms(2,3) by blast
qed

lemma ParseRule_Inr:
  assumes "ParseRule rule = Inr ms"
  obtains e cs where "parseTree rule = Inr e" "expand e = Inr cs" "conjsToMatchers cs = Inr ms"
  using assms by (auto simp: ParseRule_def bindR_Inr_iff)

section \<open>Properties of ParseRule\<close>

text \<open>
  C18: A rule that parses compiles to matchers that never claim a request the rule does not match.
  For every rooted request path, whatever one of the returned matchers accepts (host, path and the
  peer's address range together) satisfies the rule's boolean formula.
\<close>

theorem ParseRule_sound:
  assumes "ParseRule rule = Inr ms" and "parseTree rule = Inr e"
    and "m \<in> set ms" and "rooted (rqPath q)" and "matcherMatches m q"
  shows "ruleSem e q"
proof -
  from assms(1,2) obtain cs where "expand e = Inr cs" "conjsToMatchers cs = Inr ms"
    by (auto elim: ParseRule_Inr)
  with assms(3-5) show ?thesis
    using conjsToMatchers_exact expand_wf expand_sound by blast
qed

theorem ParseRule_sound_witness:
  "ruleSem (andExpr (fnExpr ''Host'' [''a.io'']) (fnExpr ''PathPrefix'' [''/x'']))
     \<lparr>rqHost = ''A.io'', rqPath = ''/xy'', rqPeer = V4 1\<rparr>"
proof (rule ParseRule_sound[where rule = "''Host(`a.io`) && PathPrefix(`/x`)''"])
  show "ParseRule ''Host(`a.io`) && PathPrefix(`/x`)'' =
      Inr [zeroMatcher\<lparr>Host := ''a.io'', HostKind := HostTraefik, Path := ''/x'', PathKind := PathByte\<rparr>]"
    by code_simp
  show "zeroMatcher\<lparr>Host := ''a.io'', HostKind := HostTraefik, Path := ''/x'', PathKind := PathByte\<rparr>
      \<in> set [zeroMatcher\<lparr>Host := ''a.io'', HostKind := HostTraefik, Path := ''/x'', PathKind := PathByte\<rparr>]"
    by simp
qed code_simp+

text \<open>
  C5: When every \<^verbatim>\<open>Host\<close> argument is spelled canonically (lower case, no trailing dot), the compiled
  matchers are exact: on rooted paths they accept the requests the rule accepts and no others.
\<close>

theorem ParseRule_exact:
  assumes "ParseRule rule = Inr ms" and "parseTree rule = Inr e"
    and "canonicalRule e" and "rooted (rqPath q)"
  shows "(\<exists>m\<in>set ms. matcherMatches m q) \<longleftrightarrow> ruleSem e q"
proof -
  from assms(1,2) obtain cs where cs: "expand e = Inr cs" "conjsToMatchers cs = Inr ms"
    by (auto elim: ParseRule_Inr)
  then have "(\<exists>m\<in>set ms. matcherMatches m q) \<longleftrightarrow> (\<exists>c\<in>set cs. conjMatches c q)"
    using conjsToMatchers_exact expand_wf assms(4) by blast
  then show ?thesis using expand_sound[OF cs(1)] expand_complete[OF cs(1) assms(3)] by blast
qed

theorem ParseRule_exact_witness:
  "(\<exists>m\<in>set [zeroMatcher\<lparr>Host := ''a.io'', HostKind := HostTraefik, Path := ''/x'', PathKind := PathExact\<rparr>].
      matcherMatches m \<lparr>rqHost = ''a.io'', rqPath = ''/xy'', rqPeer = V4 1\<rparr>) \<longleftrightarrow>
   ruleSem (andExpr (fnExpr ''Host'' [''a.io'']) (fnExpr ''Path'' [''/x'']))
     \<lparr>rqHost = ''a.io'', rqPath = ''/xy'', rqPeer = V4 1\<rparr>"
  by (rule ParseRule_exact[where rule = "''Host(`a.io`) && Path(`/x`)''"]) code_simp+

text \<open>
  Without canonical spelling the compilation can lose traffic: the two conjuncts of this rule
  both match host \<^verbatim>\<open>a\<close>, the rule parses, and no compiled matcher accepts \<^verbatim>\<open>a\<close>, because the host lists
  are intersected by spelling.
\<close>

theorem ParseRule_host_spelling_loss:
  "\<exists>ms e. ParseRule ''Host(`a`,`b`) && Host(`A`,`b`)'' = Inr ms \<and>
     parseTree ''Host(`a`,`b`) && Host(`A`,`b`)'' = Inr e \<and>
     ruleSem e \<lparr>rqHost = ''a'', rqPath = ''/'', rqPeer = V4 1\<rparr> \<and>
     \<not> list_ex (\<lambda>m. matcherMatches m \<lparr>rqHost = ''a'', rqPath = ''/'', rqPeer = V4 1\<rparr>) ms"
proof (intro exI conjI)
  show "ParseRule ''Host(`a`,`b`) && Host(`A`,`b`)'' =
      Inr [zeroMatcher\<lparr>Host := ''b'', HostKind := HostTraefik, Path := ''/*''\<rparr>]"
    by code_simp
  show "parseTree ''Host(`a`,`b`) && Host(`A`,`b`)'' =
      Inr (andExpr (fnExpr ''Host'' [''a'', ''b'']) (fnExpr ''Host'' [''A'', ''b'']))"
    by code_simp
qed code_simp+

text \<open>
  What \<^verbatim>\<open>ParseRule\<close> returns is within the matcher budget and well formed: at most 64 matchers, each
  host constraint non-empty, each path rooted.
\<close>

theorem ParseRule_budget:
  assumes "ParseRule rule = Inr ms"
  shows "length ms \<le> maxRuleMatchers \<and> list_all wfMatcher ms"
proof -
  from assms obtain e cs where cs: "expand e = Inr cs" "conjsToMatchers cs = Inr ms"
    by (auto elim: ParseRule_Inr)
  then have "length ms \<le> maxRuleMatchers"
    by (auto simp: conjsToMatchers_def intro: appendCapped_bound[where out = "[]"])
  moreover have "wfMatcher m" if "m \<in> set ms" for m
    using conjsToMatchers_set[OF cs(2), of m] expand_wf[OF cs(1)] conjMatcher_wf that by auto
  ultimately show ?thesis by (simp add: list_all_iff)
qed

theorem ParseRule_budget_witness:
  "length [zeroMatcher\<lparr>Host := ''b'', HostKind := HostTraefik, Path := ''/*''\<rparr>] \<le> maxRuleMatchers \<and>
   list_all wfMatcher [zeroMatcher\<lparr>Host := ''b'', HostKind := HostTraefik, Path := ''/*''\<rparr>]"
  by (rule ParseRule_budget[where rule = "''Host(`b`)''"]) code_simp

lemma nextRuleToken_fuel: "nextRuleToken c rest \<noteq> Inl OutOfFuel"
  by (auto simp: nextRuleToken_def lexRuleOperator_def lexRuleString_def lexRuleIdent_def
      split: option.splits list.splits)

lemma lexRule_fuel: "lexRule s \<noteq> Inl OutOfFuel"
proof (induction s rule: lexRule.induct)
  case (2 c s)
  then show ?case
    by (cases "nextRuleToken c s") (auto simp: bindR_Inl_iff nextRuleToken_fuel)
qed simp

lemma mergeConj_fuel: "mergeConj a b \<noteq> Inl OutOfFuel"
  by (auto simp: mergeConj_def bindR_Inl_iff Let_def intersectRuleHosts_def intersectRulePeers_def)

lemma expandPairs_fuel: "expandPairs ps out \<noteq> Inl OutOfFuel"
  by (induction ps out rule: expandPairs.induct) (auto simp: bindR_Inl_iff mergeConj_fuel)

lemma mapR_fuel: "(\<And>x. f x \<noteq> Inl e) \<Longrightarrow> mapR f xs \<noteq> Inl e"
  by (induction xs) (auto simp: bindR_Inl_iff)

lemma expand_fuel: "expand e \<noteq> Inl OutOfFuel"
proof (induction e)
  case (fnExpr name args)
  have "mapR ruleHostArg args \<noteq> Inl OutOfFuel"
    by (rule mapR_fuel) (auto simp: ruleHostArg_def)
  moreover have "mapR clientIPArg args \<noteq> Inl OutOfFuel"
    by (rule mapR_fuel) (auto simp: clientIPArg_def Let_def split: option.splits)
  moreover have "expandPathMatcher name args pre \<noteq> Inl OutOfFuel" for pre
    unfolding expandPathMatcher_def
    by (rule mapR_fuel) (auto simp: bindR_Inl_iff rulePathArg_def)
  ultimately show ?case by (auto simp: expandFn_def bindR_Inl_iff)
qed (auto simp: bindR_Inl_iff expandPairs_fuel)

lemma appendCapped_fuel: "appendCapped out ms \<noteq> Inl OutOfFuel"
  by (induction out ms rule: appendCapped.induct) auto

lemma parseTree_fuel: "parseTree rule \<noteq> Inl OutOfFuel"
  using lexRule_fuel parse_fuel(1)[OF order_refl]
  by (auto simp: parseTree_def bindR_Inl_iff ruleFuel_def split: list.splits)

text \<open>
  C40: \<^verbatim>\<open>ParseRule\<close> terminates on every rule with one of its own results: the model's fuel is never the
  reason for an error.
\<close>

theorem ParseRule_never_out_of_fuel: "ParseRule rule \<noteq> Inl OutOfFuel"
  by (auto simp: ParseRule_def bindR_Inl_iff parseTree_fuel expand_fuel conjsToMatchers_def appendCapped_fuel)

end
