(* ===== verification/Docker_Envelope.thy ===== *)
theory Docker_Envelope
  imports Docker_Rule
begin

text \<open>
  Refusal envelopes, \<^verbatim>\<open>src/internal/docker/envelope.go\<close> and \<^verbatim>\<open>envelopeparse.go\<close>.  When the routes of
  a Docker router are discarded, \<^verbatim>\<open>RuleEnvelope\<close> derives from its rule a set of matchers that must
  cover every request the rule could have matched.  The theory models the tolerant lexer and parser
  (with the same kind of fuel as the strict one), the disjunctive envelope of a rule tree with its
  working cap, the coarsening ladder of \<^verbatim>\<open>renderEnvelope\<close>, the widening of \<^verbatim>\<open>normalizeEnvelope\<close> and the
  absorption of covered matchers.  The interface to Traefik is the locale \<open>traefik_reading\<close>: whatever
  Traefik means by a matcher, literal \<^verbatim>\<open>Host\<close>, \<^verbatim>\<open>Path\<close> and \<^verbatim>\<open>PathPrefix\<close> calls match no more than their
  literals; nothing is assumed of any other call, and a negation may match anything.
\<close>

section \<open>The tolerant lexer\<close>

datatype envError = EnvUnexpectedChar char | EnvSingle char | EnvUnterminatedString
  | EnvUnexpectedEnd | EnvExpectedMatcher string | EnvUnterminatedArgs | EnvUnexpectedInArgs string
  | EnvExpected string | EnvOutOfFuel

datatype envKind = envIdent | envString | envLParen | envRParen | envComma | envAnd | envOr | envNot

record envToken =
  ekind :: envKind
  eval' :: string

abbreviation etok :: "envKind \<Rightarrow> string \<Rightarrow> envToken" where
  "etok k v \<equiv> \<lparr>ekind = k, eval' = v\<rparr>"

definition envSingleCharTokens :: "char \<Rightarrow> envToken option" where
  "envSingleCharTokens c =
     (if c = CHR ''('' then Some (etok envLParen ''('')
      else if c = CHR '')'' then Some (etok envRParen '')'')
      else if c = CHR '','' then Some (etok envComma '','')
      else if c = CHR ''!'' then Some (etok envNot ''!'')
      else None)"

definition lexEnvIdent :: "char \<Rightarrow> string \<Rightarrow> envError + envToken option \<times> string" where
  "lexEnvIdent c rest =
     Inr (Some (etok envIdent (takeWhile isRuleIdentChar (c # rest))),
          dropWhile isRuleIdentChar (c # rest))"

definition lexEnvOperator :: "char \<Rightarrow> string \<Rightarrow> envError + envToken option \<times> string" where
  "lexEnvOperator c rest = (case rest of
       [] \<Rightarrow> Inl (EnvSingle c)
     | c2 # rest' \<Rightarrow>
         if c2 \<noteq> c then Inl (EnvSingle c)
         else if c = CHR ''&'' then Inr (Some (etok envAnd ''&&''), rest')
         else Inr (Some (etok envOr ''||''), rest'))"

definition lexEnvString :: "char \<Rightarrow> string \<Rightarrow> envError + envToken option \<times> string" where
  "lexEnvString c rest = (case cutByte rest c of
       None \<Rightarrow> Inl EnvUnterminatedString
     | Some (body, rest') \<Rightarrow> Inr (Some (etok envString body), rest'))"

definition nextEnvToken :: "char \<Rightarrow> string \<Rightarrow> envError + envToken option \<times> string" where
  "nextEnvToken c rest =
     (if isRuleSpace c then Inr (None, rest)
      else case envSingleCharTokens c of
        Some tok \<Rightarrow> Inr (Some tok, rest)
      | None \<Rightarrow>
          if c = CHR ''&'' \<or> c = CHR ''|'' then lexEnvOperator c rest
          else if isRuleQuote c then lexEnvString c rest
          else if isRuleIdentChar c then lexEnvIdent c rest
          else Inl (EnvUnexpectedChar c))"

lemma nextEnvToken_length:
  "nextEnvToken c rest = Inr (t, rest') \<Longrightarrow> length rest' \<le> length rest"
  by (auto simp: nextEnvToken_def lexEnvOperator_def lexEnvString_def lexEnvIdent_def
      length_dropWhile_le split: if_splits option.splits list.splits dest: cutByte_length)

function lexEnvelope :: "string \<Rightarrow> envError + envToken list" where
  "lexEnvelope [] = Inr []"
| "lexEnvelope (c # s) =
     bindR (nextEnvToken c s) (\<lambda>(tok, rest).
     bindR (lexEnvelope rest) (\<lambda>toks.
     Inr (case tok of None \<Rightarrow> toks | Some t \<Rightarrow> t # toks)))"
  by pat_completeness auto
termination
  by (relation "measure length") (auto dest: nextEnvToken_length)

section \<open>The tolerant parser\<close>

datatype envExpr = envOrExpr envExpr envExpr | envAndExpr envExpr envExpr | envNotExpr
  | envFnExpr string "string list"

definition envExpect :: "envKind \<Rightarrow> string \<Rightarrow> envToken list \<Rightarrow> envError + envToken list" where
  "envExpect k what ts = (case ts of
       [] \<Rightarrow> Inl (EnvExpected what)
     | t # ts' \<Rightarrow> if ekind t \<noteq> k then Inl (EnvExpected what) else Inr ts')"

text \<open>A comma after an argument is skipped, so a trailing comma is read.\<close>

fun envSkipComma :: "envToken list \<Rightarrow> envToken list" where
  "envSkipComma [] = []"
| "envSkipComma (t # ts) = (if ekind t = envComma then ts else t # ts)"

lemma envSkipComma_length [termination_simp]: "length (envSkipComma ts) \<le> length ts"
  by (cases ts) auto

fun envParseArgs :: "string list \<Rightarrow> envToken list \<Rightarrow> envError + string list \<times> envToken list" where
  "envParseArgs args [] = Inl EnvUnterminatedArgs"
| "envParseArgs args (at # ts) = (case ekind at of
       envString \<Rightarrow> envParseArgs (args @ [eval' at]) (envSkipComma ts)
     | envRParen \<Rightarrow> Inr (args, ts)
     | _ \<Rightarrow> Inl (EnvUnexpectedInArgs (eval' at)))"

definition envParseCall :: "string \<Rightarrow> envToken list \<Rightarrow> envError + envExpr \<times> envToken list" where
  "envParseCall name ts =
     bindR (envExpect envLParen ''('' ts) (\<lambda>ts.
     bindR (envParseArgs [] ts) (\<lambda>(args, ts).
     Inr (envFnExpr name args, ts)))"

fun envParseOr :: "nat \<Rightarrow> envToken list \<Rightarrow> envError + envExpr \<times> envToken list"
and envParseOrLoop :: "nat \<Rightarrow> envExpr \<Rightarrow> envToken list \<Rightarrow> envError + envExpr \<times> envToken list"
and envParseAnd :: "nat \<Rightarrow> envToken list \<Rightarrow> envError + envExpr \<times> envToken list"
and envParseAndLoop :: "nat \<Rightarrow> envExpr \<Rightarrow> envToken list \<Rightarrow> envError + envExpr \<times> envToken list"
and envParseTerm :: "nat \<Rightarrow> envToken list \<Rightarrow> envError + envExpr \<times> envToken list" where
  "envParseOr 0 ts = Inl EnvOutOfFuel"
| "envParseOr (Suc n) ts = bindR (envParseAnd n ts) (\<lambda>(left, ts). envParseOrLoop n left ts)"
| "envParseOrLoop 0 left ts = Inl EnvOutOfFuel"
| "envParseOrLoop (Suc n) left ts = (case ts of
       [] \<Rightarrow> Inr (left, ts)
     | t # ts' \<Rightarrow>
         if ekind t \<noteq> envOr then Inr (left, ts)
         else bindR (envParseAnd n ts') (\<lambda>(right, ts). envParseOrLoop n (envOrExpr left right) ts))"
| "envParseAnd 0 ts = Inl EnvOutOfFuel"
| "envParseAnd (Suc n) ts = bindR (envParseTerm n ts) (\<lambda>(left, ts). envParseAndLoop n left ts)"
| "envParseAndLoop 0 left ts = Inl EnvOutOfFuel"
| "envParseAndLoop (Suc n) left ts = (case ts of
       [] \<Rightarrow> Inr (left, ts)
     | t # ts' \<Rightarrow>
         if ekind t \<noteq> envAnd then Inr (left, ts)
         else bindR (envParseTerm n ts') (\<lambda>(right, ts). envParseAndLoop n (envAndExpr left right) ts))"
| "envParseTerm 0 ts = Inl EnvOutOfFuel"
| "envParseTerm (Suc n) ts = (case ts of
       [] \<Rightarrow> Inl EnvUnexpectedEnd
     | t # ts' \<Rightarrow> (case ekind t of
         envNot \<Rightarrow> bindR (envParseTerm n ts') (\<lambda>(_, ts). Inr (envNotExpr, ts))
       | envLParen \<Rightarrow>
           bindR (envParseOr n ts') (\<lambda>(inner, ts).
           bindR (envExpect envRParen '')'' ts) (\<lambda>ts. Inr (inner, ts)))
       | envIdent \<Rightarrow> envParseCall (eval' t) ts'
       | _ \<Rightarrow> Inl (EnvExpectedMatcher (eval' t))))"

definition envFuel :: "envToken list \<Rightarrow> nat" where
  "envFuel ts = 3 * length ts + 3"

definition envParse :: "string \<Rightarrow> envExpr option" where
  "envParse rule = (case lexEnvelope rule of
       Inl _ \<Rightarrow> None
     | Inr toks \<Rightarrow> (case envParseOr (envFuel toks) toks of
         Inl _ \<Rightarrow> None
       | Inr (e, rest) \<Rightarrow> if rest \<noteq> [] then None else Some e))"

section \<open>The envelope of a rule tree\<close>

definition envWorkingCap :: nat where
  "envWorkingCap = 4096"

definition envTop :: "conj list" where
  "envTop = [zeroConj]"

definition dropPath :: "conj \<Rightarrow> conj" where
  "dropPath c = c\<lparr>cpath := [], cprefix := False, pathSet := False\<rparr>"

fun coarsenInto :: "conj list \<Rightarrow> conj list \<Rightarrow> conj list" where
  "coarsenInto out [] = out"
| "coarsenInto out (c # cs) =
     (if list_ex (\<lambda>o'. hosts o' = hosts (dropPath c)) out then coarsenInto out cs
      else coarsenInto (out @ [dropPath c]) cs)"

definition coarsenConjs :: "conj list \<Rightarrow> conj list" where
  "coarsenConjs conjs = coarsenInto [] conjs"

definition conjPathLE :: "conj \<Rightarrow> conj \<Rightarrow> bool" where
  "conjPathLE a b =
     (if \<not> cprefix b then \<not> cprefix a \<and> cpath a = cpath b
      else if cpath b = ''/'' then True
      else hasPrefix (cpath a) (cpath b))"

definition mergeEnvConj :: "conj \<Rightarrow> conj \<Rightarrow> conj" where
  "mergeEnvConj a b =
     (let out = (if hosts a = [] then a\<lparr>hosts := hosts b\<rparr> else a) in
      if \<not> pathSet b then out
      else if \<not> pathSet out then out\<lparr>cpath := cpath b, cprefix := cprefix b, pathSet := True\<rparr>
      else if conjPathLE out b then out\<lparr>cpath := cpath b, cprefix := cprefix b\<rparr>
      else out)"

definition hostLeaf :: "string list \<Rightarrow> conj list" where
  "hostLeaf args =
     (if list_ex (\<lambda>a. a = [] \<or> \<not> literalArg a \<or> traefikHostForbidden a \<or> \<not> isASCII a) args
      then envTop else [zeroConj\<lparr>hosts := args\<rparr>])"

definition pathLeaf :: "string list \<Rightarrow> bool \<Rightarrow> conj list" where
  "pathLeaf args pre =
     (if list_ex (\<lambda>a. \<not> literalArg a \<or> \<not> hasPrefix a ''/'' \<or> pathHasPercent a) args
      then envTop
      else map (\<lambda>a. zeroConj\<lparr>cpath := a, cprefix := pre, pathSet := True\<rparr>) args)"

text \<open>The product of two conjunction lists within the working cap; \<open>None\<close> is the top flag.\<close>

definition envMeet :: "conj list \<Rightarrow> conj list \<Rightarrow> conj list option" where
  "envMeet ls rs =
     (let p = (\<lambda>ls rs. concat (map (\<lambda>l. map (mergeEnvConj l) rs) ls)) in
      if length ls * length rs > envWorkingCap then
        (let ls = coarsenConjs ls; rs = coarsenConjs rs in
         if length ls * length rs > envWorkingCap then None else Some (p ls rs))
      else Some (p ls rs))"

definition envFnEnvelope :: "string \<Rightarrow> string list \<Rightarrow> conj list option" where
  "envFnEnvelope name args =
     (if args = [] then None
      else if name = ''Host'' then Some (hostLeaf args)
      else if name = ''Path'' then Some (pathLeaf args False)
      else if name = ''PathPrefix'' then Some (pathLeaf args True)
      else Some envTop)"

declare envFnEnvelope_def [simp]

fun envelope :: "envExpr \<Rightarrow> conj list option" where
  "envelope envNotExpr = Some envTop"
| "envelope (envOrExpr l r) = (case (envelope l, envelope r) of
       (Some ls, Some rs) \<Rightarrow> Some (ls @ rs)
     | _ \<Rightarrow> None)"
| "envelope (envAndExpr l r) = (case (envelope l, envelope r) of
       (None, None) \<Rightarrow> None
     | (None, Some rs) \<Rightarrow> Some rs
     | (Some ls, None) \<Rightarrow> Some ls
     | (Some ls, Some rs) \<Rightarrow> envMeet ls rs)"
| "envelope (envFnExpr name args) = envFnEnvelope name args"

section \<open>Rendering\<close>

definition GlobalEnvelope :: "Matcher list" where
  "GlobalEnvelope = [zeroMatcher\<lparr>Path := ''/*''\<rparr>]"

definition deriveEnvelope :: "string \<Rightarrow> conj list option" where
  "deriveEnvelope rule = (case envParse rule of
       None \<Rightarrow> None
     | Some e \<Rightarrow> (case envelope e of
         None \<Rightarrow> None
       | Some conjs \<Rightarrow> if conjs = [] then None else Some conjs))"

definition normalizeMatcher :: "Matcher \<Rightarrow> Matcher" where
  "normalizeMatcher m =
     (let m = (if HostKind m = HostTraefik \<and> \<not> isASCII (Host m)
               then m\<lparr>Host := [], HostKind := HostAny\<rparr> else m);
          m = (if Host m = [] then m\<lparr>HostKind := HostAny\<rparr> else m);
          lit = fst (cutSuffix (Path m) ''/*'');
          m = (if containsAny lit envMetaChars \<or> containsByte lit CHR ''%''
               then m\<lparr>Path := ''/*'', PathKind := PathAny\<rparr> else m)
      in m\<lparr>PeerIPCIDRs := [], Middlewares := [], Hints := emptyHints\<rparr>)"

definition normalizeEnvelope :: "Matcher list \<Rightarrow> Matcher list" where
  "normalizeEnvelope ms = map normalizeMatcher ms"

definition sortMatchers :: "Matcher list \<Rightarrow> Matcher list" where
  "sortMatchers ms = sort_key (\<lambda>m. (Host m, HostKind m, Path m, PathKind m)) ms"

definition coveredByOther :: "Matcher list \<Rightarrow> nat \<Rightarrow> bool" where
  "coveredByOther ms i \<longleftrightarrow>
     list_ex (\<lambda>j. i \<noteq> j \<and> matcherLE (ms ! i) (ms ! j) \<and> (\<not> matcherLE (ms ! j) (ms ! i) \<or> j < i))
       [0..<length ms]"

definition absorbMatchers :: "Matcher list \<Rightarrow> Matcher list" where
  "absorbMatchers ms =
     (let ms = sortMatchers ms
      in map (\<lambda>i. ms ! i) (filter (\<lambda>i. \<not> coveredByOther ms i) [0..<length ms]))"

definition EnvelopeOf :: "Matcher list \<Rightarrow> Matcher list" where
  "EnvelopeOf ms = absorbMatchers (normalizeEnvelope ms)"

definition renderEnvelope :: "conj list \<Rightarrow> Matcher list" where
  "renderEnvelope conjs = (case conjsToMatchers conjs of
       Inr ms \<Rightarrow> EnvelopeOf ms
     | Inl _ \<Rightarrow> (case conjsToMatchers (coarsenConjs conjs) of
         Inr ms \<Rightarrow> EnvelopeOf ms
       | Inl _ \<Rightarrow> GlobalEnvelope))"

definition RuleEnvelope :: "string \<Rightarrow> Matcher list" where
  "RuleEnvelope rule =
     (if trimSpace rule = [] then []
      else case deriveEnvelope rule of
        None \<Rightarrow> GlobalEnvelope
      | Some conjs \<Rightarrow> renderEnvelope conjs)"

section \<open>Fuel of the tolerant parser\<close>

lemma envExpect_length: "envExpect k w ts = Inr ts' \<Longrightarrow> length ts = Suc (length ts')"
  by (auto simp: envExpect_def split: list.splits if_splits)

lemma envParseArgs_length: "envParseArgs args ts = Inr (as, ts') \<Longrightarrow> length ts' < length ts"
proof (induction args ts rule: envParseArgs.induct)
  case (2 args at ts)
  then show ?case using envSkipComma_length[of ts] by (auto split: envKind.splits)
qed simp

lemma envParseCall_length: "envParseCall name ts = Inr (e, ts') \<Longrightarrow> length ts' < length ts"
  by (auto simp: envParseCall_def bindR_Inr_iff dest!: envExpect_length envParseArgs_length)

lemma envParse_length:
  "envParseOr n ts = Inr (e, ts') \<Longrightarrow> length ts' < length ts"
  "envParseOrLoop n l ts = Inr (e, ts') \<Longrightarrow> length ts' \<le> length ts"
  "envParseAnd n ts = Inr (e, ts') \<Longrightarrow> length ts' < length ts"
  "envParseAndLoop n l ts = Inr (e, ts') \<Longrightarrow> length ts' \<le> length ts"
  "envParseTerm n ts = Inr (e, ts') \<Longrightarrow> length ts' < length ts"
proof (induction n ts and n l ts and n ts and n l ts and n ts arbitrary: e ts' and e ts' and e ts' and e ts' and e ts'
    rule: envParseOr_envParseOrLoop_envParseAnd_envParseAndLoop_envParseTerm.induct)
  case (10 n ts)
  then show ?case
    by (fastforce simp: bindR_Inr_iff split: list.splits envKind.splits dest: envExpect_length envParseCall_length)
qed (fastforce simp: bindR_Inr_iff split: list.splits if_splits)+

lemma envParseArgs_fuel: "envParseArgs args ts \<noteq> Inl EnvOutOfFuel"
  by (induction args ts rule: envParseArgs.induct) (auto split: envKind.splits)

lemma envParse_fuel:
  "3 * length ts + 3 \<le> n \<Longrightarrow> envParseOr n ts \<noteq> Inl EnvOutOfFuel"
  "3 * length ts + 1 \<le> n \<Longrightarrow> envParseOrLoop n l ts \<noteq> Inl EnvOutOfFuel"
  "3 * length ts + 2 \<le> n \<Longrightarrow> envParseAnd n ts \<noteq> Inl EnvOutOfFuel"
  "3 * length ts + 1 \<le> n \<Longrightarrow> envParseAndLoop n l ts \<noteq> Inl EnvOutOfFuel"
  "3 * length ts + 1 \<le> n \<Longrightarrow> envParseTerm n ts \<noteq> Inl EnvOutOfFuel"
proof (induction n ts and n l ts and n ts and n l ts and n ts
    rule: envParseOr_envParseOrLoop_envParseAnd_envParseAndLoop_envParseTerm.induct)
  case (2 n ts)
  then show ?case by (fastforce simp: bindR_Inl_iff dest: envParse_length)
next
  case (4 n left ts)
  show ?case
  proof (cases ts)
    case (Cons t ts')
    have "envParseAnd n ts' \<noteq> Inl EnvOutOfFuel" if "ekind t = envOr"
      using that Cons "4.IH"(1) "4.prems" by simp
    moreover have "envParseOrLoop n (envOrExpr left r) us \<noteq> Inl EnvOutOfFuel"
      if "ekind t = envOr" and "envParseAnd n ts' = Inr (r, us)" for r us
      using that Cons "4.IH"(2) "4.prems" envParse_length(3,5) by fastforce
    ultimately show ?thesis using Cons by (auto simp: bindR_Inl_iff)
  qed simp
next
  case (6 n ts)
  then show ?case by (fastforce simp: bindR_Inl_iff dest: envParse_length)
next
  case (8 n left ts)
  show ?case
  proof (cases ts)
    case (Cons t ts')
    have "envParseTerm n ts' \<noteq> Inl EnvOutOfFuel" if "ekind t = envAnd"
      using that Cons "8.IH"(1) "8.prems" by simp
    moreover have "envParseAndLoop n (envAndExpr left r) us \<noteq> Inl EnvOutOfFuel"
      if "ekind t = envAnd" and "envParseTerm n ts' = Inr (r, us)" for r us
      using that Cons "8.IH"(2) "8.prems" envParse_length(3,5) by fastforce
    ultimately show ?thesis using Cons by (auto simp: bindR_Inl_iff)
  qed simp
next
  case (10 n ts)
  then show ?case
    by (auto simp: bindR_Inl_iff envExpect_def envParseCall_def envParseArgs_fuel
        split: list.splits envKind.splits if_splits)
qed auto

section \<open>The tolerant reader agrees with the strict one\<close>

fun envKindOf :: "tokKind \<Rightarrow> envKind" where
  "envKindOf tokIdent = envIdent"
| "envKindOf tokString = envString"
| "envKindOf tokLParen = envLParen"
| "envKindOf tokRParen = envRParen"
| "envKindOf tokComma = envComma"
| "envKindOf tokAnd = envAnd"
| "envKindOf tokOr = envOr"

definition envTok :: "ruleToken \<Rightarrow> envToken" where
  "envTok t = etok (envKindOf (kind t)) (val t)"

fun envOf :: "ruleExpr \<Rightarrow> envExpr" where
  "envOf (orExpr l r) = envOrExpr (envOf l) (envOf r)"
| "envOf (andExpr l r) = envAndExpr (envOf l) (envOf r)"
| "envOf (fnExpr name args) = envFnExpr name args"

lemma envKindOf_iff [simp]:
  "envKindOf k = envIdent \<longleftrightarrow> k = tokIdent" "envKindOf k = envString \<longleftrightarrow> k = tokString"
  "envKindOf k = envLParen \<longleftrightarrow> k = tokLParen" "envKindOf k = envRParen \<longleftrightarrow> k = tokRParen"
  "envKindOf k = envComma \<longleftrightarrow> k = tokComma" "envKindOf k = envAnd \<longleftrightarrow> k = tokAnd"
  "envKindOf k = envOr \<longleftrightarrow> k = tokOr" "envKindOf k \<noteq> envNot"
  by (cases k; simp)+

lemma envTok_simps [simp]: "ekind (envTok t) = envKindOf (kind t)" "eval' (envTok t) = val t"
  by (simp_all add: envTok_def)

lemma envSingleCharTokens_agrees:
  "c \<noteq> CHR ''!'' \<Longrightarrow> envSingleCharTokens c = map_option envTok (singleCharTokens c)"
  by (simp add: singleCharTokens_def envSingleCharTokens_def envTok_def)

lemma lexEnv_agrees:
  "lexRuleOperator c s = Inr (t, rest) \<Longrightarrow> lexEnvOperator c s = Inr (map_option envTok t, rest)"
  "lexRuleString c s = Inr (t, rest) \<Longrightarrow> lexEnvString c s = Inr (map_option envTok t, rest)"
  "lexRuleIdent c s = Inr (t, rest) \<Longrightarrow> lexEnvIdent c s = Inr (map_option envTok t, rest)"
  by (auto simp: lexRuleOperator_def lexEnvOperator_def lexRuleString_def lexEnvString_def lexRuleIdent_def
      lexEnvIdent_def envTok_def split: list.splits option.splits if_splits)

lemma nextRuleToken_not: "nextRuleToken (CHR ''!'') s = Inl Negation"
  by (simp add: nextRuleToken_def isRuleSpace_def singleCharTokens_def isRuleQuote_def isRuleIdentChar_def
      isLowerAlpha_def isUpperAlpha_def isDigit_def)

lemma nextEnvToken_agrees:
  assumes "nextRuleToken c s = Inr (t, rest)"
  shows "nextEnvToken c s = Inr (map_option envTok t, rest)"
proof -
  have "c \<noteq> CHR ''!''" using assms by (auto simp: nextRuleToken_not)
  note single = envSingleCharTokens_agrees[OF this]
  show ?thesis
  proof (cases "singleCharTokens c")
    case None
    with assms lexEnv_agrees[of c s t rest] show ?thesis
      unfolding nextRuleToken_def nextEnvToken_def single by (auto split: if_splits)
  next
    case (Some a)
    with assms show ?thesis
      unfolding nextRuleToken_def nextEnvToken_def single by (cases "isRuleSpace c") (auto simp: Some)
  qed
qed

lemma lexEnvelope_agrees: "lexRule s = Inr ts \<Longrightarrow> lexEnvelope s = Inr (map envTok ts)"
proof (induction s arbitrary: ts rule: lexRule.induct)
  case (2 c s)
  then obtain t rest us where t: "nextRuleToken c s = Inr (t, rest)" "lexRule rest = Inr us"
      "ts = (case t of None \<Rightarrow> us | Some t \<Rightarrow> t # us)"
    by (auto simp: bindR_Inr_iff)
  with 2 nextEnvToken_agrees[OF t(1)] show ?case by (auto split: option.splits)
qed simp

lemma envExpect_agrees:
  "expect k w ts = Inr ts' \<Longrightarrow> envExpect (envKindOf k) w (map envTok ts) = Inr (map envTok ts')"
  by (cases ts; cases k) (auto simp: expect_def envExpect_def split: if_splits)

lemma envParseArgs_agrees:
  "parseArgs fn args ts = Inr (as, ts') \<Longrightarrow> envParseArgs args (map envTok ts) = Inr (as, map envTok ts')"
proof (induction fn args ts rule: parseArgs.induct)
  case (2 fn args at rest)
  show ?case
  proof (cases "kind at")
    case tokString
    with "2.prems" obtain nt rest2 where r: "rest = nt # rest2" "kind nt = tokComma \<or> kind nt = tokRParen"
      by (auto split: list.splits tokKind.splits)
    with 2 tokString show ?thesis by (auto split: list.splits if_splits)
  qed (use 2 in auto)
qed simp

lemma envParse_agrees:
  "parseOr n ts = Inr (e, ts') \<Longrightarrow> envParseOr n (map envTok ts) = Inr (envOf e, map envTok ts')"
  "parseOrLoop n l ts = Inr (e, ts') \<Longrightarrow>
     envParseOrLoop n (envOf l) (map envTok ts) = Inr (envOf e, map envTok ts')"
  "parseAnd n ts = Inr (e, ts') \<Longrightarrow> envParseAnd n (map envTok ts) = Inr (envOf e, map envTok ts')"
  "parseAndLoop n l ts = Inr (e, ts') \<Longrightarrow>
     envParseAndLoop n (envOf l) (map envTok ts) = Inr (envOf e, map envTok ts')"
  "parseTerm n ts = Inr (e, ts') \<Longrightarrow> envParseTerm n (map envTok ts) = Inr (envOf e, map envTok ts')"
proof (induction n ts and n l ts and n ts and n l ts and n ts arbitrary: e ts' and e ts' and e ts' and e ts' and e ts'
    rule: parseOr_parseOrLoop_parseAnd_parseAndLoop_parseTerm.induct)
  case (4 n left ts)
  then show ?case by (cases ts) (fastforce simp: bindR_Inr_iff split: if_splits)+
next
  case (8 n left ts)
  then show ?case by (cases ts) (fastforce simp: bindR_Inr_iff split: if_splits)+
next
  case (10 n ts)
  then show ?case
    by (cases ts) (fastforce simp: bindR_Inr_iff envParseCall_def split: if_splits
        dest: envExpect_agrees envParseArgs_agrees)+
qed (fastforce simp: bindR_Inr_iff)+

lemma envParse_strict:
  assumes "parseTree rule = Inr e"
  shows "envParse rule = Some (envOf e)"
proof -
  from assms obtain toks where "lexRule rule = Inr toks" "parseOr (ruleFuel toks) toks = Inr (e, [])"
    by (fastforce simp: parseTree_def bindR_Inr_iff neq_Nil_conv split: list.split_asm)
  from lexEnvelope_agrees[OF this(1)] envParse_agrees(1)[OF this(2)] show ?thesis
    by (simp add: envParse_def ruleFuel_def envFuel_def)
qed

section \<open>Coverage\<close>

text \<open>
  What the derivation relies on of Traefik: a call all of whose arguments are literals matches only
  requests one of the literals matches.
\<close>

definition literalHostArgs :: "string list \<Rightarrow> bool" where
  "literalHostArgs args \<longleftrightarrow>
     list_all (\<lambda>a. a \<noteq> [] \<and> literalArg a \<and> \<not> traefikHostForbidden a \<and> isASCII a) args"

definition literalPathArgs :: "string list \<Rightarrow> bool" where
  "literalPathArgs args \<longleftrightarrow> list_all (\<lambda>a. literalArg a \<and> hasPrefix a ''/'' \<and> \<not> pathHasPercent a) args"

locale traefik_reading =
  fixes F :: "string \<Rightarrow> string list \<Rightarrow> request \<Rightarrow> bool"
  assumes host_law: "F ''Host'' args q \<Longrightarrow> literalHostArgs args \<Longrightarrow>
      list_ex (\<lambda>a. matchTraefikHost a (rqHost q)) args"
    and path_law: "F ''Path'' args q \<Longrightarrow> literalPathArgs args \<Longrightarrow> list_ex (\<lambda>a. rqPath q = a) args"
    and prefix_law: "F ''PathPrefix'' args q \<Longrightarrow> literalPathArgs args \<Longrightarrow>
      list_ex (\<lambda>a. hasPrefix (rqPath q) a) args"

text \<open>
  The requests a tolerantly parsed rule may match under a reading \<open>F\<close> of its calls.  The parser drops
  the operand of a negation, so a negation may match any request.
\<close>

fun mayMatch :: "(string \<Rightarrow> string list \<Rightarrow> request \<Rightarrow> bool) \<Rightarrow> envExpr \<Rightarrow> request \<Rightarrow> bool" where
  "mayMatch F envNotExpr q = True"
| "mayMatch F (envOrExpr l r) q = (mayMatch F l q \<or> mayMatch F r q)"
| "mayMatch F (envAndExpr l r) q = (mayMatch F l q \<and> mayMatch F r q)"
| "mayMatch F (envFnExpr name args) q = F name args q"

lemma mayMatch_strict: "mayMatch fnSem (envOf e) q = ruleSem e q"
  by (induction e) auto

text \<open>The constraint of a conjunction as the refusal reads it: no peer range.\<close>

definition conjCovers :: "conj \<Rightarrow> request \<Rightarrow> bool" where
  "conjCovers c q \<longleftrightarrow> hostsAllow (hosts c) (rqHost q) \<and> conjPathAllows c (rqPath q)"

lemma envTop_covers: "\<exists>c\<in>set envTop. conjCovers c q"
  by (simp add: envTop_def conjCovers_def zeroConj_def hostsAllow_def conjPathAllows_def)

lemma dropPath_covers: "conjCovers c q \<Longrightarrow> hosts d = hosts (dropPath c) \<Longrightarrow> \<not> pathSet d \<Longrightarrow> conjCovers d q"
  by (simp add: conjCovers_def dropPath_def conjPathAllows_def)

lemma coarsenInto_spec:
  assumes "\<And>d. d \<in> set out \<Longrightarrow> \<not> pathSet d"
  shows "(\<forall>d\<in>set (coarsenInto out cs). \<not> pathSet d) \<and> set out \<subseteq> set (coarsenInto out cs) \<and>
    (\<forall>c\<in>set cs. \<exists>d\<in>set (coarsenInto out cs). hosts d = hosts c) \<and>
    (\<forall>d\<in>set (coarsenInto out cs). d \<in> set out \<or> (\<exists>c\<in>set cs. hosts d = hosts c))"
  using assms
proof (induction out cs rule: coarsenInto.induct)
  case (2 out c cs)
  show ?case
  proof (cases "list_ex (\<lambda>o'. hosts o' = hosts (dropPath c)) out")
    case True
    then obtain o' where "o' \<in> set out" "hosts o' = hosts c"
      by (auto simp: list_ex_iff dropPath_def)
    with True 2 show ?thesis by auto
  next
    case False
    have "\<not> pathSet (dropPath c)" "hosts (dropPath c) = hosts c" by (simp_all add: dropPath_def)
    moreover from this have
      "(\<forall>d\<in>set (coarsenInto (out @ [dropPath c]) cs). \<not> pathSet d) \<and>
       set (out @ [dropPath c]) \<subseteq> set (coarsenInto (out @ [dropPath c]) cs) \<and>
       (\<forall>x\<in>set cs. \<exists>d\<in>set (coarsenInto (out @ [dropPath c]) cs). hosts d = hosts x) \<and>
       (\<forall>d\<in>set (coarsenInto (out @ [dropPath c]) cs).
          d \<in> set (out @ [dropPath c]) \<or> (\<exists>x\<in>set cs. hosts d = hosts x))"
      using 2(2)[OF False] 2(3) by fastforce
    ultimately show ?thesis using False by auto
  qed
qed auto

lemma coarsenConjs_covers:
  "\<exists>c\<in>set cs. conjCovers c q \<Longrightarrow> \<exists>d\<in>set (coarsenConjs cs). conjCovers d q"
  using coarsenInto_spec[of "[]" cs] unfolding coarsenConjs_def
  by (simp add: conjCovers_def conjPathAllows_def) metis

lemma coarsenConjs_wf: "(\<And>c. c \<in> set cs \<Longrightarrow> wfConj c) \<Longrightarrow> d \<in> set (coarsenConjs cs) \<Longrightarrow> wfConj d"
  using coarsenInto_spec[of "[]" cs] unfolding coarsenConjs_def
  by (simp add: wfConj_def) metis

lemma conjPathLE_sound:
  "conjPathLE a b \<Longrightarrow> pathSet a \<Longrightarrow> pathSet b \<Longrightarrow> rooted p \<Longrightarrow> conjPathAllows a p \<Longrightarrow> conjPathAllows b p"
  unfolding conjPathLE_def conjPathAllows_def rooted_def
  by (auto split: if_splits dest: hasPrefix_trans)

lemma mergeEnvConj_covers:
  assumes "conjCovers a q" and "conjCovers b q" and "rooted (rqPath q)"
  shows "conjCovers (mergeEnvConj a b) q"
  using assms by (auto simp: mergeEnvConj_def Let_def conjCovers_def conjPathAllows_def split: if_splits)

lemma mergeEnvConj_wf: "wfConj a \<Longrightarrow> wfConj b \<Longrightarrow> wfConj (mergeEnvConj a b)"
  by (auto simp: mergeEnvConj_def Let_def wfConj_def)

lemma envMeet_covers:
  assumes "\<exists>c\<in>set ls. conjCovers c q" and "\<exists>c\<in>set rs. conjCovers c q" and "rooted (rqPath q)"
    and "envMeet ls rs = Some cs"
  shows "\<exists>c\<in>set cs. conjCovers c q"
proof -
  obtain ls' rs' where "cs = concat (map (\<lambda>l. map (mergeEnvConj l) rs') ls')"
    and "\<exists>c\<in>set ls'. conjCovers c q" "\<exists>c\<in>set rs'. conjCovers c q"
    using assms(4) assms(1,2) coarsenConjs_covers[of ls q] coarsenConjs_covers[of rs q]
    by (auto simp: envMeet_def Let_def split: if_splits)
  then show ?thesis using mergeEnvConj_covers assms(3) by fastforce
qed

lemma envMeet_wf:
  assumes "\<And>c. c \<in> set ls \<Longrightarrow> wfConj c" and "\<And>c. c \<in> set rs \<Longrightarrow> wfConj c"
    and "envMeet ls rs = Some cs" and "c \<in> set cs"
  shows "wfConj c"
  using assms coarsenConjs_wf[of ls] coarsenConjs_wf[of rs]
  by (auto simp: envMeet_def Let_def intro!: mergeEnvConj_wf split: if_splits)

lemma hostLeaf_literal: "hostLeaf args = (if literalHostArgs args then [zeroConj\<lparr>hosts := args\<rparr>] else envTop)"
  by (auto simp: hostLeaf_def literalHostArgs_def list_all_iff list_ex_iff)

lemma pathLeaf_literal:
  "pathLeaf args pre = (if literalPathArgs args then map (\<lambda>a. pathConj a pre) args else envTop)"
  by (auto simp: pathLeaf_def literalPathArgs_def list_all_iff list_ex_iff pathConj_def)

lemma envTop_wf: "c \<in> set envTop \<Longrightarrow> wfConj c"
  by (simp add: envTop_def wfConj_def zeroConj_def)

lemma envelope_wf: "envelope e = Some cs \<Longrightarrow> c \<in> set cs \<Longrightarrow> wfConj c"
proof (induction e arbitrary: cs c)
  case (envAndExpr l r)
  then show ?case
    using envMeet_wf[of "the (envelope l)" "the (envelope r)" cs c] by (auto split: option.splits)
next
  case (envFnExpr name args)
  then show ?case
    by (auto simp: hostLeaf_literal pathLeaf_literal literalHostArgs_def literalPathArgs_def pathConj_def
        wfConj_def zeroConj_def list_all_iff rooted_def envTop_def split: if_splits)
qed (auto simp: envTop_wf split: option.splits)

context traefik_reading
begin

lemma envelope_covers:
  assumes "envelope e = Some cs" and "mayMatch F e q" and "rooted (rqPath q)"
  shows "\<exists>c\<in>set cs. conjCovers c q"
  using assms(1,2)
proof (induction e arbitrary: cs)
  case envNotExpr
  then show ?case using envTop_covers by auto
next
  case (envOrExpr l r)
  then show ?case by (auto split: option.splits)
next
  case (envAndExpr l r)
  then have m: "mayMatch F l q" "mayMatch F r q" by simp_all
  show ?case
  proof (cases "envelope l"; cases "envelope r")
    fix ls rs assume e: "envelope l = Some ls" "envelope r = Some rs"
    with envAndExpr.prems(1) have "envMeet ls rs = Some cs" by simp
    with envMeet_covers[OF envAndExpr.IH(1)[OF e(1) m(1)] envAndExpr.IH(2)[OF e(2) m(2)] assms(3)]
    show ?thesis .
  qed (use envAndExpr.prems envAndExpr.IH(1)[OF _ m(1)] envAndExpr.IH(2)[OF _ m(2)] in simp_all)
next
  case (envFnExpr name args)
  then have f: "F name args q" by simp
  have ex: "(\<exists>c\<in>set (map (\<lambda>a. pathConj a pre) args). conjCovers c q) \<longleftrightarrow>
      list_ex (\<lambda>a. if pre then hasPrefix (rqPath q) a else rqPath q = a) args" for pre
    by (auto simp: pathConj_def conjCovers_def conjPathAllows_def zeroConj_def hostsAllow_def list_ex_iff)
  consider "name = ''Host''" | "name = ''Path''" | "name = ''PathPrefix''"
    | "name \<notin> {''Host'', ''Path'', ''PathPrefix''}" by blast
  then show ?case
  proof cases
    case 1
    have "conjCovers (zeroConj\<lparr>hosts := args\<rparr>) q" if "literalHostArgs args"
      using host_law[of args q] that f 1
      by (simp add: conjCovers_def zeroConj_def hostsAllow_def conjPathAllows_def)
    with 1 envFnExpr.prems envTop_covers[of q] show ?thesis
      by (auto simp: hostLeaf_literal split: if_splits)
  next
    case 2
    with envFnExpr.prems f path_law[of args q] ex[of False] show ?thesis
      by (cases "literalPathArgs args") (auto simp: pathLeaf_literal envTop_covers split: if_splits)
  next
    case 3
    with envFnExpr.prems f prefix_law[of args q] ex[of True] show ?thesis
      by (cases "literalPathArgs args") (auto simp: pathLeaf_literal envTop_covers split: if_splits)
  next
    case 4
    with envFnExpr.prems envTop_covers show ?thesis by (auto split: if_splits)
  qed
qed

end

interpretation strict_reading: traefik_reading fnSem
  by unfold_locales (simp_all add: fnSem_def)

section \<open>Absorption\<close>

text \<open>
  Dropping the elements another element covers, for any containment test that is a preorder on the
  elements in question: no two kept elements cover one another, and every element is covered by a
  kept one.
\<close>

definition survivors :: "('a \<Rightarrow> 'a \<Rightarrow> bool) \<Rightarrow> 'a list \<Rightarrow> nat list" where
  "survivors le xs = filter (\<lambda>i. \<not> list_ex (\<lambda>j. i \<noteq> j \<and> le (xs ! i) (xs ! j) \<and>
     (\<not> le (xs ! j) (xs ! i) \<or> j < i)) [0..<length xs]) [0..<length xs]"

locale covering =
  fixes le :: "'a \<Rightarrow> 'a \<Rightarrow> bool" and ok :: "'a \<Rightarrow> bool"
  assumes le_refl: "ok x \<Longrightarrow> le x x"
    and le_trans: "ok x \<Longrightarrow> ok y \<Longrightarrow> ok z \<Longrightarrow> le x y \<Longrightarrow> le y z \<Longrightarrow> le x z"
begin

lemma survivor_above:
  assumes ok: "\<And>x. x \<in> set xs \<Longrightarrow> ok x" and "i < length xs"
  shows "\<exists>k\<in>set (survivors le xs). le (xs ! i) (xs ! k)"
proof -
  let ?n = "length xs"
  define R where "R = {(j, i). i < ?n \<and> j < ?n \<and> i \<noteq> j \<and> le (xs ! i) (xs ! j) \<and>
      (\<not> le (xs ! j) (xs ! i) \<or> j < i)}"
  have tr: "le (xs ! a) (xs ! c)" if "a < ?n" "b < ?n" "c < ?n" "le (xs ! a) (xs ! b)" "le (xs ! b) (xs ! c)"
    for a b c using that le_trans ok by (metis nth_mem)
  have "trans R"
  proof (rule transI)
    fix c b a assume "(c, b) \<in> R" "(b, a) \<in> R"
    then have d: "a < ?n" "b < ?n" "c < ?n" "le (xs ! a) (xs ! b)" "le (xs ! b) (xs ! c)"
      "\<not> le (xs ! b) (xs ! a) \<or> b < a" "\<not> le (xs ! c) (xs ! b) \<or> c < b" by (auto simp: R_def)
    have "le (xs ! a) (xs ! c)" using tr[OF d(1-5)] .
    moreover have "\<not> le (xs ! c) (xs ! a) \<or> c < a"
      using d tr[of c a b] tr[of b c a] by auto
    moreover have "a \<noteq> c" using d by auto
    ultimately show "(c, a) \<in> R" using d by (simp add: R_def)
  qed
  moreover have "irrefl R" by (simp add: R_def irrefl_def)
  moreover have "finite R"
    by (rule finite_subset[of _ "{..<?n} \<times> {..<?n}"]) (auto simp: R_def)
  ultimately have "wf R" by (simp add: acyclic_irrefl finite_acyclic_wf trancl_id)
  then show ?thesis using assms(2)
  proof (induction i rule: wf_induct_rule)
    case (less i)
    show ?case
    proof (cases "\<exists>j. (j, i) \<in> R")
      case True
      then obtain j where j: "(j, i) \<in> R" ..
      then have "j < ?n" "le (xs ! i) (xs ! j)" by (auto simp: R_def)
      with less.IH[OF j] obtain k where "k \<in> set (survivors le xs)" "le (xs ! j) (xs ! k)" by auto
      moreover from this have "k < ?n" by (simp add: survivors_def)
      ultimately show ?thesis using tr \<open>j < ?n\<close> \<open>le (xs ! i) (xs ! j)\<close> less.prems by blast
    next
      case False
      then have "i \<in> set (survivors le xs)"
        using less.prems by (auto simp: survivors_def list_ex_iff R_def)
      then show ?thesis using le_refl ok less.prems by (metis nth_mem)
    qed
  qed
qed

lemma survivors_antichain:
  assumes "i \<in> set (survivors le xs)" "j \<in> set (survivors le xs)" "i \<noteq> j"
  shows "\<not> le (xs ! i) (xs ! j)"
proof
  assume "le (xs ! i) (xs ! j)"
  moreover have "i < length xs" "j < length xs" using assms by (auto simp: survivors_def)
  moreover from this have "le (xs ! i) (xs ! j) \<Longrightarrow> le (xs ! j) (xs ! i) \<and> \<not> j < i"
    "le (xs ! j) (xs ! i) \<Longrightarrow> \<not> i < j"
    using assms by (auto simp: survivors_def list_ex_iff)
  ultimately show False using assms(3) by auto
qed

end

lemma matcherLE_refl: "wfMatcher a \<Longrightarrow> matcherLE a a"
  by (rule matcherLE_complete) auto

lemma matcherLE_trans:
  "wfMatcher a \<Longrightarrow> wfMatcher b \<Longrightarrow> wfMatcher c \<Longrightarrow> matcherLE a b \<Longrightarrow> matcherLE b c \<Longrightarrow> matcherLE a c"
  by (rule matcherLE_complete) (auto intro: matcherLE_sound)

interpretation matchers: covering matcherLE wfMatcher
  by unfold_locales (fact matcherLE_refl, rule matcherLE_trans)

lemma absorbMatchers_survivors:
  "absorbMatchers ms = map (\<lambda>i. sortMatchers ms ! i) (survivors matcherLE (sortMatchers ms))"
  by (simp add: absorbMatchers_def survivors_def coveredByOther_def Let_def)

lemma set_sortMatchers [simp]: "set (sortMatchers ms) = set ms"
  by (simp add: sortMatchers_def)

lemma absorbMatchers_subset: "set (absorbMatchers ms) \<subseteq> set ms"
proof -
  have "set (absorbMatchers ms) \<subseteq> set (sortMatchers ms)"
    by (auto simp: absorbMatchers_survivors survivors_def simp del: set_sortMatchers)
  then show ?thesis by simp
qed

lemma absorbMatchers_above:
  assumes wf: "\<And>m. m \<in> set ms \<Longrightarrow> wfMatcher m" and "m \<in> set ms"
  shows "\<exists>m'\<in>set (absorbMatchers ms). matcherLE m m'"
proof -
  from assms(2) have "m \<in> set (sortMatchers ms)" by simp
  then obtain i where "i < length (sortMatchers ms)" "sortMatchers ms ! i = m"
    by (auto simp: in_set_conv_nth simp del: set_sortMatchers)
  with matchers.survivor_above[of "sortMatchers ms" i] wf show ?thesis
    by (auto simp: absorbMatchers_survivors)
qed

lemma absorbMatchers_accepts:
  assumes wf: "\<And>m. m \<in> set ms \<Longrightarrow> wfMatcher m" and "rooted p"
  shows "(\<exists>m\<in>set (absorbMatchers ms). Match m h p) \<longleftrightarrow> (\<exists>m\<in>set ms. Match m h p)"
proof
  assume "\<exists>m\<in>set (absorbMatchers ms). Match m h p"
  then show "\<exists>m\<in>set ms. Match m h p" using absorbMatchers_subset by blast
next
  assume "\<exists>m\<in>set ms. Match m h p"
  then show "\<exists>m\<in>set (absorbMatchers ms). Match m h p"
    using absorbMatchers_above[OF wf] matcherLE_sound assms(2) by blast
qed

lemma normalizeMatcher_widens: "Match m h p \<Longrightarrow> Match (normalizeMatcher m) h p"
  by (auto simp: Match_def matchHost_def matchPath_def normalizeMatcher_def Let_def split: HostKind.splits PathKind.splits)

lemma normalizeMatcher_wf: "wfMatcher m \<Longrightarrow> wfMatcher (normalizeMatcher m)"
  by (auto simp: wfMatcher_def normalizeMatcher_def Let_def split: PathKind.splits)

lemma EnvelopeOf_covers:
  assumes wf: "\<And>m. m \<in> set ms \<Longrightarrow> wfMatcher m" and "rooted p" and "m \<in> set ms" and "Match m h p"
  shows "\<exists>m'\<in>set (EnvelopeOf ms). Match m' h p"
proof -
  have "wfMatcher m'" if "m' \<in> set (normalizeEnvelope ms)" for m'
    using that wf normalizeMatcher_wf by (auto simp: normalizeEnvelope_def)
  moreover have "\<exists>m'\<in>set (normalizeEnvelope ms). Match m' h p"
    using assms(3,4) normalizeMatcher_widens by (auto simp: normalizeEnvelope_def)
  ultimately show ?thesis
    unfolding EnvelopeOf_def using absorbMatchers_accepts[of "normalizeEnvelope ms" p h] assms(2) by blast
qed

lemma GlobalEnvelope_covers: "\<exists>m\<in>set GlobalEnvelope. Match m h p"
  by (simp add: GlobalEnvelope_def Match_def matchHost_def matchPath_def zeroMatcher_def)

lemma conjCovers_matcher:
  assumes "conjsToMatchers cs = Inr ms" and "c \<in> set cs" and "wfConj c" and "rooted (rqPath q)"
    and "conjCovers c q"
  shows "\<exists>m\<in>set ms. Match m (rqHost q) (rqPath q)"
proof -
  have "\<exists>h\<in>set (conjHosts c). Match (conjMatcher c h) (rqHost q) (rqPath q)"
    using assms(3-5) by (auto simp: conjCovers_def Match_def conjMatcher_path conjMatcher_host conjHosts_def
        hostsAllow_def wfConj_def list_all_iff list_ex_iff)
  then show ?thesis using conjsToMatchers_set[OF assms(1)] assms(2) by blast
qed

lemma conjsToMatchers_wf:
  "conjsToMatchers cs = Inr ms \<Longrightarrow> (\<And>c. c \<in> set cs \<Longrightarrow> wfConj c) \<Longrightarrow> m \<in> set ms \<Longrightarrow> wfMatcher m"
  using conjsToMatchers_set[of cs ms m] conjMatcher_wf by auto

lemma renderEnvelope_covers:
  assumes wf: "\<And>c. c \<in> set cs \<Longrightarrow> wfConj c" and "\<exists>c\<in>set cs. conjCovers c q" and "rooted (rqPath q)"
  shows "\<exists>m\<in>set (renderEnvelope cs). Match m (rqHost q) (rqPath q)"
proof -
  have step: "\<exists>m\<in>set (EnvelopeOf ms). Match m (rqHost q) (rqPath q)"
    if "conjsToMatchers ds = Inr ms" "\<And>c. c \<in> set ds \<Longrightarrow> wfConj c" "\<exists>c\<in>set ds. conjCovers c q" for ds ms
  proof -
    from that(3) obtain c where "c \<in> set ds" "conjCovers c q" by blast
    with conjCovers_matcher[OF that(1)] that(2) assms(3)
    obtain m where "m \<in> set ms" "Match m (rqHost q) (rqPath q)" by blast
    with EnvelopeOf_covers[of ms] conjsToMatchers_wf[OF that(1)] that(2) assms(3) show ?thesis by blast
  qed
  show ?thesis
    using step[OF _ wf assms(2)] step[OF _ coarsenConjs_wf[OF wf] coarsenConjs_covers[OF assms(2)]]
      GlobalEnvelope_covers
    by (auto simp: renderEnvelope_def split: sum.splits)
qed

lemma RuleEnvelope_accepts:
  assumes "traefik_reading F" and "trimSpace rule \<noteq> []" and "rooted (rqPath q)"
    and "\<And>e. envParse rule = Some e \<Longrightarrow> mayMatch F e q"
  shows "\<exists>m\<in>set (RuleEnvelope rule). Match m (rqHost q) (rqPath q)"
proof (cases "deriveEnvelope rule")
  case None
  then show ?thesis using assms(2) GlobalEnvelope_covers by (simp add: RuleEnvelope_def)
next
  case (Some cs)
  then obtain e where e: "envParse rule = Some e" "envelope e = Some cs"
    by (auto simp: deriveEnvelope_def split: option.splits if_splits)
  have "\<exists>c\<in>set cs. conjCovers c q"
    using traefik_reading.envelope_covers[OF assms(1) e(2) assms(4)[OF e(1)] assms(3)] .
  with renderEnvelope_covers[OF envelope_wf[OF e(2)] _ assms(3)] Some assms(2) show ?thesis
    by (simp add: RuleEnvelope_def)
qed

section \<open>Properties\<close>

text \<open>
  C2: A refusal envelope never refuses less than its rule claimed.  Take any reading of the rule's calls
  in which literal hosts and paths match no more than their literals (nothing is assumed of other
  calls), and let a negation match anything.  Then every request with a rooted path that a non-blank
  rule may match is matched by some matcher of \<^verbatim>\<open>RuleEnvelope\<close>; a rule that cannot be read at all
  refuses everything.
\<close>

theorem RuleEnvelope_covers:
  assumes "traefik_reading F" and "trimSpace rule \<noteq> []" and "rooted (rqPath q)"
    and "\<And>e. envParse rule = Some e \<Longrightarrow> mayMatch F e q"
  shows "\<exists>m\<in>set (RuleEnvelope rule). Match m (rqHost q) (rqPath q)"
  using RuleEnvelope_accepts[OF assms] .

theorem RuleEnvelope_covers_witness:
  "\<exists>m\<in>set (RuleEnvelope ''Host(`a.io`) && !Path(`/x`)'').
     Match m (rqHost \<lparr>rqHost = ''a.io'', rqPath = ''/y'', rqPeer = V4 1\<rparr>)
       (rqPath \<lparr>rqHost = ''a.io'', rqPath = ''/y'', rqPeer = V4 1\<rparr>)"
proof (rule RuleEnvelope_covers[where F = fnSem])
  show "traefik_reading fnSem" by (rule strict_reading.traefik_reading_axioms)
  show "mayMatch fnSem e \<lparr>rqHost = ''a.io'', rqPath = ''/y'', rqPeer = V4 1\<rparr>"
    if "envParse ''Host(`a.io`) && !Path(`/x`)'' = Some e" for e
  proof -
    have "envParse ''Host(`a.io`) && !Path(`/x`)'' =
        Some (envAndExpr (envFnExpr ''Host'' [''a.io'']) envNotExpr)" by code_simp
    with that have "e = envAndExpr (envFnExpr ''Host'' [''a.io'']) envNotExpr" by simp
    then show ?thesis by (simp add: fnSem_def matchTraefikHost_def Let_def)
  qed
qed code_simp+

text \<open>
  The two readers agree: a rule the strict parser accepts is read by the tolerant one as the same
  tree, so its refusal envelope covers every request the accepted rule matches.
\<close>

theorem RuleEnvelope_strict_covers:
  assumes "parseTree rule = Inr e" and "trimSpace rule \<noteq> []" and "rooted (rqPath q)" and "ruleSem e q"
  shows "envParse rule = Some (envOf e) \<and>
    (\<exists>m\<in>set (RuleEnvelope rule). Match m (rqHost q) (rqPath q))"
proof -
  note p = envParse_strict[OF assms(1)]
  show ?thesis
  proof (cases "deriveEnvelope rule")
    case None
    then show ?thesis using assms(2) GlobalEnvelope_covers p by (simp add: RuleEnvelope_def)
  next
    case (Some cs)
    then have e: "envelope (envOf e) = Some cs"
      by (auto simp: deriveEnvelope_def p split: option.splits if_splits)
    have "\<exists>c\<in>set cs. conjCovers c q"
      using strict_reading.envelope_covers[OF e _ assms(3)] assms(4) by (simp add: mayMatch_strict)
    with renderEnvelope_covers[OF envelope_wf[OF e] _ assms(3)] Some assms(2) p show ?thesis
      by (simp add: RuleEnvelope_def)
  qed
qed

theorem RuleEnvelope_strict_covers_witness:
  "envParse ''Host(`a.io`)'' = Some (envOf (fnExpr ''Host'' [''a.io''])) \<and>
   (\<exists>m\<in>set (RuleEnvelope ''Host(`a.io`)'').
      Match m (rqHost \<lparr>rqHost = ''A.io.'', rqPath = ''/y'', rqPeer = V4 1\<rparr>)
        (rqPath \<lparr>rqHost = ''A.io.'', rqPath = ''/y'', rqPeer = V4 1\<rparr>))"
  by (rule RuleEnvelope_strict_covers) code_simp+

text \<open>
  C35: Absorption loses and invents nothing: on well-formed matchers the kept ones accept exactly the
  same host and path pairs, all come from the input, and none of them covers another.
\<close>

theorem absorbMatchers_correct:
  assumes wf: "list_all wfMatcher ms" and "rooted p"
  shows "((\<exists>m\<in>set (absorbMatchers ms). Match m h p) \<longleftrightarrow> (\<exists>m\<in>set ms. Match m h p)) \<and>
    set (absorbMatchers ms) \<subseteq> set ms \<and>
    (\<forall>i j. i < length (absorbMatchers ms) \<longrightarrow> j < length (absorbMatchers ms) \<longrightarrow> i \<noteq> j \<longrightarrow>
       \<not> matcherLE (absorbMatchers ms ! i) (absorbMatchers ms ! j))"
proof (intro conjI allI impI)
  show "(\<exists>m\<in>set (absorbMatchers ms). Match m h p) \<longleftrightarrow> (\<exists>m\<in>set ms. Match m h p)"
    using absorbMatchers_accepts assms by (simp add: list_all_iff)
  show "set (absorbMatchers ms) \<subseteq> set ms" by (rule absorbMatchers_subset)
next
  fix i j assume ij: "i < length (absorbMatchers ms)" "j < length (absorbMatchers ms)" "i \<noteq> j"
  let ?s = "survivors matcherLE (sortMatchers ms)"
  have "distinct ?s" by (simp add: survivors_def)
  with ij have "?s ! i \<noteq> ?s ! j" "?s ! i \<in> set ?s" "?s ! j \<in> set ?s"
    by (auto simp: absorbMatchers_survivors nth_eq_iff_index_eq)
  with matchers.survivors_antichain ij show "\<not> matcherLE (absorbMatchers ms ! i) (absorbMatchers ms ! j)"
    by (simp add: absorbMatchers_survivors)
qed

theorem absorbMatchers_correct_witness:
  "(\<exists>m\<in>set (absorbMatchers [CompileNative ''a.io'' ''/x'', CompileNative ''a.io'' ''/*'']).
      Match m ''a.io'' ''/x'') \<longleftrightarrow>
   (\<exists>m\<in>set [CompileNative ''a.io'' ''/x'', CompileNative ''a.io'' ''/*'']. Match m ''a.io'' ''/x'')"
  using absorbMatchers_correct[of "[CompileNative ''a.io'' ''/x'', CompileNative ''a.io'' ''/*'']" "''/x''" "''a.io''"]
  by (simp add: CompileNative_def statutePathKind_def wfMatcher_def rooted_def zeroMatcher_def Let_def hasSuffix_def)

end
