(* ===== verification/Strategies.thy ===== *)
theory Strategies
  imports Go_Base "HOL-Library.Word" "HOL-Library.Multiset"
begin

text \<open>
  Backend selection, \<^verbatim>\<open>src/strategies.go\<close>.  A backend is named by a number, standing for the pointer to
  its \<^verbatim>\<open>backendState\<close>; what the code reads through the pointer (weight, in-flight counter) is a function
  of that number.  Every picker is a value of \<open>picker\<close> and \<open>pick\<close> returns the chosen backend together
  with the updated picker.  The round-robin counter is a 64-bit word, as \<^verbatim>\<open>atomic.Uint64\<close> is, and the
  address hash is FNV-1a on 64-bit words.  The weighted picker's credits and total are \<^verbatim>\<open>int\<close>s that wrap at 64 bits.  The locale \<open>picker_contract\<close> is what the pool relies on: a
  picker answers exactly when there is a candidate, and with one of the candidates.
\<close>

unbundle bit_operations_syntax

section \<open>Pickers\<close>

type_synonym bid = nat

datatype Strategy = RoundRobin | LeastConnections | IPHash | Weighted | OtherStrategy

datatype picker = roundRobinPicker "64 word" | leastConnPicker | ipHashPicker
  | weightedPicker "bid \<Rightarrow> int"

definition newPicker :: "Strategy \<Rightarrow> picker" where
  "newPicker s = (case s of
       RoundRobin \<Rightarrow> roundRobinPicker 0
     | LeastConnections \<Rightarrow> leastConnPicker
     | IPHash \<Rightarrow> ipHashPicker
     | Weighted \<Rightarrow> weightedPicker (\<lambda>_. 0)
     | OtherStrategy \<Rightarrow> roundRobinPicker 0)"

text \<open>\<^verbatim>\<open>p.idx.Add(1) - 1\<close> is the counter before the increment.\<close>

definition roundRobinPick :: "64 word \<Rightarrow> bid list \<Rightarrow> bid option \<times> 64 word" where
  "roundRobinPick idx c =
     (if c = [] then (None, idx)
      else (let i = (idx + 1) - 1 in (Some (c ! (unat i mod length c)), idx + 1)))"

fun leastConnLoop :: "(bid \<Rightarrow> int) \<Rightarrow> bid \<Rightarrow> int \<Rightarrow> bid list \<Rightarrow> bid" where
  "leastConnLoop load best bestLoad [] = best"
| "leastConnLoop load best bestLoad (s # c) =
     (let l = load s in
      if l < bestLoad then leastConnLoop load s l c else leastConnLoop load best bestLoad c)"

fun leastConnPick :: "(bid \<Rightarrow> int) \<Rightarrow> bid list \<Rightarrow> bid option" where
  "leastConnPick load [] = None"
| "leastConnPick load (b # c) = Some (leastConnLoop load b (load b) c)"

definition fnv64a :: "string \<Rightarrow> 64 word" where
  "fnv64a key = fold (\<lambda>c h. (h XOR word_of_nat (byte c)) * 1099511628211) key 14695981039346656037"

definition ipHashPick :: "bid list \<Rightarrow> string \<Rightarrow> bid option" where
  "ipHashPick c key = (if c = [] then None else Some (c ! (unat (fnv64a key) mod length c)))"

text \<open>
  Go's \<^verbatim>\<open>int\<close> is a 64-bit two's complement integer: the credits and the total of the weighted picker wrap.
\<close>

definition wrap64 :: "int \<Rightarrow> int" where
  "wrap64 k = (k + 2 ^ 63) mod 2 ^ 64 - 2 ^ 63"

definition effWeight :: "(bid \<Rightarrow> int) \<Rightarrow> bid \<Rightarrow> int" where
  "effWeight weight s = (if weight s \<le> 0 then 1 else weight s)"

fun weightedLoop :: "(bid \<Rightarrow> int) \<Rightarrow> (bid \<Rightarrow> int) \<Rightarrow> int \<Rightarrow> bid option \<Rightarrow> bid list \<Rightarrow>
    (bid \<Rightarrow> int) \<times> int \<times> bid option" where
  "weightedLoop weight current tot best [] = (current, tot, best)"
| "weightedLoop weight current tot best (s # c) =
     (let w = effWeight weight s;
          current = current(s := wrap64 (current s + w));
          tot = wrap64 (tot + w);
          best = (case best of None \<Rightarrow> Some s
            | Some b \<Rightarrow> if current s > current b then Some s else Some b)
      in weightedLoop weight current tot best c)"

definition weightedPick :: "(bid \<Rightarrow> int) \<Rightarrow> (bid \<Rightarrow> int) \<Rightarrow> bid list \<Rightarrow> bid option \<times> (bid \<Rightarrow> int)" where
  "weightedPick weight current c =
     (if c = [] then (None, current)
      else case weightedLoop weight current 0 None c of
        (current, tot, None) \<Rightarrow> (None, current)
      | (current, tot, Some best) \<Rightarrow> (Some best, current(best := wrap64 (current best - tot))))"

definition pick :: "(bid \<Rightarrow> int) \<Rightarrow> (bid \<Rightarrow> int) \<Rightarrow> picker \<Rightarrow> bid list \<Rightarrow> string \<Rightarrow> bid option \<times> picker" where
  "pick weight load p c key = (case p of
       roundRobinPicker idx \<Rightarrow> (case roundRobinPick idx c of (b, idx') \<Rightarrow> (b, roundRobinPicker idx'))
     | leastConnPicker \<Rightarrow> (leastConnPick load c, leastConnPicker)
     | ipHashPicker \<Rightarrow> (ipHashPick c key, ipHashPicker)
     | weightedPicker cur \<Rightarrow> (case weightedPick weight cur c of (b, cur') \<Rightarrow> (b, weightedPicker cur')))"

section \<open>Round robin\<close>

fun roundRobinRun :: "nat \<Rightarrow> 64 word \<Rightarrow> bid list \<Rightarrow> bid list" where
  "roundRobinRun 0 idx c = []"
| "roundRobinRun (Suc n) idx c = (case roundRobinPick idx c of
       (None, _) \<Rightarrow> []
     | (Some b, idx') \<Rightarrow> b # roundRobinRun n idx' c)"

lemma roundRobinPick_simps:
  "c \<noteq> [] \<Longrightarrow> roundRobinPick idx c = (Some (c ! (unat idx mod length c)), idx + 1)"
  by (simp add: roundRobinPick_def)

lemma roundRobinRun_eq:
  assumes "c \<noteq> []"
  shows "roundRobinRun n idx c = map (\<lambda>k. c ! (unat (idx + word_of_nat k) mod length c)) [0..<n]"
proof (induction n arbitrary: idx)
  case (Suc n)
  have "map (\<lambda>k. c ! (unat (idx + word_of_nat k) mod length c)) [0..<Suc n] =
      c ! (unat idx mod length c) # map (\<lambda>k. c ! (unat (idx + word_of_nat (Suc k)) mod length c)) [0..<n]"
    by (simp add: upt_conv_Cons map_Suc_upt[symmetric] del: upt_Suc)
  then show ?case
    using assms Suc[of "idx + 1"] by (simp add: roundRobinPick_simps ac_simps del: upt_Suc)
qed simp

text \<open>While the counter does not pass \<open>2^64\<close>, one turn over the candidates visits each of them once.\<close>

lemma unat_add_small: "unat (idx :: 64 word) + n \<le> 2 ^ 64 \<Longrightarrow> k < n \<Longrightarrow> unat (idx + word_of_nat k) = unat idx + k"
  by (simp add: unat_word_ariths(1) unat_of_nat)

lemma rotate_map: "c \<noteq> [] \<Longrightarrow> map (\<lambda>k. c ! ((m + k) mod length c)) [0..<length c] = rotate m c"
  by (rule nth_equalityI) (simp_all add: nth_rotate)

lemma roundRobinRun_rotate:
  assumes "c \<noteq> []" and "unat idx + length c \<le> 2 ^ 64"
  shows "roundRobinRun (length c) idx c = rotate (unat idx) c"
proof -
  have "roundRobinRun (length c) idx c = map (\<lambda>k. c ! ((unat idx + k) mod length c)) [0..<length c]"
    unfolding roundRobinRun_eq[OF assms(1)] by (rule map_cong) (auto simp: unat_add_small[OF assms(2)])
  then show ?thesis using rotate_map[OF assms(1)] by simp
qed

lemma mset_rotate: "mset (rotate n (c :: 'a list)) = mset c"
proof (induction n)
  case (Suc n)
  have "mset (rotate1 xs) = mset xs"  for xs :: "'a list" by (cases xs) auto
  with Suc show ?case by (simp add: rotate_def)
qed simp

section \<open>Least connections\<close>

lemma leastConnLoop_min:
  assumes "bestLoad = load best"
  shows "leastConnLoop load best bestLoad c \<in> insert best (set c) \<and>
    (\<forall>x\<in>insert best (set c). load (leastConnLoop load best bestLoad c) \<le> load x)"
  using assms by (induction load best bestLoad c rule: leastConnLoop.induct) (fastforce simp: Let_def)+

section \<open>Smooth weighted round robin\<close>

abbreviation turn :: "(bid \<Rightarrow> int) \<Rightarrow> bid list \<Rightarrow> int" where
  "turn weight c \<equiv> sum_list (map (effWeight weight) c)"

lemma effWeight_pos: "effWeight weight s \<ge> 1"
  by (simp add: effWeight_def)

lemma turn_pos: "c \<noteq> [] \<Longrightarrow> turn weight c > 0"
proof (induction c)
  case (Cons s c)
  then show ?case using effWeight_pos[of weight s] by (cases "c = []") auto
qed simp

definition raised :: "(bid \<Rightarrow> int) \<Rightarrow> (bid \<Rightarrow> int) \<Rightarrow> bid list \<Rightarrow> bid \<Rightarrow> int" where
  "raised weight cur c x = (if x \<in> set c then cur x + effWeight weight x else cur x)"

lemma wrap64_id: "- (2 ^ 63) \<le> k \<Longrightarrow> k < 2 ^ 63 \<Longrightarrow> wrap64 k = k"
  by (simp add: wrap64_def)

lemma turn_nonneg: "0 \<le> turn weight c"
  using turn_pos[of c weight] by (cases "c = []") auto

text \<open>When no credit and no total leaves the range of \<^verbatim>\<open>int\<close>, the loop raises the credits without wrapping.\<close>

lemma weightedLoop_spec:
  assumes "distinct c" and "\<And>b. best = Some b \<Longrightarrow> b \<notin> set c" and "c \<noteq> [] \<or> best \<noteq> None"
    and "\<And>x. x \<in> set c \<Longrightarrow> - (2 ^ 63) \<le> cur x + effWeight weight x \<and> cur x + effWeight weight x < 2 ^ 63"
    and "0 \<le> tot" and "tot + turn weight c < 2 ^ 63"
  shows "\<exists>m. weightedLoop weight cur tot best c = (raised weight cur c, tot + turn weight c, Some m) \<and>
    m \<in> set c \<union> set_option best \<and>
    (\<forall>x\<in>set c \<union> set_option best. raised weight cur c x \<le> raised weight cur c m)"
  using assms
proof (induction c arbitrary: cur tot best)
  case Nil
  then show ?case by (auto simp: raised_def)
next
  case (Cons s c)
  define cur' where "cur' = cur(s := cur s + effWeight weight s)"
  define best' where "best' = (case best of None \<Rightarrow> Some s | Some b \<Rightarrow> if cur' s > cur' b then Some s else Some b)"
  have b: "best' \<noteq> None" "\<And>b. best' = Some b \<Longrightarrow> b \<notin> set c"
    using Cons.prems by (auto simp: best'_def split: option.splits if_splits)
  have f: "raised weight cur' c = raised weight cur (s # c)"
    using Cons.prems(1) by (auto simp: cur'_def raised_def)
  have v: "raised weight cur (s # c) s = cur' s" "\<And>b. best = Some b \<Longrightarrow> raised weight cur (s # c) b = cur' b"
    using Cons.prems by (auto simp: cur'_def raised_def)
  have t: "0 \<le> tot + effWeight weight s" "tot + effWeight weight s < 2 ^ 63"
    using Cons.prems(5,6) effWeight_pos[of weight s] turn_nonneg[of weight c] by auto
  have r: "x \<in> set c \<Longrightarrow> - (2 ^ 63) \<le> cur' x + effWeight weight x \<and> cur' x + effWeight weight x < 2 ^ 63" for x
    using Cons.prems(1) Cons.prems(4)[of x] by (auto simp: cur'_def)
  have "distinct c" "c \<noteq> [] \<or> best' \<noteq> None" "tot + effWeight weight s + turn weight c < 2 ^ 63"
    using Cons.prems(1,6) b by (auto simp: add.assoc)
  from Cons.IH[of best' cur' "tot + effWeight weight s", OF this(1) b(2) this(2) r t(1) this(3)] obtain m where m:
    "weightedLoop weight cur' (tot + effWeight weight s) best' c =
       (raised weight cur (s # c), tot + effWeight weight s + turn weight c, Some m)"
    "m \<in> set c \<union> set_option best'"
    "\<forall>x\<in>set c \<union> set_option best'. raised weight cur (s # c) x \<le> raised weight cur (s # c) m"
    unfolding f by auto
  have w: "wrap64 (cur s + effWeight weight s) = cur s + effWeight weight s"
    "wrap64 (tot + effWeight weight s) = tot + effWeight weight s"
    using Cons.prems(4)[of s] t by (auto intro!: wrap64_id)
  have "weightedLoop weight cur tot best (s # c) = weightedLoop weight cur' (tot + effWeight weight s) best' c"
    unfolding best'_def cur'_def[symmetric] by (simp only: weightedLoop.simps Let_def cur'_def w)
  moreover have "m \<in> set (s # c) \<union> set_option best"
    using m(2) by (auto simp: best'_def split: option.splits if_splits)
  moreover have "raised weight cur (s # c) x \<le> raised weight cur (s # c) m"
    if "x \<in> set (s # c) \<union> set_option best" for x
    using that m(3) v by (fastforce simp: best'_def split: option.splits if_splits)
  ultimately show ?case using m(1) by (intro exI[of _ m]) (simp add: add.assoc)
qed

lemma weightedPick_spec:
  assumes "distinct c" and "c \<noteq> []" and "turn weight c < 2 ^ 63"
    and "\<And>x. x \<in> set c \<Longrightarrow> - (2 ^ 63) \<le> raised weight cur c x \<and> raised weight cur c x < 2 ^ 63"
  obtains m where "weightedPick weight cur c =
      (Some m, (raised weight cur c)(m := wrap64 (raised weight cur c m - turn weight c)))"
    "m \<in> set c" "\<And>x. x \<in> set c \<Longrightarrow> raised weight cur c x \<le> raised weight cur c m"
proof -
  have "- (2 ^ 63) \<le> cur x + effWeight weight x \<and> cur x + effWeight weight x < 2 ^ 63" if "x \<in> set c" for x
    using assms(4)[OF that] that by (simp add: raised_def)
  with weightedLoop_spec[OF assms(1), of None cur weight 0] assms(2,3) show ?thesis
    by (auto simp: weightedPick_def intro: that)
qed

text \<open>Credits that sum to zero and stay above minus one turn stay below one turn for each other candidate.\<close>

lemma credit_upper:
  assumes "distinct c" and "(\<Sum>i\<in>set c. cur i) = (0 :: int)" and "\<forall>i\<in>set c. cur i > - W" and "x \<in> set c"
  shows "cur x \<le> (int (length c) - 1) * W"
proof -
  have "(\<Sum>i\<in>set c - {x}. - cur i) \<le> (\<Sum>i\<in>set c - {x}. W)"
    using assms(3) by (intro sum_mono) auto
  moreover have "(\<Sum>i\<in>set c. cur i) = cur x + (\<Sum>i\<in>set c - {x}. cur i)"
    using assms(4) by (simp add: sum.remove)
  moreover have "int (card (set c - {x})) = int (length c) - 1"
    using assms(1,4) distinct_card[of c] by (cases c) (auto simp: card_Diff_singleton_if)
  ultimately show ?thesis using assms(2) by (simp add: sum_negf)
qed

fun weightedRun :: "nat \<Rightarrow> (bid \<Rightarrow> int) \<Rightarrow> (bid \<Rightarrow> int) \<Rightarrow> bid list \<Rightarrow> bid list \<times> (bid \<Rightarrow> int)" where
  "weightedRun 0 weight cur c = ([], cur)"
| "weightedRun (Suc n) weight cur c = (case weightedRun n weight cur c of
       (bs, cur) \<Rightarrow> (case weightedPick weight cur c of
           (None, cur) \<Rightarrow> (bs, cur)
         | (Some b, cur) \<Rightarrow> (b # bs, cur)))"

text \<open>
  Starting from zero, the credit of a candidate after \<open>t\<close> picks is \<open>t\<close> times its weight minus one whole
  turn for each time it was picked, no credit ever falls to minus one turn, and, when the number of
  candidates times the turn fits in an \<^verbatim>\<open>int\<close>, nothing wraps on the way.
\<close>

lemma weightedRun_invariant:
  assumes "distinct c" and "c \<noteq> []" and "int (length c) * turn weight c < 2 ^ 63"
    and "weightedRun t weight (\<lambda>_. 0) c = (bs, cur)"
  shows "length bs = t \<and> set bs \<subseteq> set c \<and>
    (\<forall>i. cur i = (if i \<in> set c then int t * effWeight weight i - turn weight c * int (count_list bs i) else 0)) \<and>
    (\<forall>i\<in>set c. cur i > - turn weight c)"
  using assms(4)
proof (induction t arbitrary: bs cur)
  case 0
  with turn_pos[OF assms(2)] show ?case by auto
next
  case (Suc t)
  let ?W = "turn weight c"
  obtain bs0 cur0 where r: "weightedRun t weight (\<lambda>_. 0) c = (bs0, cur0)" by fastforce
  note IH = Suc.IH[OF r] and Wpos = turn_pos[OF assms(2), of weight]
  have w: "?W = (\<Sum>i\<in>set c. effWeight weight i)"
    using assms(1) by (simp add: sum_list_distinct_conv_sum_set)
  have "(\<Sum>i\<in>set c. int (count_list bs0 i)) = int t"
    using IH sum_count_set[of bs0 "set c"] by (metis List.finite_set of_nat_sum)
  then have z: "(\<Sum>i\<in>set c. cur0 i) = 0"
    using IH by (simp add: sum_subtractf w flip: sum_distrib_left)
  have "1 * ?W \<le> int (length c) * ?W" using assms(2) Wpos by (intro mult_right_mono) (auto simp: Suc_le_eq)
  then have W: "?W < 2 ^ 63" using assms(3) by simp
  have rng: "- (2 ^ 63) \<le> raised weight cur0 c x \<and> raised weight cur0 c x < 2 ^ 63" if x: "x \<in> set c" for x
  proof -
    have "effWeight weight x \<le> ?W" unfolding w using x effWeight_pos[of weight]
      by (intro member_le_sum) (auto intro: order_trans[of 0 1])
    moreover have "cur0 x \<le> int (length c) * ?W - ?W"
      using credit_upper[OF assms(1) z _ x, of ?W] conjunct2[OF conjunct2[OF conjunct2[OF IH]]]
      by (simp only: left_diff_distrib mult_1)
    moreover have "- ?W < cur0 x" using IH x by blast
    ultimately show ?thesis using assms(3) W effWeight_pos[of weight x] x by (simp add: raised_def)
  qed
  obtain m where m: "weightedPick weight cur0 c =
      (Some m, (raised weight cur0 c)(m := wrap64 (raised weight cur0 c m - ?W)))"
    "m \<in> set c" "\<And>x. x \<in> set c \<Longrightarrow> raised weight cur0 c x \<le> raised weight cur0 c m"
    using weightedPick_spec[OF assms(1,2) W rng] by blast
  have "(\<Sum>i\<in>set c. raised weight cur0 c i) = ?W"
    using z by (simp add: raised_def sum.distrib w)
  then have p: "raised weight cur0 c m > 0"
    using m(3) sum_nonpos[of "set c" "raised weight cur0 c"] Wpos by fastforce
  then have "wrap64 (raised weight cur0 c m - ?W) = raised weight cur0 c m - ?W"
    using rng[OF m(2)] W Wpos by (intro wrap64_id) auto
  then have eq: "bs = m # bs0" "cur = (raised weight cur0 c)(m := raised weight cur0 c m - ?W)"
    using Suc.prems r m(1) by auto
  have "\<forall>i\<in>set c. cur i > - ?W"
    using IH p effWeight_pos[of weight] by (auto simp: eq raised_def intro: less_le_trans) (smt (verit))
  moreover have "cur i = (if i \<in> set c then int (Suc t) * effWeight weight i - ?W * int (count_list bs i) else 0)" for i
    using IH m(2) by (auto simp: eq raised_def algebra_simps)
  ultimately show ?case using IH m(2) by (auto simp: eq)
qed

section \<open>The contract of a picker\<close>

locale picker_contract =
  fixes select :: "'p \<Rightarrow> bid list \<Rightarrow> string \<Rightarrow> bid option \<times> 'p"
  assumes select_empty: "fst (select p [] key) = None"
    and select_member: "c \<noteq> [] \<Longrightarrow> \<exists>b\<in>set c. fst (select p c key) = Some b"
begin

lemma select_None_iff: "fst (select p c key) = None \<longleftrightarrow> c = []"
  using select_empty[of p key] select_member[of c p key] by (cases "c = []") auto

lemma select_SomeD: "fst (select p c key) = Some b \<Longrightarrow> b \<in> set c"
  using select_empty[of p key] select_member[of c p key] by (cases "c = []") auto

end

lemma weightedLoop_best:
  "best \<noteq> None \<or> c \<noteq> [] \<Longrightarrow>
     \<exists>b\<in>set_option best \<union> set c. snd (snd (weightedLoop weight cur tot best c)) = Some b"
proof (induction c arbitrary: cur tot best)
  case (Cons s c)
  let ?cur = "cur(s := wrap64 (cur s + effWeight weight s))"
  let ?best = "case best of None \<Rightarrow> Some s | Some b \<Rightarrow> if ?cur s > ?cur b then Some s else Some b"
  have "?best \<noteq> None" by (auto split: option.splits)
  with Cons.IH[of ?best ?cur "wrap64 (tot + effWeight weight s)"] obtain b where "b \<in> set_option ?best \<union> set c"
    "snd (snd (weightedLoop weight ?cur (wrap64 (tot + effWeight weight s)) ?best c)) = Some b"
    by blast
  moreover have "set_option ?best \<subseteq> insert s (set_option best)" by (auto split: option.splits if_splits)
  ultimately show ?case by (auto simp only: weightedLoop.simps Let_def list.set)
qed auto

lemma weightedPick_member: "c \<noteq> [] \<Longrightarrow> \<exists>b\<in>set c. fst (weightedPick weight cur c) = Some b"
  using weightedLoop_best[of None c weight cur 0]
  by (auto simp: weightedPick_def split: prod.splits option.splits)

interpretation pickers: picker_contract "pick weight load" for weight load
proof
  show "fst (pick weight load p [] key) = None" for p key
    by (auto simp: pick_def roundRobinPick_def ipHashPick_def weightedPick_def split: picker.splits)
next
  show "\<exists>b\<in>set c. fst (pick weight load p c key) = Some b" if "c \<noteq> []" for p c key
  proof (cases p)
    case (roundRobinPicker idx)
    then show ?thesis using that by (simp add: pick_def roundRobinPick_def)
  next
    case leastConnPicker
    with that show ?thesis
      using leastConnLoop_min[OF refl, of load "hd c" "tl c"] by (cases c) (auto simp: pick_def)
  next
    case ipHashPicker
    then show ?thesis using that by (simp add: pick_def ipHashPick_def)
  next
    case (weightedPicker cur)
    then show ?thesis using weightedPick_member[OF that, of weight cur] by (auto simp: pick_def split: prod.splits)
  qed
qed

section \<open>Properties\<close>

text \<open>
  C20: Smooth weighted round robin is exactly proportional: over one turn (as many picks as the sum of the
  weights) from a fresh picker, every candidate is chosen exactly as often as its weight says (a weight
  below one counting as one), and the picker is back in its initial state.  This holds as long as the number
  of candidates times the sum of the weights fits in a 64-bit \<^verbatim>\<open>int\<close>: then no credit and no total wraps.
\<close>

theorem weightedPick_proportional:
  assumes "distinct c" and "c \<noteq> []" and "int (length c) * turn weight c < 2 ^ 63"
    and "weightedRun (nat (turn weight c)) weight (\<lambda>_. 0) c = (bs, cur)"
  shows "(\<forall>b\<in>set c. int (count_list bs b) = effWeight weight b) \<and> set bs \<subseteq> set c \<and> cur = (\<lambda>_. 0)"
proof -
  let ?W = "turn weight c"
  note W = turn_pos[OF assms(2), of weight]
  note inv = weightedRun_invariant[OF assms]
  have le: "int (count_list bs i) \<le> effWeight weight i" if "i \<in> set c" for i
  proof -
    have "cur i = ?W * effWeight weight i - ?W * int (count_list bs i)"
      using inv that W by simp
    moreover have "- ?W < cur i" using inv that by blast
    ultimately have "?W * (-1) < ?W * (effWeight weight i - int (count_list bs i))"
      by (simp add: right_diff_distrib)
    then show ?thesis using W by (simp only: mult_less_cancel_left_pos)
  qed
  have "(\<Sum>i\<in>set c. effWeight weight i - int (count_list bs i)) = 0"
  proof -
    have "(\<Sum>i\<in>set c. int (count_list bs i)) = int (length bs)"
      using inv sum_count_set[of bs "set c"] by (metis List.finite_set of_nat_sum)
    with inv W show ?thesis
      using assms(1) by (simp add: sum_subtractf sum_list_distinct_conv_sum_set)
  qed
  then have "\<forall>i\<in>set c. effWeight weight i - int (count_list bs i) = 0"
    by (subst (asm) sum_nonneg_eq_0_iff) (simp_all add: le)
  then have eq: "int (count_list bs i) = effWeight weight i" if "i \<in> set c" for i
    using that by (metis eq_iff_diff_eq_0)
  moreover have "cur = (\<lambda>_. 0)"
    using inv eq W by (auto simp: fun_eq_iff)
  ultimately show ?thesis using inv by simp
qed

theorem weightedPick_proportional_witness:
  "int (count_list (fst (weightedRun 4 (\<lambda>b. if b = 0 then 3 else 1) (\<lambda>_. 0) [0, 1])) 0) = 3"
  using weightedPick_proportional[of "[0, 1]" "\<lambda>b. if b = 0 then 3 else 1"
      "fst (weightedRun 4 (\<lambda>b. if b = 0 then 3 else 1) (\<lambda>_. 0) [0, 1])"
      "snd (weightedRun 4 (\<lambda>b. if b = 0 then 3 else 1) (\<lambda>_. 0) [0, 1])"]
  by (simp add: effWeight_def)

text \<open>
  Beyond that bound the credits wrap.  Two backends of the largest weight share the picks two to one: the
  first is picked twice before the second is picked at all.
\<close>

theorem weightedPick_overflow:
  "fst (weightedRun 3 (\<lambda>_. 9223372036854775807) (\<lambda>_. 0) [0, 1]) = [1, 0, 0]"
  by (simp add: numeral_3_eq_3 weightedPick_def effWeight_def wrap64_def)

text \<open>
  Round robin takes the candidates in turn: as long as the 64-bit counter does not wrap during the
  turn, one turn of picks is a rotation of the candidate list, so every candidate is picked once.
\<close>

theorem roundRobinPick_fair:
  assumes "c \<noteq> []" and "unat idx + length c \<le> 2 ^ 64"
  shows "roundRobinRun (length c) idx c = rotate (unat idx) c \<and>
    mset (roundRobinRun (length c) idx c) = mset c"
  using roundRobinRun_rotate[OF assms] by (simp add: mset_rotate)

theorem roundRobinPick_fair_witness:
  "roundRobinRun (length [7 :: nat, 8, 9]) 4 [7, 8, 9] = rotate (unat (4 :: 64 word)) [7, 8, 9] \<and>
   mset (roundRobinRun (length [7 :: nat, 8, 9]) 4 [7, 8, 9]) = mset [7, 8, 9]"
  by (rule roundRobinPick_fair) simp_all

text \<open>
  Least connections picks a candidate with the fewest requests in flight.
\<close>

theorem leastConnPick_minimal:
  assumes "c \<noteq> []"
  shows "\<exists>b\<in>set c. leastConnPick load c = Some b \<and> (\<forall>x\<in>set c. load b \<le> load x)"
proof (cases c)
  case (Cons a c')
  with leastConnLoop_min[OF refl, of load a c'] show ?thesis by auto
qed (use assms in simp)

theorem leastConnPick_minimal_witness:
  "leastConnPick (\<lambda>b. if b = 1 then 0 else 5) [0, 1, 2] = Some 1"
  using leastConnPick_minimal[of "[0, 1, 2]" "\<lambda>b. if b = 1 then 0 else 5"] by (auto split: if_splits)

end
