(* ===== verification/Docker_Table.thy ===== *)
theory Docker_Table
  imports Middleware_Chain Docker_Envelope Strategies
begin

text \<open>
  From the registrations of the containers to the discovered route table: the merge of same-named
  services, the pool and the middleware of a service, conflicting policies, and the refusal entries of
  \<^verbatim>\<open>src/dockerprovider.go\<close> and \<^verbatim>\<open>src/docker_route_policy.go\<close>.
\<close>

section \<open>Services\<close>

record Backend =
  Address :: string
  Weight :: int
  Backup :: bool

record Service =
  BoundService :: string
  Name :: string
  Routes :: "Matcher list"
  svcBackend :: Backend
  Extra :: "Backend list"
  svcContainer :: string
  ContainerID :: string
  Running :: bool
  Contributors :: int
  svcStrategy :: string
  HealthCheckPath :: string
  HealthCheckInterval :: string
  HealthCheckTimeout :: string

record contribution =
  coExcluded :: bool
  coServices :: "Service list"
  coTombstones :: "Matcher list"
  coRejections :: "Matcher list"

fun appendUnseen :: "Matcher list \<Rightarrow> Matcher list \<Rightarrow> Matcher list" where
  "appendUnseen routes [] = routes"
| "appendUnseen routes (r # rs) =
     (if list_ex (matcherEqual r) routes then appendUnseen routes rs else appendUnseen (routes @ [r]) rs)"

definition mergeService :: "Service \<Rightarrow> Service \<Rightarrow> Service" where
  "mergeService base add = base\<lparr>Extra := Extra base @ [svcBackend add] @ Extra add,
     Contributors := Contributors base + Contributors add, Running := Running base \<or> Running add,
     Routes := appendUnseen (Routes base) (Routes add)\<rparr>"

text \<open>The map of merged services, in the order of first appearance.\<close>

fun mergeInto :: "Service list \<Rightarrow> Service \<Rightarrow> Service list" where
  "mergeInto [] svc = [svc]"
| "mergeInto (s # ss) svc = (if Name s = Name svc then mergeService s svc # ss else s # mergeInto ss svc)"

definition mergeContributions :: "contribution list \<Rightarrow> Service list \<times> Matcher list \<times> Matcher list" where
  "mergeContributions cs =
     (let live = filter (\<lambda>c. \<not> coExcluded c) cs in
      (sort_key Name (foldl mergeInto [] (concat (map coServices live))),
       concat (map coTombstones live), concat (map coRejections live)))"

section \<open>The pool of a service\<close>

fun strategyString :: "Strategy \<Rightarrow> string" where
  "strategyString RoundRobin = ''round_robin''"
| "strategyString LeastConnections = ''least_connections''"
| "strategyString IPHash = ''ip_hash''"
| "strategyString Weighted = ''weighted''"
| "strategyString OtherStrategy = ''unknown''"

text \<open>The second component tells whether a warning is returned.\<close>

definition parseStrategy :: "string \<Rightarrow> Strategy \<times> bool" where
  "parseStrategy s =
     (if s = [] then (RoundRobin, False)
      else case find (\<lambda>st. s = strategyString st) [RoundRobin, LeastConnections, IPHash, Weighted] of
             Some st \<Rightarrow> (st, False)
           | None \<Rightarrow> (RoundRobin, True))"

fun uniqueBackends :: "string list \<Rightarrow> Backend list \<Rightarrow> Backend list" where
  "uniqueBackends seen [] = []"
| "uniqueBackends seen (b # bs) =
     (if Address b = [] \<or> List.member seen (Address b) then uniqueBackends seen bs
      else b # uniqueBackends (Address b # seen) bs)"

record surfacePool =
  spBackends :: "Backend list"
  spStrategy :: Strategy
  spHealthPath :: string
  spHealthInterval :: string
  spHealthTimeout :: string

definition servicePool :: "Service \<Rightarrow> surfacePool \<times> bool" where
  "servicePool svc =
     (let sb = sort_key Address (uniqueBackends [] (svcBackend svc # Extra svc)) in
      case parseStrategy (svcStrategy svc) of (strategy, warn) \<Rightarrow>
        (\<lparr>spBackends = sb, spStrategy = strategy, spHealthPath = HealthCheckPath svc,
          spHealthInterval = HealthCheckInterval svc, spHealthTimeout = HealthCheckTimeout svc\<rparr>, warn))"

section \<open>Middleware of discovered routes\<close>

record 'x dockerCfg =
  DefaultMiddleware :: "'x Middleware list"
  cfgMiddleware :: "string \<Rightarrow> 'x Middleware list option"
  RouterConstraints :: bool
  DefaultListeners :: "string list"
  cfgPrioritize :: bool

fun namedChains :: "('x, 'z) dockerCfg_scheme \<Rightarrow> string list \<Rightarrow> 'x Middleware list option" where
  "namedChains cfg [] = Some []"
| "namedChains cfg (name # names) = (case cfgMiddleware cfg name of
       None \<Rightarrow> None
     | Some chain \<Rightarrow> map_option (\<lambda>rest. chain @ rest) (namedChains cfg names))"

definition routeMiddleware ::
  "('x, 'z) dockerCfg_scheme \<Rightarrow> Matcher \<Rightarrow> 'x Middleware list \<Rightarrow> 'x Middleware list option" where
  "routeMiddleware cfg m hints = (case namedChains cfg (Middlewares m) of
       None \<Rightarrow> None
     | Some named \<Rightarrow>
         (let out = DefaultMiddleware cfg @ named @ hints in
          if validateResolvedMiddlewares out \<noteq> None then None else Some out))"

definition parseCompressAlgos :: "string \<Rightarrow> CompressAlgo list option" where
  "parseCompressAlgos s = map_option concat (those (map (\<lambda>a.
     let t = trimSpace a in
     if t = ''gzip'' then Some [Gzip]
     else if t = ''br'' \<or> t = ''brotli'' then Some [Brotli]
     else if t = [] \<or> t = ''true'' then Some [Gzip, Brotli]
     else None) (splitByte s CHR '','')))"

definition compressionAlgorithms :: "CompressAlgo list \<Rightarrow> bool \<times> bool" where
  "compressionAlgorithms algos = (List.member algos Gzip, List.member algos Brotli)"

fun canonicalDockerMiddleware :: "'x Middleware list \<Rightarrow> 'x Middleware list" where
  "canonicalDockerMiddleware [] = []"
| "canonicalDockerMiddleware (Middleware f g # ms) =
     Middleware
       (if Type f \<noteq> MWCompress then f
        else case compressionAlgorithms (CompressAlgos f) of (gzip, brotli) \<Rightarrow>
          f\<lparr>CompressAlgos := (if gzip then [Gzip] else []) @ (if brotli then [Brotli] else [])\<rparr>)
       (if isGroup (Middleware f g) then canonicalDockerMiddleware g else g)
     # canonicalDockerMiddleware ms"

section \<open>Constraints and refusals\<close>

definition routeListeners :: "('x, 'z) dockerCfg_scheme \<Rightarrow> string list \<Rightarrow> string list" where
  "routeListeners cfg names =
     (if \<not> RouterConstraints cfg then []
      else compact (sort (if names = [] then DefaultListeners cfg else names)))"

datatype 'h tableHandler = tombstoneHandler | workloadMutationQuarantine | serviceHandler 'h

definition normalizeRouteConstraints ::
  "('x, 'z) dockerCfg_scheme \<Rightarrow> 'h compiledRoute list \<Rightarrow> 'h compiledRoute list" where
  "normalizeRouteConstraints cfg routes = map (\<lambda>r. r\<lparr>crMatcher := (crMatcher r)\<lparr>PriorityOrder := cfgPrioritize cfg,
     ListenerNames := routeListeners cfg (ListenerNames (crMatcher r))\<rparr>\<rparr>) routes"

definition compileRefusals :: "Matcher list \<Rightarrow> 'h tableHandler compiledRoute list" where
  "compileRefusals ms = map (\<lambda>m. \<lparr>crHandler = tombstoneHandler, crService = [],
     crMatcher = m\<lparr>Middlewares := [], Hints := emptyHints\<rparr>, clientPrefixes = [],
     peerPrefixes = mustParsePrefixes (PeerIPCIDRs m)\<rparr>) ms"

definition compileTombstones :: "('x, 'z) dockerCfg_scheme \<Rightarrow> Matcher list \<Rightarrow> 'h tableHandler compiledRoute list" where
  "compileTombstones cfg ms =
     (let env = (if RouterConstraints cfg \<or> cfgPrioritize cfg
                 then concat (map (\<lambda>m. EnvelopeOf [m]) ms) else EnvelopeOf ms)
      in compileRefusals env)"

definition compileQuarantineRoutes :: "(string \<times> Matcher) list \<Rightarrow> 'h tableHandler compiledRoute list" where
  "compileQuarantineRoutes claims = map (\<lambda>(service, m). \<lparr>crHandler = workloadMutationQuarantine, crService = service,
     crMatcher = m, clientPrefixes = [], peerPrefixes = mustParsePrefixes (PeerIPCIDRs m)\<rparr>) claims"

text \<open>\<^verbatim>\<open>refuse\<close>: the rejected predicates join the table, their envelope is returned for the tombstones.\<close>

definition refuse ::
  "'h tableHandler compiledRoute list \<Rightarrow> Matcher list \<Rightarrow> 'h tableHandler compiledRoute list \<times> Matcher list" where
  "refuse rejs ms = (rejs @ compileRefusals ms, EnvelopeOf ms)"

type_synonym predicate = "string \<times> HostKind \<times> string \<times> PathKind \<times> string \<times> string \<times> int"

definition routePredicate :: "('x, 'z) dockerCfg_scheme \<Rightarrow> Matcher \<Rightarrow> predicate" where
  "routePredicate cfg m = (Host m, HostKind m, Path m, PathKind m, joinStrings (PeerIPCIDRs m) '','',
     joinStrings (routeListeners cfg (ListenerNames m)) '','', if cfgPrioritize cfg then Priority m else 0)"

type_synonym 'x routeChain = "Matcher \<times> 'x Middleware list"

record 'x policyGroup =
  pgKey :: predicate
  pgChain :: "'x routeChain"
  pgConflict :: bool

fun addToGroup :: "predicate \<Rightarrow> 'x routeChain \<Rightarrow> 'x policyGroup list \<Rightarrow> 'x policyGroup list" where
  "addToGroup key chain [] = [\<lparr>pgKey = key, pgChain = chain, pgConflict = False\<rparr>]"
| "addToGroup key chain (g # gs) =
     (if pgKey g = key then g\<lparr>pgConflict := pgConflict g \<or> snd (pgChain g) \<noteq> snd chain\<rparr> # gs
      else g # addToGroup key chain gs)"

definition policyGroups :: "('x, 'z) dockerCfg_scheme \<Rightarrow> 'x routeChain list \<Rightarrow> 'x policyGroup list" where
  "policyGroups cfg rcs =
     foldl (\<lambda>gs (m, mws). addToGroup (routePredicate cfg m) (m, canonicalDockerMiddleware mws) gs) [] rcs"

fun settleGroups ::
  "'x policyGroup list \<Rightarrow> 'h tableHandler compiledRoute list \<Rightarrow>
   'x routeChain list \<times> Matcher list \<times> 'h tableHandler compiledRoute list" where
  "settleGroups [] rejs = ([], [], rejs)"
| "settleGroups (g # gs) rejs =
     (if pgConflict g then
        (case refuse rejs [fst (pgChain g)] of (rejs', env) \<Rightarrow>
         case settleGroups gs rejs' of (kept, tombs, rejs'') \<Rightarrow> (kept, env @ tombs, rejs''))
      else (case settleGroups gs rejs of (kept, tombs, rejs') \<Rightarrow> (pgChain g # kept, tombs, rejs')))"

definition coalesceRouteChains ::
  "('x, 'z) dockerCfg_scheme \<Rightarrow> 'x routeChain list \<Rightarrow> 'h tableHandler compiledRoute list \<Rightarrow>
   'x routeChain list \<times> Matcher list \<times> 'h tableHandler compiledRoute list" where
  "coalesceRouteChains cfg rcs rejs = settleGroups (policyGroups cfg rcs) rejs"

text \<open>The last part of \<^verbatim>\<open>buildTable\<close>: the refusal tiers are compiled and every tier normalized and sorted.\<close>

definition finishTable ::
  "('x, 'z) dockerCfg_scheme \<Rightarrow> 'h tableHandler compiledRoute list \<Rightarrow> 'h tableHandler compiledRoute list \<Rightarrow>
   (string \<times> Matcher) list \<Rightarrow> Matcher list \<Rightarrow> 'h tableHandler dynamicTable" where
  "finishTable cfg routes rejs claims tombs =
     (let finish = (\<lambda>rs. sortDynamicRoutes (normalizeRouteConstraints cfg rs)) in
      \<lparr>dtRoutes = finish routes, rejections = finish rejs,
       quarantines = finish (compileQuarantineRoutes claims), tombstones = finish (compileTombstones cfg tombs)\<rparr>)"

section \<open>Tombstones\<close>

lemma Match_fields:
  assumes "Host a = Host b" "HostKind a = HostKind b" "Path a = Path b" "PathKind a = PathKind b"
  shows "Match a h p \<longleftrightarrow> Match b h p"
  unfolding Match_def matchHost_def matchPath_def assms ..

lemma Match_policy_fields [simp]:
  "Match (m\<lparr>Middlewares := a, Hints := b\<rparr>) h p \<longleftrightarrow> Match m h p"
  "Match (m\<lparr>PriorityOrder := po, ListenerNames := ls\<rparr>) h p \<longleftrightarrow> Match m h p"
  by (rule Match_fields; simp)+

lemma normalizeMatcher_peers: "PeerIPCIDRs (normalizeMatcher m) = []"
  by (simp add: normalizeMatcher_def Let_def)

lemma EnvelopeOf_peers: "m \<in> set (EnvelopeOf ms) \<Longrightarrow> PeerIPCIDRs m = []"
  using absorbMatchers_subset[of "normalizeEnvelope ms"] normalizeMatcher_peers
  by (auto simp: EnvelopeOf_def normalizeEnvelope_def)

lemma compileTombstones_covers:
  assumes "m \<in> set ms" and "Match m h p" and "rooted p" and "\<And>m. m \<in> set ms \<Longrightarrow> wfMatcher m"
  shows "\<exists>c\<in>set (compileTombstones cfg ms). Match (crMatcher c) h p \<and> peerPrefixes c = [] \<and> clientPrefixes c = []"
proof -
  let ?env = "if RouterConstraints cfg \<or> cfgPrioritize cfg then concat (map (\<lambda>m. EnvelopeOf [m]) ms) else EnvelopeOf ms"
  have single: "\<exists>e\<in>set (EnvelopeOf [m]). Match e h p"
    by (rule EnvelopeOf_covers[where m = m]) (use assms in auto)
  have all: "\<exists>e\<in>set (EnvelopeOf ms). Match e h p"
    by (rule EnvelopeOf_covers[where m = m]) (use assms in auto)
  obtain e where e: "e \<in> set ?env" "Match e h p" "PeerIPCIDRs e = []"
  proof (cases "RouterConstraints cfg \<or> cfgPrioritize cfg")
    case True
    obtain e where "e \<in> set (EnvelopeOf [m])" "Match e h p" using single by blast
    with True assms(1) EnvelopeOf_peers[of e "[m]"] show thesis by (intro that[of e]) auto
  next
    case False
    with all EnvelopeOf_peers show thesis using that by auto
  qed
  then show ?thesis
    by (intro bexI[of _ "\<lparr>crHandler = tombstoneHandler, crService = [], crMatcher = e\<lparr>Middlewares := [], Hints := emptyHints\<rparr>,
          clientPrefixes = [], peerPrefixes = mustParsePrefixes (PeerIPCIDRs e)\<rparr>"])
       (auto simp: compileTombstones_def compileRefusals_def mustParsePrefixes_def List.map_filter_simps)
qed

lemma set_finishTable:
  "set (tableRoutes (finishTable cfg routes rejs claims tombs)) =
     set (normalizeRouteConstraints cfg (routes @ rejs @ compileQuarantineRoutes claims @ compileTombstones cfg tombs))"
  by (auto simp: tableRoutes_def finishTable_def Let_def normalizeRouteConstraints_def)

lemma tombstone_admits:
  fixes routes :: "'h tableHandler compiledRoute list"
  assumes "m \<in> set tombs" and "Match m h (rPath req)" and "rooted (rPath req)" and "\<And>m. m \<in> set tombs \<Longrightarrow> wfMatcher m"
    and "\<not> RouterConstraints cfg"
  shows "\<exists>c\<in>set (tableRoutes (finishTable cfg routes rejs claims tombs)). routeAdmits h req c"
proof -
  obtain c :: "'h tableHandler compiledRoute" where c: "c \<in> set (compileTombstones cfg tombs)" "Match (crMatcher c) h (rPath req)"
    "peerPrefixes c = []" "clientPrefixes c = []"
    using compileTombstones_covers[OF assms(1-4)] by blast
  let ?c = "c\<lparr>crMatcher := (crMatcher c)\<lparr>PriorityOrder := cfgPrioritize cfg, ListenerNames := []\<rparr>\<rparr>"
  have "?c \<in> set (tableRoutes (finishTable cfg routes rejs claims tombs))"
    unfolding set_finishTable normalizeRouteConstraints_def routeListeners_def using c(1) assms(5) by auto
  moreover have "routeAdmits h req ?c"
    using c by (simp add: routeAdmits_def listenerMatches_def routePeerMatches_def)
  ultimately show ?thesis by blast
qed

section \<open>Conflicting policies\<close>

text \<open>What grouping establishes: one group per predicate, in conflict exactly when two of its chains differ.\<close>

definition chainsOf :: "('x, 'z) dockerCfg_scheme \<Rightarrow> 'x routeChain list \<Rightarrow> predicate \<Rightarrow> 'x Middleware list set" where
  "chainsOf cfg rcs k = {canonicalDockerMiddleware mws | m mws. (m, mws) \<in> set rcs \<and> routePredicate cfg m = k}"

definition grouped :: "('x, 'z) dockerCfg_scheme \<Rightarrow> 'x routeChain list \<Rightarrow> 'x policyGroup list \<Rightarrow> bool" where
  "grouped cfg rcs gs \<longleftrightarrow> distinct (map pgKey gs) \<and> set (map pgKey gs) = routePredicate cfg ` fst ` set rcs \<and>
     (\<forall>g\<in>set gs. routePredicate cfg (fst (pgChain g)) = pgKey g \<and> snd (pgChain g) \<in> chainsOf cfg rcs (pgKey g) \<and>
        (pgConflict g \<longleftrightarrow> (\<exists>c\<in>chainsOf cfg rcs (pgKey g). c \<noteq> snd (pgChain g))))"

lemma keys_addToGroup: "set (map pgKey (addToGroup k c gs)) = insert k (set (map pgKey gs))"
  by (induction gs) auto

lemma distinct_addToGroup: "distinct (map pgKey gs) \<Longrightarrow> distinct (map pgKey (addToGroup k c gs))"
proof (induction gs)
  case (Cons g gs)
  then show ?case using keys_addToGroup[of k c gs] by auto
qed simp

lemma in_addToGroup:
  assumes "g \<in> set (addToGroup k c gs)" and "distinct (map pgKey gs)"
  shows "(g \<in> set gs \<and> pgKey g \<noteq> k) \<or>
    (\<exists>g0\<in>set gs. pgKey g0 = k \<and> g = g0\<lparr>pgConflict := pgConflict g0 \<or> snd (pgChain g0) \<noteq> snd c\<rparr>) \<or>
    (k \<notin> set (map pgKey gs) \<and> g = \<lparr>pgKey = k, pgChain = c, pgConflict = False\<rparr>)"
  using assms
proof (induction gs)
  case (Cons a gs)
  show ?case
  proof (cases "pgKey a = k")
    case True
    have "k \<notin> pgKey ` set gs" using Cons.prems(2) True by simp
    then have "pgKey x \<noteq> k" if "x \<in> set gs" for x using that by (metis imageI)
    with True Cons.prems show ?thesis by auto
  next
    case False
    with Cons show ?thesis by auto
  qed
qed simp

lemma chainsOf_snoc:
  "chainsOf cfg (rcs @ [(m, mws)]) k =
     (if routePredicate cfg m = k then insert (canonicalDockerMiddleware mws) (chainsOf cfg rcs k) else chainsOf cfg rcs k)"
  by (auto simp: chainsOf_def)

lemma chainsOf_empty: "k \<notin> routePredicate cfg ` fst ` set rcs \<Longrightarrow> chainsOf cfg rcs k = {}"
  unfolding chainsOf_def by (force simp: image_image)

lemma grouped_snoc:
  assumes "grouped cfg rcs gs"
  shows "grouped cfg (rcs @ [(m, mws)]) (addToGroup (routePredicate cfg m) (m, canonicalDockerMiddleware mws) gs)"
    (is "grouped _ _ ?gs")
proof -
  have d: "distinct (map pgKey gs)" and keys: "set (map pgKey gs) = routePredicate cfg ` fst ` set rcs"
    using assms by (auto simp: grouped_def)
  have "routePredicate cfg (fst (pgChain g)) = pgKey g \<and> snd (pgChain g) \<in> chainsOf cfg (rcs @ [(m, mws)]) (pgKey g) \<and>
      (pgConflict g \<longleftrightarrow> (\<exists>c\<in>chainsOf cfg (rcs @ [(m, mws)]) (pgKey g). c \<noteq> snd (pgChain g)))" if g: "g \<in> set ?gs" for g
  proof -
    have old: "routePredicate cfg (fst (pgChain x)) = pgKey x \<and> snd (pgChain x) \<in> chainsOf cfg rcs (pgKey x) \<and>
        (pgConflict x \<longleftrightarrow> (\<exists>c\<in>chainsOf cfg rcs (pgKey x). c \<noteq> snd (pgChain x)))" if "x \<in> set gs" for x
      using assms that by (auto simp: grouped_def)
    consider (other) "g \<in> set gs" "pgKey g \<noteq> routePredicate cfg m"
      | (same) g0 where "g0 \<in> set gs" "pgKey g0 = routePredicate cfg m"
          "g = g0\<lparr>pgConflict := pgConflict g0 \<or> snd (pgChain g0) \<noteq> canonicalDockerMiddleware mws\<rparr>"
      | (new) "routePredicate cfg m \<notin> set (map pgKey gs)"
          "g = \<lparr>pgKey = routePredicate cfg m, pgChain = (m, canonicalDockerMiddleware mws), pgConflict = False\<rparr>"
      using in_addToGroup[OF g d] by auto
    then show ?thesis
    proof cases
      case other
      then show ?thesis using old[OF other(1)] by (simp add: chainsOf_snoc)
    next
      case same
      have k: "chainsOf cfg (rcs @ [(m, mws)]) (pgKey g0) = insert (canonicalDockerMiddleware mws) (chainsOf cfg rcs (pgKey g0))"
        unfolding chainsOf_snoc using same(2) by (metis (full_types))
      note o = old[OF same(1)]
      have "(pgConflict g0 \<or> snd (pgChain g0) \<noteq> canonicalDockerMiddleware mws) \<longleftrightarrow>
          (\<exists>c\<in>insert (canonicalDockerMiddleware mws) (chainsOf cfg rcs (pgKey g0)). c \<noteq> snd (pgChain g0))"
        unfolding conjunct2[OF conjunct2[OF o]] by (cases "snd (pgChain g0) = canonicalDockerMiddleware mws") simp_all
      moreover have "pgKey g = pgKey g0" "pgChain g = pgChain g0"
          "pgConflict g = (pgConflict g0 \<or> snd (pgChain g0) \<noteq> canonicalDockerMiddleware mws)"
        by (simp_all add: same(3))
      ultimately show ?thesis using conjunct1[OF o] conjunct1[OF conjunct2[OF o]] by (simp only: k insertI2 simp_thms)
    next
      case new
      then have "chainsOf cfg rcs (routePredicate cfg m) = {}" unfolding keys by (intro chainsOf_empty)
      with new(2) show ?thesis by (simp add: chainsOf_snoc)
    qed
  qed
  then show ?thesis
    using keys_addToGroup[of "routePredicate cfg m" _ gs] distinct_addToGroup[OF d] keys by (auto simp: grouped_def)
qed

lemma policyGroups_grouped: "grouped cfg rcs (policyGroups cfg rcs)"
proof (induction rcs rule: rev_induct)
  case Nil
  then show ?case by (simp add: grouped_def policyGroups_def)
next
  case (snoc rc rcs)
  then show ?case using grouped_snoc[OF snoc.IH, of "fst rc" "snd rc"] by (cases rc) (simp add: policyGroups_def)
qed

lemma settleGroups_spec:
  assumes "settleGroups gs rejs = (kept, tombs, rejs')"
  shows "kept = map pgChain (filter (\<lambda>g. \<not> pgConflict g) gs) \<and>
    rejs' = rejs @ compileRefusals (map (fst \<circ> pgChain) (filter pgConflict gs)) \<and>
    tombs = concat (map (\<lambda>g. EnvelopeOf [fst (pgChain g)]) (filter pgConflict gs))"
  using assms
proof (induction gs arbitrary: rejs kept tombs rejs')
  case (Cons g gs)
  obtain k t r where "settleGroups gs (if pgConflict g then fst (refuse rejs [fst (pgChain g)]) else rejs) = (k, t, r)"
    by (cases "settleGroups gs (if pgConflict g then fst (refuse rejs [fst (pgChain g)]) else rejs)") auto
  with Cons.prems Cons.IH[OF this] show ?case by (auto simp: refuse_def compileRefusals_def split: if_splits)
qed (simp add: compileRefusals_def)

section \<open>Merging\<close>

definition backendsOf :: "Service \<Rightarrow> Backend list" where
  "backendsOf s = svcBackend s # Extra s"

text \<open>What a merged service must hold of the same-named registrations \<open>ss\<close>.\<close>

definition mergeOf :: "Service list \<Rightarrow> Service \<Rightarrow> bool" where
  "mergeOf ss svc \<longleftrightarrow> backendsOf svc = concat (map backendsOf ss) \<and>
     Contributors svc = sum_list (map Contributors ss) \<and> (Running svc \<longleftrightarrow> list_ex Running ss) \<and>
     (\<forall>s\<in>set ss. \<forall>r\<in>set (Routes s). list_ex (matcherEqual r) (Routes svc)) \<and>
     set (Routes svc) \<subseteq> (\<Union>s\<in>set ss. set (Routes s))"

lemma appendUnseen_keeps: "set routes \<subseteq> set (appendUnseen routes rs)"
  by (induction routes rs rule: appendUnseen.induct) (auto split: if_splits)

lemma matcherEqual_refl [simp]: "matcherEqual m m"
  by (simp add: matcherEqual_def)

lemma list_ex_mono: "list_ex P xs \<Longrightarrow> set xs \<subseteq> set ys \<Longrightarrow> list_ex P ys"
  by (auto simp: list_ex_iff)

lemma appendUnseen_adds: "r \<in> set rs \<Longrightarrow> list_ex (matcherEqual r) (appendUnseen routes rs)"
proof (induction routes rs rule: appendUnseen.induct)
  case (2 routes q rs)
  have "list_ex (matcherEqual q) (appendUnseen routes (q # rs))"
  proof (cases "list_ex (matcherEqual q) routes")
    case True
    then show ?thesis by (rule list_ex_mono) (rule appendUnseen_keeps)
  next
    case False
    have "list_ex (matcherEqual q) (routes @ [q])" by simp
    then show ?thesis using False list_ex_mono[OF _ appendUnseen_keeps[of "routes @ [q]" rs]] by simp
  qed
  with 2 show ?case by (cases "r = q") auto
qed simp

lemma appendUnseen_set: "set (appendUnseen routes rs) \<subseteq> set routes \<union> set rs"
  by (induction routes rs rule: appendUnseen.induct) auto

lemma mergeOf_snoc:
  assumes "mergeOf ss svc"
  shows "mergeOf (ss @ [s]) (mergeService svc s)"
proof -
  have "list_ex (matcherEqual r) (appendUnseen (Routes svc) (Routes s))" if "list_ex (matcherEqual r) (Routes svc)" for r
    using that by (rule list_ex_mono) (rule appendUnseen_keeps)
  then show ?thesis
    using assms appendUnseen_adds[of _ "Routes s" "Routes svc"] appendUnseen_set[of "Routes svc" "Routes s"]
    by (auto simp: mergeOf_def mergeService_def backendsOf_def)
qed

lemma mergeOf_single: "mergeOf [s] s"
proof -
  have "\<forall>r\<in>set (Routes s). list_ex (matcherEqual r) (Routes s)" unfolding list_ex_iff by (blast intro: matcherEqual_refl)
  then show ?thesis by (simp add: mergeOf_def)
qed

lemma mergeInto_names:
  "map Name (mergeInto ss s) = (if Name s \<in> set (map Name ss) then map Name ss else map Name ss @ [Name s])"
  by (induction ss) (auto simp: mergeService_def)

lemma mergeInto_mem:
  assumes "distinct (map Name ss)" and "x \<in> set (mergeInto ss s)"
  shows "(x \<in> set ss \<and> Name x \<noteq> Name s) \<or> (x = s \<and> Name s \<notin> set (map Name ss)) \<or>
    (\<exists>b\<in>set ss. Name b = Name s \<and> x = mergeService b s)"
  using assms by (induction ss) (auto split: if_splits, metis imageI)

lemma merge_fold:
  "distinct (map Name (foldl mergeInto [] ss)) \<and> set (map Name (foldl mergeInto [] ss)) = Name ` set ss \<and>
   (\<forall>x\<in>set (foldl mergeInto [] ss). mergeOf (filter (\<lambda>s. Name s = Name x) ss) x)"
proof (induction ss rule: rev_induct)
  case (snoc s ss)
  let ?M = "foldl mergeInto [] ss"
  have d: "distinct (map Name ?M)" and n: "set (map Name ?M) = Name ` set ss"
    and m: "x \<in> set ?M \<Longrightarrow> mergeOf (filter (\<lambda>s. Name s = Name x) ss) x" for x using snoc by blast+
  have "mergeOf (filter (\<lambda>s. Name s = Name x) (ss @ [s])) x" if x: "x \<in> set (mergeInto ?M s)" for x
  proof -
    consider "x \<in> set ?M" "Name x \<noteq> Name s" | "x = s" "Name s \<notin> set (map Name ?M)"
      | b where "b \<in> set ?M" "Name b = Name s" "x = mergeService b s" using mergeInto_mem[OF d x] by blast
    then show ?thesis
    proof cases
      case 1
      with m show ?thesis by simp
    next
      case 2
      then have "Name s \<notin> Name ` set ss" using n by simp
      then have "filter (\<lambda>s'. Name s' = Name s) ss = []" by (intro filter_False ballI notI) (simp add: rev_image_eqI)
      with 2 mergeOf_single show ?thesis by simp
    next
      case 3
      then show ?thesis using mergeOf_snoc[OF m[OF 3(1)], of s] by (simp add: mergeService_def)
    qed
  qed
  then show ?case using d n mergeInto_names[of ?M s] by auto
qed simp

section \<open>Properties\<close>

text \<open>
  C7: No discovered route runs with a policy it did not ask for.  Coalescing keeps at most one chain per traffic predicate;
  a predicate is served exactly when all registrations of it ask for the same middleware, and then with
  that middleware; every predicate registered with two different policies is refused, by a rejection with
  that predicate.
\<close>

theorem coalesceRouteChains_policy:
  assumes "coalesceRouteChains cfg rcs rejs = (kept, tombs, rejs')" and "(m, mws) \<in> set rcs"
  shows "distinct (map (routePredicate cfg \<circ> fst) kept) \<and>
    (if \<exists>m' mws'. (m', mws') \<in> set rcs \<and> routePredicate cfg m' = routePredicate cfg m \<and>
          canonicalDockerMiddleware mws' \<noteq> canonicalDockerMiddleware mws
     then routePredicate cfg m \<notin> set (map (routePredicate cfg \<circ> fst) kept) \<and>
          (\<exists>m'. routePredicate cfg m' = routePredicate cfg m \<and> set (compileRefusals [m']) \<subseteq> set rejs')
     else \<exists>m'. routePredicate cfg m' = routePredicate cfg m \<and> (m', canonicalDockerMiddleware mws) \<in> set kept)"
proof -
  define gs where "gs = policyGroups cfg rcs"
  have G: "grouped cfg rcs gs" unfolding gs_def by (rule policyGroups_grouped)
  have S: "kept = map pgChain (filter (\<lambda>g. \<not> pgConflict g) gs)"
    "rejs' = rejs @ compileRefusals (map (fst \<circ> pgChain) (filter pgConflict gs))"
    using settleGroups_spec[OF assms(1)[unfolded coalesceRouteChains_def]] by (simp_all add: gs_def)
  let ?k = "routePredicate cfg m"
  have key: "routePredicate cfg (fst (pgChain g)) = pgKey g" if "g \<in> set gs" for g using G that by (simp add: grouped_def)
  have d: "distinct (map pgKey gs)" using G by (simp add: grouped_def)
  have "map (routePredicate cfg \<circ> fst) kept = map pgKey (filter (\<lambda>g. \<not> pgConflict g) gs)"
    using key by (simp add: S(1))
  with d have dk: "distinct (map (routePredicate cfg \<circ> fst) kept)" by (simp add: distinct_map_filter)
  have "?k \<in> set (map pgKey gs)" using G assms(2) unfolding grouped_def by (metis fst_conv image_eqI)
  then obtain g where g: "g \<in> set gs" "pgKey g = ?k" by auto
  have uniq: "g' = g" if "g' \<in> set gs" "pgKey g' = ?k" for g'
    using that g d by (metis distinct_map inj_onD)
  have mine: "canonicalDockerMiddleware mws \<in> chainsOf cfg rcs ?k" using assms(2) by (auto simp: chainsOf_def)
  have conf: "pgConflict g \<longleftrightarrow> (\<exists>c\<in>chainsOf cfg rcs ?k. c \<noteq> snd (pgChain g))" "snd (pgChain g) \<in> chainsOf cfg rcs ?k"
    using G g(1) unfolding grouped_def g(2)[symmetric] by blast+
  have iff: "(\<exists>m' mws'. (m', mws') \<in> set rcs \<and> routePredicate cfg m' = ?k \<and>
      canonicalDockerMiddleware mws' \<noteq> canonicalDockerMiddleware mws) \<longleftrightarrow>
      (\<exists>c\<in>chainsOf cfg rcs ?k. c \<noteq> canonicalDockerMiddleware mws)" by (auto simp: chainsOf_def)
  show ?thesis
  proof (cases "\<exists>c\<in>chainsOf cfg rcs ?k. c \<noteq> canonicalDockerMiddleware mws")
    case True
    then have c: "pgConflict g" using conf mine by metis
    then have "?k \<notin> set (map (routePredicate cfg \<circ> fst) kept)" using uniq key by (auto simp: S(1))
    moreover have "set (compileRefusals [fst (pgChain g)]) \<subseteq> set rejs'" using c g(1) by (auto simp: S(2) compileRefusals_def)
    ultimately show ?thesis using dk True iff key[OF g(1)] g(2) by auto
  next
    case False
    then have "\<not> pgConflict g" "snd (pgChain g) = canonicalDockerMiddleware mws" using conf mine by metis+
    then have "pgChain g \<in> set kept" using g(1) by (simp add: S(1))
    then have "(fst (pgChain g), canonicalDockerMiddleware mws) \<in> set kept"
      using \<open>snd (pgChain g) = canonicalDockerMiddleware mws\<close> by (metis prod.collapse)
    then show ?thesis using dk False iff key[OF g(1)] g(2) by auto
  qed
qed

definition demoCfg :: "unit dockerCfg" where
  "demoCfg = \<lparr>DefaultMiddleware = [], cfgMiddleware = (\<lambda>_. None), RouterConstraints = False, DefaultListeners = [],
     cfgPrioritize = False\<rparr>"

theorem coalesceRouteChains_policy_witness:
  "let m = CompileNative ''a.io'' ''/*''; n = CompileNative ''b.io'' ''/*'';
       rcs = [(m, [demoMW MWBasicAuth]), (m, []), (n, [demoMW MWTimeout])]
   in routePredicate demoCfg m \<notin> set (map (routePredicate demoCfg \<circ> fst) (fst (coalesceRouteChains demoCfg rcs ([] :: nat tableHandler compiledRoute list))))"
proof -
  let ?m = "CompileNative ''a.io'' ''/*''" and ?n = "CompileNative ''b.io'' ''/*''"
  let ?rcs = "[(?m, [demoMW MWBasicAuth]), (?m, []), (?n, [demoMW MWTimeout])]"
  obtain kept tombs rejs' where c: "coalesceRouteChains demoCfg ?rcs ([] :: nat tableHandler compiledRoute list) = (kept, tombs, rejs')"
    by (metis prod_cases3)
  have "\<exists>m' mws'. (m', mws') \<in> set ?rcs \<and> routePredicate demoCfg m' = routePredicate demoCfg ?m \<and>
      canonicalDockerMiddleware mws' \<noteq> canonicalDockerMiddleware [demoMW MWBasicAuth]"
    by (intro exI[of _ ?m] exI[of _ "[]"]) (simp add: demoMW_def)
  with coalesceRouteChains_policy[OF c, of ?m "[demoMW MWBasicAuth]"]
  have "routePredicate demoCfg ?m \<notin> set (map (routePredicate demoCfg \<circ> fst) kept)" by simp
  then show ?thesis by (simp add: c Let_def)
qed

text \<open>
  C28: Merging loses no registration.  The merged services are strictly ordered by name, one for each name a
  live contribution registers; the backends of a merged service are exactly those of its registrations in
  their order, its contributor count is their sum, it runs when one of them runs, it has every route of them
  up to \<^verbatim>\<open>Matcher.Equal\<close>, and no other route.
\<close>

theorem mergeContributions_conserves:
  "sorted_wrt (<) (map Name (fst (mergeContributions cs))) \<and>
   set (map Name (fst (mergeContributions cs))) = Name ` set (concat (map coServices (filter (\<lambda>c. \<not> coExcluded c) cs))) \<and>
   list_all (\<lambda>svc. mergeOf (filter (\<lambda>s. Name s = Name svc) (concat (map coServices (filter (\<lambda>c. \<not> coExcluded c) cs)))) svc)
     (fst (mergeContributions cs))"
proof -
  let ?ss = "concat (map coServices (filter (\<lambda>c. \<not> coExcluded c) cs))"
  let ?M = "foldl mergeInto [] ?ss"
  have f: "fst (mergeContributions cs) = sort_key Name ?M" by (simp add: mergeContributions_def Let_def)
  have "map Name (sort_key Name ?M) = sort (map Name ?M)"
    by (rule properties_for_sort[symmetric]) simp_all
  then have "sorted (map Name (sort_key Name ?M))" "distinct (map Name (sort_key Name ?M))"
    using merge_fold[of ?ss] by simp_all
  then have "sorted_wrt (<) (map Name (sort_key Name ?M))" by (simp add: strict_sorted_iff)
  then show ?thesis using merge_fold[of ?ss] unfolding f by (simp add: list_all_iff)
qed

text \<open>
  C1: A discarded Traefik rule is refused from its text alone.  When the envelope of a rule is among the
  tombstones a table is built from (without router constraints), a request that any admissible reading of
  the rule matches is answered by a static route or an entry of the discovered table that admits it; the fallback tiers never see it,
  whatever else the table and the router hold.
\<close>

theorem discarded_rule_refused:
  assumes "dynamic s = Some (finishTable cfg routes rejs claims tombs)" and "\<not> RouterConstraints cfg"
    and "set (RuleEnvelope rule) \<subseteq> set tombs" and "\<And>m. m \<in> set tombs \<Longrightarrow> wfMatcher m"
    and "traefik_reading F" and "trimSpace rule \<noteq> []" and "rooted (rPath req)"
    and "rqHost q = stripPort (rHost req)" and "rqPath q = rPath req"
    and "\<And>e. envParse rule = Some e \<Longrightarrow> mayMatch F e q"
  shows "\<exists>d\<in>set (static s) \<union> set (tableRoutes (finishTable cfg routes rejs claims tombs)).
    routeAdmits (stripPort (rHost req)) req d \<and> dispatch s req = crHandler d"
proof -
  have "rooted (rqPath q)" using assms(7,9) by simp
  from RuleEnvelope_accepts[OF assms(5,6) this assms(10)]
  obtain m where "m \<in> set tombs" "Match m (stripPort (rHost req)) (rPath req)" using assms(3,8,9) by auto
  from tombstone_admits[OF this assms(7,4,2)]
  obtain c where "c \<in> set (tableRoutes (finishTable cfg routes rejs claims tombs))"
    "routeAdmits (stripPort (rHost req)) req c" by blast
  then show ?thesis by (rule dispatch_table[OF assms(1)])
qed

definition demoDiscarded :: "nat tableHandler router" where
  "demoDiscarded = \<lparr>PrioritizeRoutes = False, static = [],
     dynamic = Some (finishTable demoCfg [] [] [] (RuleEnvelope ''Host(`a.io`) && !Path(`/x`)'')), terminal = [],
     fallback = serviceHandler 4\<rparr>"

theorem discarded_rule_refused_witness:
  "\<exists>d\<in>set (static demoDiscarded) \<union>
      set (tableRoutes (finishTable demoCfg [] [] [] (RuleEnvelope ''Host(`a.io`) && !Path(`/x`)'') :: nat tableHandler dynamicTable)).
     routeAdmits (stripPort (rHost demoReq)) demoReq d \<and> dispatch demoDiscarded demoReq = crHandler d"
proof (rule discarded_rule_refused[where F = fnSem and rule = "''Host(`a.io`) && !Path(`/x`)''"
      and q = "\<lparr>rqHost = stripPort (rHost demoReq), rqPath = rPath demoReq, rqPeer = V4 1\<rparr>"])
  show "traefik_reading fnSem" by (rule strict_reading.traefik_reading_axioms)
  have "list_all wfMatcher (RuleEnvelope ''Host(`a.io`) && !Path(`/x`)'')" by code_simp
  then show "wfMatcher m" if "m \<in> set (RuleEnvelope ''Host(`a.io`) && !Path(`/x`)'')" for m
    using that by (simp add: list_all_iff)
  show "mayMatch fnSem e \<lparr>rqHost = stripPort (rHost demoReq), rqPath = rPath demoReq, rqPeer = V4 1\<rparr>"
    if "envParse ''Host(`a.io`) && !Path(`/x`)'' = Some e" for e
  proof -
    have "envParse ''Host(`a.io`) && !Path(`/x`)'' =
        Some (envAndExpr (envFnExpr ''Host'' [''a.io'']) envNotExpr)" by code_simp
    with that have e: "e = envAndExpr (envFnExpr ''Host'' [''a.io'']) envNotExpr" by simp
    have "stripPort (rHost demoReq) = ''a.io''" by code_simp
    then show ?thesis by (simp add: e fnSem_def matchTraefikHost_def Let_def)
  qed
  show "trimSpace ''Host(`a.io`) && !Path(`/x`)'' \<noteq> []" "rooted (rPath demoReq)" by code_simp+
qed (simp_all add: demoDiscarded_def demoCfg_def)

end
