(* ===== verification/Pool_Health.thy ===== *)
theory Pool_Health
  imports Strategies
begin

text \<open>
  Backend health and pool dispatch: the active prober of \<^verbatim>\<open>src/healthcheck.go\<close>, the passive failure
  windows of \<^verbatim>\<open>src/passivehealth.go\<close>, and the candidate selection and request accounting of
  \<^verbatim>\<open>poolHandler\<close> in \<^verbatim>\<open>src/server.go\<close>.  Times and durations are integers (nanoseconds); maps keyed by
  backend are functions with Go's zero value as default.  What a probe meets on the network (the
  outcome of building and sending its request) is the record \<open>probeEnv\<close>, an argument of \<open>probe\<close>.
  Each critical section under a mutex is one function on the state.
\<close>

section \<open>Active probing\<close>

record HealthCheck =
  hcEnabled :: bool
  hcHealthy :: int
  hcUnhealthy :: int
  hcHost :: string
  Statuses :: "int list"
  Redirects :: string
  ResolvePath :: bool

record healthRun =
  hcfg :: HealthCheck
  hactive :: bool
  successes :: "bid \<Rightarrow> int"
  hfailures :: "bid \<Rightarrow> int"

definition newHealthRun :: "HealthCheck \<Rightarrow> healthRun" where
  "newHealthRun c = \<lparr>hcfg = c, hactive = True, successes = (\<lambda>_. 0), hfailures = (\<lambda>_. 0)\<rparr>"

text \<open>Starting a generation: fresh counters, and every backend healthy again when probing is on.\<close>

definition healthStart :: "HealthCheck \<Rightarrow> bid list \<Rightarrow> (bid \<Rightarrow> bool) \<Rightarrow> healthRun \<times> (bid \<Rightarrow> bool)" where
  "healthStart c backends healthy =
     (newHealthRun c,
      if \<not> hcEnabled c \<or> backends = [] then healthy
      else fold (\<lambda>b h. h(b := True)) backends healthy)"

definition healthStop :: "healthRun \<Rightarrow> healthRun" where
  "healthStop r = r\<lparr>hactive := False\<rparr>"

definition acceptsStatus :: "HealthCheck \<Rightarrow> int \<Rightarrow> bool" where
  "acceptsStatus c code =
     (if Statuses c \<noteq> [] then List.member (Statuses c) code else code \<ge> 200 \<and> code < 400)"

definition recordSuccess :: "bid \<Rightarrow> healthRun \<times> (bid \<Rightarrow> bool) \<Rightarrow> healthRun \<times> (bid \<Rightarrow> bool)" where
  "recordSuccess b = (\<lambda>(r, healthy).
     if \<not> hactive r then (r, healthy)
     else (let r = r\<lparr>hfailures := (hfailures r)(b := 0)\<rparr>;
               r = r\<lparr>successes := (successes r)(b := successes r b + 1)\<rparr>
           in (r, if successes r b \<ge> hcHealthy (hcfg r) then healthy(b := True) else healthy)))"

definition recordFailure :: "bid \<Rightarrow> healthRun \<times> (bid \<Rightarrow> bool) \<Rightarrow> healthRun \<times> (bid \<Rightarrow> bool)" where
  "recordFailure b = (\<lambda>(r, healthy).
     if \<not> hactive r then (r, healthy)
     else (let r = r\<lparr>successes := (successes r)(b := 0)\<rparr>;
               r = r\<lparr>hfailures := (hfailures r)(b := hfailures r b + 1)\<rparr>
           in (r, if hfailures r b \<ge> hcUnhealthy (hcfg r) then healthy(b := False) else healthy)))"

record probeEnv =
  targetOk :: bool
  referenceOk :: bool
  requestOk :: bool
  doResult :: "int option"
  checkerStopped :: bool

definition probe :: "probeEnv \<Rightarrow> bid \<Rightarrow> healthRun \<times> (bid \<Rightarrow> bool) \<Rightarrow> healthRun \<times> (bid \<Rightarrow> bool)" where
  "probe env b st =
     (if \<not> targetOk env then recordFailure b st
      else if ResolvePath (hcfg (fst st)) \<and> \<not> referenceOk env then recordFailure b st
      else if \<not> requestOk env then recordFailure b st
      else case doResult env of
        None \<Rightarrow> if checkerStopped env then st else recordFailure b st
      | Some code \<Rightarrow>
          if acceptsStatus (hcfg (fst st)) code then recordSuccess b st else recordFailure b st)"

definition probeMethod :: "string \<Rightarrow> string" where
  "probeMethod m = (if m = [] then ''GET'' else m)"

section \<open>Probe redirects\<close>

definition sameHealthAuthority :: "string \<Rightarrow> string \<Rightarrow> bool" where
  "sameHealthAuthority a b =
     (if containsByte a CHR ''%'' \<or> containsByte b CHR ''%'' then a = b
      else if length a \<noteq> length b then False
      else list_all (\<lambda>(x, y). lowerChar x = lowerChar y) (zip a b))"

text \<open>A request of a redirect chain is its URL's scheme and authority; \<open>via\<close> lists the earlier ones.\<close>

definition sameOriginHealthRedirect :: "string \<times> string \<Rightarrow> (string \<times> string) list \<Rightarrow> bool" where
  "sameOriginHealthRedirect req via =
     (if via = [] \<or> length via \<ge> 10 then False
      else equalFold (fst req) (fst (hd via)) \<and> sameHealthAuthority (snd req) (snd (hd via)))"

text \<open>
  What \<^verbatim>\<open>newHealthChecker\<close> puts into the client's \<^verbatim>\<open>CheckRedirect\<close>: the function that returns \<^verbatim>\<open>http.ErrUseLastResponse\<close>,
  \<^verbatim>\<open>sameOriginHealthRedirect\<close>, or \<^verbatim>\<open>nil\<close>, which stands for the default of \<^verbatim>\<open>net/http\<close>.
\<close>

datatype redirectPolicy = useLastResponse | sameOriginRedirects | defaultRedirects

definition healthCheckRedirect :: "HealthCheck \<Rightarrow> redirectPolicy" where
  "healthCheckRedirect c =
     (let policy = (if hcHost c \<noteq> [] \<or> Statuses c \<noteq> [] then useLastResponse else sameOriginRedirects) in
      if Redirects c = ''none'' then useLastResponse
      else if Redirects c = ''same_origin'' then sameOriginRedirects
      else if Redirects c = ''any_origin'' then defaultRedirects
      else policy)"

definition redirectAllowed :: "redirectPolicy \<Rightarrow> string \<times> string \<Rightarrow> (string \<times> string) list \<Rightarrow> bool" where
  "redirectAllowed policy req via = (case policy of
       useLastResponse \<Rightarrow> False
     | sameOriginRedirects \<Rightarrow> sameOriginHealthRedirect req via
     | defaultRedirects \<Rightarrow> length via < 10)"

lemma redirectAllowed_length: "redirectAllowed policy req via \<Longrightarrow> length via < 10"
  by (auto simp: redirectAllowed_def sameOriginHealthRedirect_def split: redirectPolicy.splits if_splits)

text \<open>
  The requests \<^verbatim>\<open>http.Client.Do\<close> sends, in order: after each one the responses so far decide whether there is a redirect and
  where to (\<open>serve\<close>), and \<^verbatim>\<open>CheckRedirect\<close> whether it is followed.
\<close>

function clientDo :: "redirectPolicy \<Rightarrow> ((string \<times> string) list \<Rightarrow> (string \<times> string) option) \<Rightarrow> (string \<times> string) list \<Rightarrow>
    string \<times> string \<Rightarrow> (string \<times> string) list" where
  "clientDo policy serve via req = (case serve (via @ [req]) of
       None \<Rightarrow> via @ [req]
     | Some location \<Rightarrow>
         if redirectAllowed policy location (via @ [req]) then clientDo policy serve (via @ [req]) location else via @ [req])"
  by pat_completeness auto
termination
  by (relation "measure (\<lambda>(policy, serve, via, req). 10 - length via)") (auto dest: redirectAllowed_length)

declare clientDo.simps [simp del]

section \<open>Passive failure windows\<close>

record PassiveHealthCheck =
  FailureWindow :: int
  MaxFailures :: int
  ResetOnSuccess :: bool
  HoldDown :: int
  RecoverByProbe :: bool

record passiveRun =
  pcfg :: PassiveHealthCheck
  pactive :: bool
  pfailures :: "bid \<Rightarrow> int list"
  holds :: "bid \<Rightarrow> int option"

definition newPassiveRun :: "PassiveHealthCheck \<Rightarrow> passiveRun" where
  "newPassiveRun c = \<lparr>pcfg = c, pactive = True, pfailures = (\<lambda>_. []), holds = (\<lambda>_. None)\<rparr>"

definition passiveStop :: "passiveRun option \<Rightarrow> passiveRun option" where
  "passiveStop r = map_option (\<lambda>r. r\<lparr>pactive := False\<rparr>) r"

definition pruneWindow :: "int list \<Rightarrow> int \<Rightarrow> int list" where
  "pruneWindow ts cutoff = dropWhile (\<lambda>t. \<not> t > cutoff) ts"

text \<open>\<^verbatim>\<open>now.Before(r.holds[b])\<close>; the zero time of a missing entry lies before every clock reading.\<close>

definition beforeHold :: "int \<Rightarrow> int option \<Rightarrow> bool" where
  "beforeHold now h = (case h of None \<Rightarrow> False | Some t \<Rightarrow> now < t)"

text \<open>The window after one more failure: expired entries out, the new one in, only the latest kept.\<close>

definition windowAdd :: "PassiveHealthCheck \<Rightarrow> int list \<Rightarrow> int \<Rightarrow> int list" where
  "windowAdd c ts now =
     (let kept = pruneWindow ts (now - FailureWindow c);
          kept = kept @ [now]
      in if int (length kept) > MaxFailures c
         then drop (length kept - nat (MaxFailures c)) kept else kept)"

definition passiveRecord ::
  "int \<Rightarrow> bid \<Rightarrow> passiveRun option \<times> (bid \<Rightarrow> bool) \<Rightarrow> passiveRun option \<times> (bid \<Rightarrow> bool)" where
  "passiveRecord now b = (\<lambda>(run, healthy). case run of
       None \<Rightarrow> (None, healthy)
     | Some r \<Rightarrow>
         if \<not> pactive r then (Some r, healthy)
         else (let c = pcfg r;
                   kept = windowAdd c (pfailures r b) now;
                   r = r\<lparr>pfailures := (pfailures r)(b := kept)\<rparr>
               in if int (length kept) \<ge> MaxFailures c then
                    (if RecoverByProbe c then (Some r, healthy(b := False))
                     else if HoldDown c > 0 \<and> \<not> beforeHold now (holds r b)
                     then (Some (r\<lparr>holds := (holds r)(b := Some (now + HoldDown c))\<rparr>), healthy)
                     else (Some r, healthy))
                  else (Some r, healthy)))"

definition passiveDemoted :: "int \<Rightarrow> bid \<Rightarrow> passiveRun option \<Rightarrow> bool \<times> passiveRun option" where
  "passiveDemoted now b run = (case run of
       None \<Rightarrow> (False, None)
     | Some r \<Rightarrow>
         (let c = pcfg r in
          if RecoverByProbe c then (False, Some r)
          else if HoldDown c > 0 then
            (if beforeHold now (holds r b) then (True, Some r)
             else (False, Some (r\<lparr>holds := (holds r)(b := None)\<rparr>)))
          else (let kept = pruneWindow (pfailures r b) (now - FailureWindow c)
                in (int (length kept) \<ge> MaxFailures c,
                    Some (r\<lparr>pfailures := (pfailures r)(b := kept)\<rparr>)))))"

definition passiveSuccess :: "bid \<Rightarrow> passiveRun option \<Rightarrow> passiveRun option" where
  "passiveSuccess b run = (case run of
       None \<Rightarrow> None
     | Some r \<Rightarrow>
         if \<not> ResetOnSuccess (pcfg r) \<or> \<not> pactive r then Some r
         else Some (r\<lparr>pfailures := (pfailures r)(b := [])\<rparr>))"

section \<open>The pool\<close>

text \<open>\<open>clock b\<close> is the time read while backend \<open>b\<close> is examined.\<close>

fun available :: "(bid \<Rightarrow> bool) \<Rightarrow> (bid \<Rightarrow> int) \<Rightarrow> bid list \<Rightarrow> passiveRun option \<Rightarrow>
    bid list \<times> passiveRun option" where
  "available healthy clock [] run = ([], run)"
| "available healthy clock (s # ss) run =
     (if healthy s then
        (case passiveDemoted (clock s) s run of
           (dem, run) \<Rightarrow> (case available healthy clock ss run of
             (out, run) \<Rightarrow> (if dem then out else s # out, run)))
      else available healthy clock ss run)"

text \<open>
  A generation of passive windows is an object the pool points to and attempts pin; \<open>runs\<close> is the
  store of those objects and a pointer is an index into it.
\<close>

record poolHandler =
  primary :: "bid list"
  backup :: "bid list"
  ppicker :: picker
  weightOf :: "bid \<Rightarrow> int"
  inFlight :: "bid \<Rightarrow> int"
  phealthy :: "bid \<Rightarrow> bool"
  runs :: "passiveRun list"
  passivePtr :: "nat option"
  passiveConf :: "PassiveHealthCheck option"
  RejectUnhealthy :: bool
  clientHostPolicy :: bool

definition getRun :: "poolHandler \<Rightarrow> nat option \<Rightarrow> passiveRun option" where
  "getRun ph p = map_option (\<lambda>i. runs ph ! i) p"

definition setRun :: "nat option \<Rightarrow> passiveRun option \<Rightarrow> poolHandler \<Rightarrow> poolHandler" where
  "setRun p r ph = (case (p, r) of (Some i, Some r) \<Rightarrow> ph\<lparr>runs := (runs ph)[i := r]\<rparr> | _ \<Rightarrow> ph)"

text \<open>The backends of a new pool, split by their \<^verbatim>\<open>Backup\<close> flag, all healthy.\<close>

definition newPoolHandler ::
  "Strategy \<Rightarrow> (int \<times> bool) list \<Rightarrow> PassiveHealthCheck option \<Rightarrow> bool \<Rightarrow> bool \<Rightarrow> poolHandler" where
  "newPoolHandler s backends pc reject clientHost =
     \<lparr>primary = filter (\<lambda>i. \<not> snd (backends ! i)) [0..<length backends],
      backup = filter (\<lambda>i. snd (backends ! i)) [0..<length backends],
      ppicker = newPicker s,
      weightOf = (\<lambda>i. if i < length backends then fst (backends ! i) else 0),
      inFlight = (\<lambda>_. 0), phealthy = (\<lambda>_. True), runs = [], passivePtr = None, passiveConf = pc,
      RejectUnhealthy = reject, clientHostPolicy = clientHost\<rparr>"

definition startPassive :: "poolHandler \<Rightarrow> poolHandler" where
  "startPassive ph = (case passiveConf ph of
       None \<Rightarrow> ph
     | Some c \<Rightarrow> ph\<lparr>runs := runs ph @ [newPassiveRun c], passivePtr := Some (length (runs ph))\<rparr>)"

definition stopRun :: "nat option \<Rightarrow> poolHandler \<Rightarrow> poolHandler" where
  "stopRun p ph = setRun p (passiveStop (getRun ph p)) ph"

definition candidates :: "(bid \<Rightarrow> int) \<Rightarrow> poolHandler \<Rightarrow> bid list \<times> poolHandler" where
  "candidates clock ph =
     (let run = getRun ph (passivePtr ph) in
      case available (phealthy ph) clock (primary ph) run of (c, run) \<Rightarrow>
      if c \<noteq> [] then (c, setRun (passivePtr ph) run ph)
      else (case available (phealthy ph) clock (backup ph) run of (c, run) \<Rightarrow>
        if c \<noteq> [] then (c, setRun (passivePtr ph) run ph)
        else if RejectUnhealthy ph then ([], setRun (passivePtr ph) run ph)
        else (primary ph, setRun (passivePtr ph) run ph)))"

text \<open>An admitted attempt carries its backend and the passive generation it is pinned to.\<close>

datatype admission = BadHost | ServiceUnavailable | Attempt bid "nat option"

text \<open>
  \<^verbatim>\<open>ServeHTTP\<close> up to the proxy call, the failure hook the proxy may call during it, and what follows it.
  \<open>hostUsable\<close> is the verdict of \<^verbatim>\<open>usableUpstreamHost\<close> (a third-party check) on the request's Host.
\<close>

definition serveBegin :: "(bid \<Rightarrow> int) \<Rightarrow> bool \<Rightarrow> string \<Rightarrow> poolHandler \<Rightarrow> admission \<times> poolHandler" where
  "serveBegin clock hostUsable key ph =
     (if clientHostPolicy ph \<and> \<not> hostUsable then (BadHost, ph)
      else (case candidates clock ph of (c, ph) \<Rightarrow>
        if c = [] then (ServiceUnavailable, ph)
        else (case pick (weightOf ph) (inFlight ph) (ppicker ph) c key of
            (None, p) \<Rightarrow> (ServiceUnavailable, ph\<lparr>ppicker := p\<rparr>)
          | (Some b, p) \<Rightarrow>
              (Attempt b (passivePtr ph),
               ph\<lparr>ppicker := p, inFlight := (inFlight ph)(b := inFlight ph b + 1)\<rparr>))))"

definition attemptFailed :: "int \<Rightarrow> bid \<Rightarrow> nat option \<Rightarrow> poolHandler \<Rightarrow> poolHandler" where
  "attemptFailed now b pin ph =
     (case passiveRecord now b (getRun ph pin, phealthy ph) of
        (run, healthy) \<Rightarrow> (setRun pin run ph)\<lparr>phealthy := healthy\<rparr>)"

text \<open>
  The success hook runs unless the attempt failed, its request was cancelled or the upgrade failed
  locally; the deferred decrement runs in every case.
\<close>

definition serveEnd :: "bid \<Rightarrow> nat option \<Rightarrow> bool \<Rightarrow> poolHandler \<Rightarrow> poolHandler" where
  "serveEnd b pin succeeded ph =
     (let ph = (if succeeded then setRun pin (passiveSuccess b (getRun ph pin)) ph else ph)
      in ph\<lparr>inFlight := (inFlight ph)(b := inFlight ph b - 1)\<rparr>)"

section \<open>Hysteresis of the prober\<close>

text \<open>
  The reference: judge the outcomes of one backend, the latest first.  The flag changes only when the
  latest outcomes of one kind reach the threshold of that kind.
\<close>

fun verdict :: "int \<Rightarrow> int \<Rightarrow> bool list \<Rightarrow> bool" where
  "verdict up down [] = True"
| "verdict up down (ok # os) =
     (let n = int (length (takeWhile (\<lambda>x. x = ok) (ok # os))) in
      if ok \<and> n \<ge> up then True
      else if \<not> ok \<and> n \<ge> down then False
      else verdict up down os)"

definition observe :: "bid \<times> bool \<Rightarrow> healthRun \<times> (bid \<Rightarrow> bool) \<Rightarrow> healthRun \<times> (bid \<Rightarrow> bool)" where
  "observe e = (if snd e then recordSuccess (fst e) else recordFailure (fst e))"

text \<open>The outcomes of one backend in a history, the latest first.\<close>

definition outcomes :: "bid \<Rightarrow> (bid \<times> bool) list \<Rightarrow> bool list" where
  "outcomes b es = rev (map snd (filter (\<lambda>e. fst e = b) es))"

lemma outcomes_snoc: "outcomes b (es @ [e]) = (if fst e = b then snd e # outcomes b es else outcomes b es)"
  by (simp add: outcomes_def)

lemma observe_spec:
  assumes "fold observe es (newHealthRun c, \<lambda>_. True) = (r, healthy)"
  shows "hactive r \<and> hcfg r = c \<and>
    successes r b = int (length (takeWhile (\<lambda>x. x) (outcomes b es))) \<and>
    hfailures r b = int (length (takeWhile Not (outcomes b es))) \<and>
    healthy b = verdict (hcHealthy c) (hcUnhealthy c) (outcomes b es)"
  using assms
proof (induction es arbitrary: r healthy rule: rev_induct)
  case Nil
  then show ?case by (auto simp: newHealthRun_def outcomes_def)
next
  case (snoc e es)
  obtain r0 h0 where r0: "fold observe es (newHealthRun c, \<lambda>_. True) = (r0, h0)" by fastforce
  note IH = snoc.IH[OF r0]
  from snoc.prems r0 have "observe e (r0, h0) = (r, healthy)" by simp
  then have step: "r = fst (observe e (r0, h0))" "healthy = snd (observe e (r0, h0))" by simp_all
  obtain b' ok where e: "e = (b', ok)" by (cases e)
  show ?case
    unfolding step e observe_def outcomes_snoc using IH
    by (cases "b' = b"; cases ok) (simp_all add: recordSuccess_def recordFailure_def Let_def)
qed

section \<open>Passive windows against their history\<close>

datatype pevent = Failed bid int | Read bid int

fun eventTime :: "pevent \<Rightarrow> int" where
  "eventTime (Failed b t) = t"
| "eventTime (Read b t) = t"

fun pstep :: "pevent \<Rightarrow> passiveRun option \<Rightarrow> passiveRun option" where
  "pstep (Failed b t) run = fst (passiveRecord t b (run, \<lambda>_. True))"
| "pstep (Read b t) run = snd (passiveDemoted t b run)"

text \<open>All failures of one backend ever recorded, in order.\<close>

fun history :: "bid \<Rightarrow> pevent list \<Rightarrow> int list" where
  "history b [] = []"
| "history b (Failed b' t # es) = (if b' = b then t # history b es else history b es)"
| "history b (Read b' t # es) = history b es"

lemma history_append [simp]: "history b (es @ fs) = history b es @ history b fs"
  by (induction b es rule: history.induct) auto

lemma set_history: "set (history b es) \<subseteq> set (map eventTime es)"
  by (induction b es rule: history.induct) auto

lemma sorted_history: "sorted (map eventTime es) \<Longrightarrow> sorted (history b es)"
proof (induction b es rule: history.induct)
  case (2 b b' t es)
  then show ?case using set_history[of b es] by auto
qed auto

lemma pruneWindow_filter: "sorted ts \<Longrightarrow> pruneWindow ts c = filter (\<lambda>t. t > c) ts"
proof (induction ts)
  case (Cons t ts)
  then show ?case by (cases "t > c") (auto simp: pruneWindow_def intro!: filter_True[symmetric])
qed (simp add: pruneWindow_def)

lemma pruneWindow_suffix: "\<exists>pre. ts = pre @ pruneWindow ts c \<and> (\<forall>t\<in>set pre. t \<le> c)"
  unfolding pruneWindow_def
  by (rule exI[of _ "takeWhile (\<lambda>t. \<not> t > c) ts"]) (auto dest: set_takeWhileD)

text \<open>
  What the kept timestamps say about the whole history \<open>hs\<close> at any cutoff not before \<open>c\<close>: they are a
  suffix, and what is missing is either older than the cutoff or shadowed by a full window.
\<close>

definition faithful :: "nat \<Rightarrow> int \<Rightarrow> int list \<Rightarrow> int list \<Rightarrow> bool" where
  "faithful n c hs kept \<longleftrightarrow> length kept \<le> n \<and>
     (\<exists>pre. hs = pre @ kept \<and> ((\<forall>t\<in>set pre. t \<le> c) \<or> length kept = n))"

lemma faithful_count:
  assumes f: "faithful n c hs kept" and s: "sorted hs" and "c \<le> c'"
  shows "n \<le> length (pruneWindow kept c') \<longleftrightarrow> n \<le> length (filter (\<lambda>t. t > c') hs)"
proof -
  from f obtain pre where pre: "hs = pre @ kept" "(\<forall>t\<in>set pre. t \<le> c) \<or> length kept = n"
    by (auto simp: faithful_def)
  have sk: "sorted kept" using s pre(1) by (simp add: sorted_append)
  show ?thesis
  proof (cases "\<forall>t\<in>set pre. t \<le> c'")
    case True
    then have "filter (\<lambda>t. t > c') pre = []" by (auto simp: filter_empty_conv)
    then show ?thesis using pre(1) pruneWindow_filter[OF sk] by simp
  next
    case False
    then obtain t where t: "t \<in> set pre" "t > c'" by auto
    with pre(2) assms(3) have "length kept = n" by fastforce
    moreover have "\<forall>x\<in>set kept. x > c'" using s t pre(1) by (force simp: sorted_append)
    ultimately show ?thesis using pre(1) pruneWindow_filter[OF sk] by simp
  qed
qed

lemma faithful_prune:
  assumes f: "faithful n c hs kept" and s: "sorted hs" and "c \<le> c'"
  shows "faithful n c' hs (pruneWindow kept c')"
proof -
  from f obtain pre where pre: "hs = pre @ kept" "(\<forall>t\<in>set pre. t \<le> c) \<or> length kept = n" "length kept \<le> n"
    by (auto simp: faithful_def)
  obtain q where q: "kept = q @ pruneWindow kept c'" "\<forall>t\<in>set q. t \<le> c'"
    using pruneWindow_suffix by blast
  have "(\<forall>t\<in>set (pre @ q). t \<le> c') \<or> length (pruneWindow kept c') = n"
  proof (cases q)
    case Nil
    then show ?thesis using pre(2) q(1) assms(3) by fastforce
  next
    case (Cons x q')
    then have "x \<le> c'" using q(2) by simp
    moreover have "\<forall>t\<in>set pre. t \<le> x"
    proof -
      have "x \<in> set kept" using q(1) Cons by (metis list.set_intros(1) Un_iff set_append)
      with s pre(1) show ?thesis by (simp add: sorted_append)
    qed
    ultimately show ?thesis using q(2) by auto
  qed
  moreover have "length (pruneWindow kept c') \<le> n"
    using pre(3) by (simp add: pruneWindow_def) (meson length_dropWhile_le order_trans)
  ultimately show ?thesis
    unfolding faithful_def using pre(1) q(1) by (intro conjI exI[of _ "pre @ q"]) simp_all
qed

lemma faithful_add:
  assumes "faithful n c hs kept" and "0 < n" and "c < t"
  shows "faithful n c (hs @ [t])
    (if length (kept @ [t]) > n then drop (length (kept @ [t]) - n) (kept @ [t]) else kept @ [t])"
proof -
  from assms(1) obtain pre where pre: "hs = pre @ kept" "(\<forall>t\<in>set pre. t \<le> c) \<or> length kept = n"
    "length kept \<le> n" by (auto simp: faithful_def)
  show ?thesis
  proof (cases "length (kept @ [t]) > n")
    case True
    with pre(3) have n: "length kept = n" by simp
    with assms(2) obtain k ks where k: "kept = k # ks" by (cases kept) auto
    then show ?thesis
      using n pre(1) by (auto simp: faithful_def intro!: exI[of _ "pre @ [k]"])
  next
    case False
    then have "\<forall>t\<in>set pre. t \<le> c" using pre by auto
    with False show ?thesis using pre(1) by (auto simp: faithful_def)
  qed
qed

abbreviation windowed :: "PassiveHealthCheck \<Rightarrow> bool" where
  "windowed c \<equiv> 0 < MaxFailures c \<and> 0 < FailureWindow c \<and> \<not> RecoverByProbe c \<and> HoldDown c \<le> 0"

lemma faithful_mono: "faithful n c hs kept \<Longrightarrow> c \<le> c' \<Longrightarrow> faithful n c' hs kept"
  by (fastforce simp: faithful_def)

lemma pstep_faithful:
  assumes w: "windowed c" and "sorted (map eventTime es)"
  shows "\<exists>r. fold pstep es (Some (newPassiveRun c)) = Some r \<and> pcfg r = c \<and> pactive r \<and>
    (\<forall>b T. (\<forall>e\<in>set es. eventTime e \<le> T) \<longrightarrow>
       faithful (nat (MaxFailures c)) (T - FailureWindow c) (history b es) (pfailures r b))"
  using assms(2)
proof (induction es rule: rev_induct)
  case Nil
  then show ?case by (simp add: newPassiveRun_def faithful_def)
next
  case (snoc e es)
  let ?n = "nat (MaxFailures c)" and ?t = "eventTime e"
  from snoc obtain r where r: "fold pstep es (Some (newPassiveRun c)) = Some r" "pcfg r = c" "pactive r"
    and f: "\<And>b T. (\<forall>e\<in>set es. eventTime e \<le> T) \<Longrightarrow>
       faithful ?n (T - FailureWindow c) (history b es) (pfailures r b)"
    by (auto simp: sorted_append)
  have le: "\<forall>e\<in>set es. eventTime e \<le> ?t" and srt: "sorted (history b es)" for b
    using snoc.prems by (auto simp: sorted_append intro: sorted_history)
  let ?c = "?t - FailureWindow c"
  have p: "faithful ?n ?c (history b es) (pruneWindow (pfailures r b) ?c)" for b
    using faithful_prune[OF f[OF le] srt order_refl] .
  have keep: "faithful ?n (T - FailureWindow c) (history b es) (pfailures r b)"
    if "\<forall>e'\<in>set (es @ [e]). eventTime e' \<le> T" for b T using f that by simp
  show ?case
  proof (cases e)
    case (Failed b t)
    let ?k = "pruneWindow (pfailures r b) ?c @ [t]"
    let ?kept = "if length ?k > ?n then drop (length ?k - ?n) ?k else ?k"
    have add: "faithful ?n ?c (history b (es @ [e])) ?kept"
      using faithful_add[OF p, of t] w Failed by simp
    have "windowAdd c (pfailures r b) t = ?kept"
      using w Failed by (auto simp: windowAdd_def Let_def)
    then have "fold pstep (es @ [e]) (Some (newPassiveRun c)) = Some (r\<lparr>pfailures := (pfailures r)(b := ?kept)\<rparr>)"
      using r w Failed by (auto simp: passiveRecord_def Let_def)
    moreover have "faithful ?n (T - FailureWindow c) (history b' (es @ [e])) (((pfailures r)(b := ?kept)) b')"
      if T: "\<forall>e'\<in>set (es @ [e]). eventTime e' \<le> T" for b' T
      using keep[OF T, of b'] faithful_mono[OF add, of "T - FailureWindow c"] T Failed by auto
    ultimately show ?thesis using r by auto
  next
    case (Read b t)
    let ?kept = "pruneWindow (pfailures r b) ?c"
    have "fold pstep (es @ [e]) (Some (newPassiveRun c)) = Some (r\<lparr>pfailures := (pfailures r)(b := ?kept)\<rparr>)"
      using r w Read by (auto simp: passiveDemoted_def Let_def)
    moreover have "faithful ?n (T - FailureWindow c) (history b' (es @ [e])) (((pfailures r)(b := ?kept)) b')"
      if T: "\<forall>e'\<in>set (es @ [e]). eventTime e' \<le> T" for b' T
      using keep[OF T, of b'] faithful_mono[OF p[of b], of "T - FailureWindow c"] T Read by auto
    ultimately show ?thesis using r by auto
  qed
qed

section \<open>Candidate selection\<close>

definition usable :: "(bid \<Rightarrow> bool) \<Rightarrow> (bid \<Rightarrow> int) \<Rightarrow> passiveRun option \<Rightarrow> bid \<Rightarrow> bool" where
  "usable healthy clock run b \<longleftrightarrow> healthy b \<and> \<not> fst (passiveDemoted (clock b) b run)"

text \<open>Reading a backend's window, twice or after another backend's, gives the same answer.\<close>

lemma passiveDemoted_other:
  "b \<noteq> b' \<Longrightarrow> fst (passiveDemoted t b (snd (passiveDemoted t' b' run))) = fst (passiveDemoted t b run)"
  by (auto simp: passiveDemoted_def Let_def split: option.splits)

lemma pruneWindow_idem: "pruneWindow (pruneWindow ts c) c = pruneWindow ts c"
  by (induction ts) (simp_all add: pruneWindow_def)

lemma passiveDemoted_again:
  "fst (passiveDemoted t b (snd (passiveDemoted t b run))) = fst (passiveDemoted t b run)"
  by (auto simp: passiveDemoted_def Let_def pruneWindow_idem beforeHold_def split: option.splits)

lemma usable_read: "usable healthy clock (snd (passiveDemoted (clock b') b' run)) b = usable healthy clock run b"
  using passiveDemoted_again passiveDemoted_other by (cases "b = b'") (simp_all add: usable_def)

lemma available_spec:
  "fst (available healthy clock ss run) = filter (usable healthy clock run) ss \<and>
   usable healthy clock (snd (available healthy clock ss run)) = usable healthy clock run"
proof (induction ss arbitrary: run)
  case (Cons s ss)
  let ?run = "snd (passiveDemoted (clock s) s run)"
  have "usable healthy clock ?run = usable healthy clock run" using usable_read by blast
  with Cons[of ?run] Cons[of run] show ?case
    by (auto simp: usable_def split: prod.splits)
qed simp

lemma candidates_spec:
  "fst (candidates clock ph) =
     (let u = usable (phealthy ph) clock (getRun ph (passivePtr ph)) in
      if filter u (primary ph) \<noteq> [] then filter u (primary ph)
      else if filter u (backup ph) \<noteq> [] then filter u (backup ph)
      else if RejectUnhealthy ph then [] else primary ph)"
  using available_spec[of "phealthy ph" clock "primary ph" "getRun ph (passivePtr ph)"]
    available_spec[of "phealthy ph" clock "backup ph"
      "snd (available (phealthy ph) clock (primary ph) (getRun ph (passivePtr ph)))"]
  by (auto simp: candidates_def Let_def split: prod.splits)

section \<open>Interleaved requests\<close>

text \<open>
  The pool with its admitted attempts.  Requests begin, fail and end in any order, probes rewrite health
  flags, and passive generations start and stop.
\<close>

inductive pool_step :: "poolHandler \<times> (bid \<times> nat option) list \<Rightarrow> poolHandler \<times> (bid \<times> nat option) list \<Rightarrow> bool" where
  Begin: "serveBegin clock u key ph = (Attempt b pin, ph') \<Longrightarrow> pool_step (ph, as) (ph', (b, pin) # as)"
| Refuse: "serveBegin clock u key ph = (a, ph') \<Longrightarrow> a = BadHost \<or> a = ServiceUnavailable \<Longrightarrow>
    pool_step (ph, as) (ph', as)"
| Fail: "(b, pin) \<in> set as \<Longrightarrow> pool_step (ph, as) (attemptFailed now b pin ph, as)"
| Finish: "pool_step (ph, xs @ (b, pin) # ys) (serveEnd b pin ok ph, xs @ ys)"
| Probed: "pool_step (ph, as) (ph\<lparr>phealthy := h\<rparr>, as)"
| Start: "pool_step (ph, as) (startPassive ph, as)"
| Stop: "pool_step (ph, as) (stopRun p ph, as)"

inductive_cases pool_stepE: "pool_step (ph, as) s"

inductive pool_reachable :: "poolHandler \<Rightarrow> poolHandler \<times> (bid \<times> nat option) list \<Rightarrow> bool" for ph0 where
  Init: "pool_reachable ph0 (ph0, [])"
| Step: "pool_reachable ph0 s \<Longrightarrow> pool_step s s' \<Longrightarrow> pool_reachable ph0 s'"

lemma setRun_fields [simp]:
  "inFlight (setRun p r ph) = inFlight ph" "phealthy (setRun p r ph) = phealthy ph"
  "primary (setRun p r ph) = primary ph" "backup (setRun p r ph) = backup ph"
  "passivePtr (setRun p r ph) = passivePtr ph" "length (runs (setRun p r ph)) = length (runs ph)"
  by (auto simp: setRun_def split: option.splits)

lemma candidates_fields [simp]:
  "inFlight (snd (candidates clock ph)) = inFlight ph" "passivePtr (snd (candidates clock ph)) = passivePtr ph"
  "length (runs (snd (candidates clock ph))) = length (runs ph)"
  by (auto simp: candidates_def Let_def split: prod.splits)

lemma serveBegin_inFlight:
  "serveBegin clock u key ph = (a, ph') \<Longrightarrow>
     inFlight ph' = (case a of Attempt b _ \<Rightarrow> (inFlight ph)(b := inFlight ph b + 1) | _ \<Rightarrow> inFlight ph)"
proof -
  assume s: "serveBegin clock u key ph = (a, ph')"
  obtain c ph1 where c: "candidates clock ph = (c, ph1)" by fastforce
  with candidates_fields(1)[of clock ph] have "inFlight ph1 = inFlight ph" by simp
  with s c show ?thesis
    by (auto simp: serveBegin_def split: if_splits prod.splits option.splits)
qed

lemma pool_step_accounting:
  assumes "pool_step (ph, as) (ph', as')" and "\<And>b. inFlight ph b = int (count_list (map fst as) b)"
  shows "inFlight ph' b = int (count_list (map fst as') b)"
  using assms
  by (cases rule: pool_step.cases)
     (auto simp: attemptFailed_def serveEnd_def Let_def startPassive_def stopRun_def
       split: prod.splits option.splits dest: serveBegin_inFlight)

section \<open>Properties\<close>

text \<open>
  C29: The prober implements its thresholds exactly: whatever the order in which probe outcomes of all
  backends are recorded, a backend's flag is the verdict of its own outcomes, turning unhealthy only
  after the configured number of consecutive failures and healthy again only after the configured
  number of consecutive successes.
\<close>

theorem healthRun_hysteresis:
  assumes "fold observe es (newHealthRun c, \<lambda>_. True) = (r, healthy)"
  shows "healthy b = verdict (hcHealthy c) (hcUnhealthy c) (outcomes b es)"
  using observe_spec[OF assms] by blast

theorem healthRun_hysteresis_witness:
  "snd (fold observe [(0, False), (0, False), (1, False), (0, False), (0, True)]
      (newHealthRun \<lparr>hcEnabled = True, hcHealthy = 2, hcUnhealthy = 3, hcHost = [], Statuses = [], Redirects = [], ResolvePath = False\<rparr>,
       \<lambda>_. True)) 0 = verdict 2 3 [True, False, False, False]"
  using healthRun_hysteresis[OF prod.collapse[symmetric],
      of "[(0, False), (0, False), (1, False), (0, False), (0, True)]"
      "\<lparr>hcEnabled = True, hcHealthy = 2, hcUnhealthy = 3, hcHost = [], Statuses = [], Redirects = [], ResolvePath = False\<rparr>" 0]
  by (simp add: outcomes_def)

text \<open>
  C22: A window that keeps at most \<^verbatim>\<open>MaxFailures\<close> timestamps and forgets expired ones decides demotion as if
  it had kept everything: after any time-ordered sequence of failures and reads, a backend is demoted
  exactly when at least \<^verbatim>\<open>MaxFailures\<close> of all its recorded failures lie inside the window.
\<close>

theorem passiveDemoted_window:
  assumes "windowed c" and "sorted (map eventTime es)" and "\<forall>e\<in>set es. eventTime e \<le> now"
  shows "fst (passiveDemoted now b (fold pstep es (Some (newPassiveRun c)))) \<longleftrightarrow>
    MaxFailures c \<le> int (length (filter (\<lambda>t. t > now - FailureWindow c) (history b es)))"
proof -
  obtain r where r: "fold pstep es (Some (newPassiveRun c)) = Some r" "pcfg r = c"
    and f: "faithful (nat (MaxFailures c)) (now - FailureWindow c) (history b es) (pfailures r b)"
    using pstep_faithful[OF assms(1,2)] assms(3) by blast
  have "nat (MaxFailures c) \<le> length (pruneWindow (pfailures r b) (now - FailureWindow c)) \<longleftrightarrow>
      nat (MaxFailures c) \<le> length (filter (\<lambda>t. t > now - FailureWindow c) (history b es))"
    by (rule faithful_count[OF f sorted_history[OF assms(2)] order_refl])
  with r assms(1) show ?thesis by (auto simp: passiveDemoted_def Let_def nat_le_iff)
qed

theorem passiveDemoted_window_witness:
  "fst (passiveDemoted 12 0 (fold pstep [Failed 0 1, Failed 0 5, Read 0 6, Failed 0 11]
      (Some (newPassiveRun \<lparr>FailureWindow = 10, MaxFailures = 2, ResetOnSuccess = False, HoldDown = 0,
        RecoverByProbe = False\<rparr>)))) \<longleftrightarrow>
   (2 :: int) \<le> int (length (filter (\<lambda>t. t > 12 - 10) (history 0 [Failed 0 1, Failed 0 5, Read 0 6, Failed 0 11])))"
  using passiveDemoted_window[of "\<lparr>FailureWindow = 10, MaxFailures = 2, ResetOnSuccess = False, HoldDown = 0,
        RecoverByProbe = False\<rparr>" "[Failed 0 1, Failed 0 5, Read 0 6, Failed 0 11]" 12 0]
  by simp

text \<open>
  C23: A pool admits a request to a backend that is actively healthy and not passively demoted whenever
  it has one, primaries before backups; only when none is usable does it fall back to its primaries,
  and with \<^verbatim>\<open>RejectUnhealthy\<close> it refuses instead.
\<close>

theorem serveBegin_tiers:
  assumes "serveBegin clock u key ph = (a, ph')"
    and "us = usable (phealthy ph) clock (getRun ph (passivePtr ph))"
  shows "a = BadHost \<and> clientHostPolicy ph \<and> \<not> u \<or>
    a = ServiceUnavailable \<and> \<not> list_ex us (primary ph @ backup ph) \<and> (RejectUnhealthy ph \<or> primary ph = []) \<or>
    (\<exists>b pin. a = Attempt b pin \<and>
      (if list_ex us (primary ph) then b \<in> set (primary ph) \<and> us b
       else if list_ex us (backup ph) then b \<in> set (backup ph) \<and> us b
       else b \<in> set (primary ph) \<and> \<not> RejectUnhealthy ph))"
proof (cases "clientHostPolicy ph \<and> \<not> u")
  case True
  with assms(1) show ?thesis by (auto simp: serveBegin_def)
next
  case False
  obtain c ph1 where c: "candidates clock ph = (c, ph1)" by fastforce
  have spec: "c = (if filter us (primary ph) \<noteq> [] then filter us (primary ph)
      else if filter us (backup ph) \<noteq> [] then filter us (backup ph)
      else if RejectUnhealthy ph then [] else primary ph)"
    using candidates_spec[of clock ph] c assms(2) by (simp add: Let_def)
  have ex: "list_ex us xs \<longleftrightarrow> filter us xs \<noteq> []" for xs
    by (auto simp: list_ex_iff filter_empty_conv)
  show ?thesis
  proof (cases "c = []")
    case True
    with False c assms(1) have "a = ServiceUnavailable" by (auto simp: serveBegin_def)
    with True spec show ?thesis by (auto simp: ex split: if_splits)
  next
    case ne: False
    obtain r where r: "pick (weightOf ph1) (inFlight ph1) (ppicker ph1) c key = r" by simp
    obtain b where b: "fst r = Some b" "b \<in> set c"
      using pickers.select_member[OF ne, of "weightOf ph1" "inFlight ph1" "ppicker ph1" key] r by auto
    with r False c ne assms(1) have "\<exists>pin. a = Attempt b pin"
      by (auto simp: serveBegin_def split: prod.splits option.splits)
    with b(2) spec show ?thesis by (auto simp: ex split: if_splits)
  qed
qed

definition demoPool :: poolHandler where
  "demoPool = (newPoolHandler RoundRobin [(1, False), (1, True)] None False False)\<lparr>phealthy := (\<lambda>b. b = 1)\<rparr>"

theorem serveBegin_tiers_witness:
  "\<exists>b pin. fst (serveBegin (\<lambda>_. 0) True ''10.0.0.1'' demoPool) = Attempt b pin \<and> b \<in> set (backup demoPool)"
proof -
  have "fst (serveBegin (\<lambda>_. 0) True ''10.0.0.1'' demoPool) \<noteq> ServiceUnavailable"
    "\<not> list_ex (usable (phealthy demoPool) (\<lambda>_. 0) (getRun demoPool (passivePtr demoPool))) (primary demoPool)"
    "list_ex (usable (phealthy demoPool) (\<lambda>_. 0) (getRun demoPool (passivePtr demoPool))) (backup demoPool)"
    by code_simp+
  with serveBegin_tiers[OF prod.collapse[symmetric] refl, of "\<lambda>_. 0" True "''10.0.0.1''" demoPool]
  show ?thesis by auto
qed

text \<open>
  C26: The in-flight counters are exact under every interleaving: in each state reached by requests
  beginning, failing and ending in any order, with probes and generation changes between them, a
  backend's counter is the number of its admitted attempts that have not ended.
\<close>

theorem inFlight_exact:
  assumes "pool_reachable (newPoolHandler s bs pc reject clientHost) (ph, as)"
  shows "inFlight ph b = int (count_list (map fst as) b)"
  using assms
proof (induction "(ph, as)" arbitrary: ph as b rule: pool_reachable.induct)
  case Init
  then show ?case by (simp add: newPoolHandler_def)
next
  case (Step st)
  obtain ph1 as1 where st: "st = (ph1, as1)" by (cases st)
  show ?case
    by (rule pool_step_accounting[OF Step.hyps(3)[unfolded st]]) (rule Step.hyps(2)[OF st])
qed

theorem inFlight_exact_witness:
  "inFlight (snd (serveBegin (\<lambda>_. 0) True [] (newPoolHandler RoundRobin [(1, False)] None False False))) 0 =
     int (count_list (map fst [(0 :: bid, None :: nat option)]) 0)"
proof (rule inFlight_exact)
  let ?p = "newPoolHandler RoundRobin [(1, False)] None False False"
  have "pool_step (?p, []) (snd (serveBegin (\<lambda>_. 0) True [] ?p), [(0, None)])"
  proof (rule pool_step.Begin)
    show "serveBegin (\<lambda>_. 0) True [] ?p = (Attempt 0 None, snd (serveBegin (\<lambda>_. 0) True [] ?p))"
      by (simp add: serveBegin_def candidates_def newPoolHandler_def getRun_def setRun_def passiveDemoted_def
          pick_def newPicker_def roundRobinPick_def Let_def)
  qed
  then show "pool_reachable ?p (snd (serveBegin (\<lambda>_. 0) True [] ?p), [(0, None)])"
    by (blast intro: pool_reachable.intros)
qed

text \<open>
  Passive generations are isolated: an attempt pinned to another generation than the pool's current
  one can neither add to nor clear the current windows, and an attempt pinned to a stopped generation
  changes no window and no health flag at all.
\<close>

theorem passive_generation_isolated:
  assumes "passivePtr ph = Some i" and "pin = Some j" and "j < length (runs ph)"
  shows "(j \<noteq> i \<longrightarrow> getRun (attemptFailed now b pin ph) (Some i) = getRun ph (Some i) \<and>
      getRun (serveEnd b pin ok ph) (Some i) = getRun ph (Some i)) \<and>
    (\<not> pactive (runs ph ! j) \<longrightarrow> runs (attemptFailed now b pin ph) = runs ph \<and>
      phealthy (attemptFailed now b pin ph) = phealthy ph \<and> runs (serveEnd b pin ok ph) = runs ph)"
  using assms
  by (auto simp: attemptFailed_def serveEnd_def passiveRecord_def passiveSuccess_def getRun_def setRun_def Let_def
      split: prod.splits if_splits)

definition demoSwap :: poolHandler where
  "demoSwap = startPassive (stopRun (Some 0) (startPassive (newPoolHandler RoundRobin [(1, False)]
     (Some \<lparr>FailureWindow = 10, MaxFailures = 1, ResetOnSuccess = True, HoldDown = 0, RecoverByProbe = False\<rparr>)
     False False)))"

theorem passive_generation_isolated_witness:
  "getRun (attemptFailed 5 0 (Some 0) demoSwap) (Some 1) = getRun demoSwap (Some 1)"
  using passive_generation_isolated[of demoSwap 1 "Some 0" 0 5 0]
  by (simp add: demoSwap_def startPassive_def stopRun_def newPoolHandler_def setRun_def getRun_def passiveStop_def)

lemma passiveRecord_hold:
  assumes "holds r b = Some e" and "t' < e"
  shows "\<exists>r'. fst (passiveRecord t' b (Some r, h)) = Some r' \<and> holds r' b = Some e \<and> pcfg r' = pcfg r"
  using assms by (auto simp: passiveRecord_def beforeHold_def Let_def)

lemma passiveRecord_holds:
  assumes "holds r b = Some e" and "\<forall>t'\<in>set ts. t' < e"
  shows "\<exists>r'. fst (fold (\<lambda>t'. passiveRecord t' b) ts (Some r, h)) = Some r' \<and> holds r' b = Some e \<and> pcfg r' = pcfg r"
  using assms
proof (induction ts arbitrary: r h)
  case (Cons t ts)
  then obtain r1 where r1: "fst (passiveRecord t b (Some r, h)) = Some r1" "holds r1 b = Some e" "pcfg r1 = pcfg r"
    using passiveRecord_hold by (metis list.set_intros(1))
  then have "passiveRecord t b (Some r, h) = (Some r1, snd (passiveRecord t b (Some r, h)))"
    by (metis prod.collapse)
  with Cons.IH[OF r1(2), of "snd (passiveRecord t b (Some r, h))"] Cons.prems(2) r1(3) show ?case by simp
qed simp

text \<open>
  With a hold-down, reaching the failure threshold excludes the backend for exactly the configured
  time: it is demoted at every moment before the hold ends and at none after, however many further
  failures are recorded meanwhile.
\<close>

theorem passive_holdDown:
  assumes "pactive r" and "HoldDown (pcfg r) > 0" and "\<not> RecoverByProbe (pcfg r)" and "0 < MaxFailures (pcfg r)"
    and "MaxFailures (pcfg r) \<le> int (length (pruneWindow (pfailures r b) (t - FailureWindow (pcfg r)))) + 1"
    and "\<not> beforeHold t (holds r b)" and "\<forall>t'\<in>set ts. t' < t + HoldDown (pcfg r)"
  shows "fst (passiveDemoted now b (fst (fold (\<lambda>t'. passiveRecord t' b) (t # ts) (Some r, h)))) \<longleftrightarrow>
    now < t + HoldDown (pcfg r)"
proof -
  have "MaxFailures (pcfg r) \<le> int (length (windowAdd (pcfg r) (pfailures r b) t))"
    using assms(4,5) by (auto simp: windowAdd_def Let_def)
  then have "passiveRecord t b (Some r, h) =
      (Some (r\<lparr>pfailures := (pfailures r)(b := windowAdd (pcfg r) (pfailures r b) t),
               holds := (holds r)(b := Some (t + HoldDown (pcfg r)))\<rparr>), h)"
    using assms(1-3,6) by (simp add: passiveRecord_def Let_def)
  then obtain r1 h1 where r1: "passiveRecord t b (Some r, h) = (Some r1, h1)"
    "holds r1 b = Some (t + HoldDown (pcfg r))" "pcfg r1 = pcfg r" by simp
  from passiveRecord_holds[OF r1(2) assms(7), of h1] r1(3) obtain r2 where
    "fst (fold (\<lambda>t'. passiveRecord t' b) ts (Some r1, h1)) = Some r2"
    "holds r2 b = Some (t + HoldDown (pcfg r))" "pcfg r2 = pcfg r" by auto
  with r1(1) assms(2,3) show ?thesis by (simp add: passiveDemoted_def beforeHold_def Let_def)
qed

theorem passive_holdDown_witness:
  "fst (passiveDemoted 14 0 (fst (fold (\<lambda>t'. passiveRecord t' 0) [5, 7]
     (Some (newPassiveRun \<lparr>FailureWindow = 10, MaxFailures = 1, ResetOnSuccess = False, HoldDown = 10,
       RecoverByProbe = False\<rparr>), \<lambda>_. True)))) \<longleftrightarrow> (14 :: int) < 5 + 10"
  using passive_holdDown[of "newPassiveRun \<lparr>FailureWindow = 10, MaxFailures = 1, ResetOnSuccess = False,
      HoldDown = 10, RecoverByProbe = False\<rparr>" 0 5 "[7]" 14 "\<lambda>_. True"]
  by (simp add: newPassiveRun_def pruneWindow_def beforeHold_def)

text \<open>
  With \<^verbatim>\<open>ResetOnSuccess\<close> (and no prober) one successful attempt re-admits a demoted backend at once,
  whatever its window held.
\<close>

theorem passiveSuccess_readmits:
  assumes "windowed (pcfg r)" and "ResetOnSuccess (pcfg r)" and "pactive r"
  shows "\<not> fst (passiveDemoted now b (passiveSuccess b (Some r)))"
  using assms by (simp add: passiveSuccess_def passiveDemoted_def pruneWindow_def Let_def)

theorem passiveSuccess_readmits_witness:
  "\<not> fst (passiveDemoted 3 0 (passiveSuccess 0 (Some ((newPassiveRun \<lparr>FailureWindow = 10, MaxFailures = 1,
      ResetOnSuccess = True, HoldDown = 0, RecoverByProbe = False\<rparr>)\<lparr>pfailures := (\<lambda>_. [2])\<rparr>))))"
  by (rule passiveSuccess_readmits) (simp_all add: newPassiveRun_def)

text \<open>
  A first failed probe does not take a backend out of rotation when the failure threshold is above one:
  right after a start, the backend whose first probe fails is still healthy.
\<close>

theorem first_probe_failure_kept:
  assumes "hcEnabled c" and "hcUnhealthy c > 1" and "b \<in> set backends" and "\<not> targetOk env"
  shows "snd (probe env b (healthStart c backends healthy)) b"
proof -
  have all: "fold (\<lambda>b h. h(b := True)) bs h b \<longleftrightarrow> b \<in> set bs \<or> h b" for bs h
    by (induction bs arbitrary: h) auto
  obtain H where H: "healthStart c backends healthy = (newHealthRun c, H)" "H b"
    using assms(1,3) by (cases "backends = []") (simp_all add: healthStart_def all)
  show ?thesis
    unfolding H(1) using H(2) assms(2,4) by (simp add: probe_def recordFailure_def newHealthRun_def)
qed

theorem first_probe_failure_kept_witness:
  "snd (probe \<lparr>targetOk = False, referenceOk = True, requestOk = True, doResult = None, checkerStopped = False\<rparr> 0
     (healthStart \<lparr>hcEnabled = True, hcHealthy = 2, hcUnhealthy = 3, hcHost = [], Statuses = [], Redirects = [], ResolvePath = False\<rparr> [0]
       (\<lambda>_. False))) 0"
  by (rule first_probe_failure_kept) simp_all

lemma sameHealthAuthority_iff:
  "sameHealthAuthority a b \<longleftrightarrow>
     (if CHR ''%'' \<in> set a \<union> set b then a = b else map lowerChar a = map lowerChar b)"
proof -
  have "map lowerChar a = map lowerChar b" if "length a = length b" "list_all (\<lambda>(x, y). lowerChar x = lowerChar y) (zip a b)"
    using that by (induction a b rule: list_induct2) auto
  moreover have "length a = length b \<and> list_all (\<lambda>(x, y). lowerChar x = lowerChar y) (zip a b)" if "map lowerChar a = map lowerChar b"
    using that map_eq_imp_length_eq[OF that] by (auto simp: list_all_length list_eq_iff_nth_eq)
  ultimately show ?thesis by (auto simp: sameHealthAuthority_def containsByte_def)
qed

lemma clientDo_chain:
  "\<exists>rest. clientDo policy serve via req = via @ req # rest \<and> length via + length rest < max 10 (length via + 1) \<and>
     (policy = useLastResponse \<longrightarrow> rest = []) \<and>
     (policy = sameOriginRedirects \<longrightarrow> (\<forall>r\<in>set rest. equalFold (fst r) (fst (hd (via @ [req]))) \<and>
        sameHealthAuthority (snd r) (snd (hd (via @ [req])))))"
proof (induction policy serve via req rule: clientDo.induct)
  case (1 policy serve via req)
  show ?case
  proof (cases "\<exists>loc. serve (via @ [req]) = Some loc \<and> redirectAllowed policy loc (via @ [req])")
    case True
    then obtain loc where loc: "serve (via @ [req]) = Some loc" "redirectAllowed policy loc (via @ [req])" by blast
    note short = redirectAllowed_length[OF loc(2)]
    from 1[OF loc] obtain rest where r: "clientDo policy serve (via @ [req]) loc = via @ req # loc # rest"
        "length (via @ [req]) + length rest < max 10 (length (via @ [req]) + 1)" "policy = useLastResponse \<longrightarrow> rest = []"
        "policy = sameOriginRedirects \<longrightarrow> (\<forall>r\<in>set rest. equalFold (fst r) (fst (hd ((via @ [req]) @ [loc]))) \<and>
          sameHealthAuthority (snd r) (snd (hd ((via @ [req]) @ [loc]))))" by auto
    have h: "hd ((via @ [req]) @ [loc]) = hd (via @ [req])" by (cases via) simp_all
    show ?thesis
      by (rule exI[of _ "loc # rest"], subst clientDo.simps)
         (use r[unfolded h] loc short in \<open>auto simp: redirectAllowed_def sameOriginHealthRedirect_def split: if_splits\<close>)
  next
    case False
    then show ?thesis by (intro exI[of _ "[]"], subst clientDo.simps) (auto split: option.splits)
  qed
qed

text \<open>
  C38: A probe never leaves the backend it was sent to, unless the check says \<^verbatim>\<open>any_origin\<close>.  Whatever redirects the servers answer
  with, every request of a probe has the scheme of the first one and its host and port, letter case aside, or byte for byte when one of the two
  authorities names an address zone.  A probe never sends more than ten requests, and it sends one only when redirects are off, or when the
  check sets a host or statuses and does not ask for same-origin redirects.
\<close>

theorem probe_stays_on_origin:
  "let rs = clientDo (healthCheckRedirect c) serve [] req in
     hd rs = req \<and> 0 < length rs \<and> length rs \<le> 10 \<and>
     (Redirects c \<noteq> ''any_origin'' \<longrightarrow> (\<forall>r\<in>set rs.
        map lowerChar (fst r) = map lowerChar (fst req) \<and> map lowerChar (snd r) = map lowerChar (snd req) \<and>
        (CHR ''%'' \<in> set (snd r) \<union> set (snd req) \<longrightarrow> snd r = snd req))) \<and>
     (Redirects c = ''none'' \<or> Redirects c \<notin> {''same_origin'', ''any_origin''} \<and> (hcHost c \<noteq> [] \<or> Statuses c \<noteq> []) \<longrightarrow> rs = [req])"
proof -
  obtain rest where r: "clientDo (healthCheckRedirect c) serve [] req = req # rest" "length rest < 10"
      "healthCheckRedirect c = useLastResponse \<longrightarrow> rest = []"
      "healthCheckRedirect c = sameOriginRedirects \<longrightarrow> (\<forall>r\<in>set rest. equalFold (fst r) (fst req) \<and> sameHealthAuthority (snd r) (snd req))"
    using clientDo_chain[of "healthCheckRedirect c" serve "[]" req] by auto
  have "map lowerChar (fst x) = map lowerChar (fst req) \<and> map lowerChar (snd x) = map lowerChar (snd req) \<and>
      (CHR ''%'' \<in> set (snd x) \<union> set (snd req) \<longrightarrow> snd x = snd req)"
    if "Redirects c \<noteq> ''any_origin''" "x \<in> set (req # rest)" for x
  proof (cases "x = req")
    case False
    with that(2) r(3) have "healthCheckRedirect c \<noteq> useLastResponse" "x \<in> set rest" by auto
    with that(1) r(4) have "equalFold (fst x) (fst req)" "sameHealthAuthority (snd x) (snd req)"
      by (auto simp: healthCheckRedirect_def Let_def split: if_splits)
    then show ?thesis by (auto simp: sameHealthAuthority_iff equalFold_def toLower_def split: if_splits)
  qed simp
  moreover have "rest = []"
    if "Redirects c = ''none'' \<or> Redirects c \<notin> {''same_origin'', ''any_origin''} \<and> (hcHost c \<noteq> [] \<or> Statuses c \<noteq> [])"
    using that r(3) by (auto simp: healthCheckRedirect_def split: if_splits)
  ultimately show ?thesis unfolding Let_def r(1)
    using r(2) by - (intro conjI; (blast | simp))
qed

definition demoCheck :: "string \<Rightarrow> HealthCheck" where
  "demoCheck redirects = \<lparr>hcEnabled = True, hcHealthy = 2, hcUnhealthy = 3, hcHost = [], Statuses = [], Redirects = redirects,
     ResolvePath = False\<rparr>"

text \<open>The first request is redirected to another spelling of its own origin, the second to another host.\<close>

definition demoServe :: "(string \<times> string) list \<Rightarrow> (string \<times> string) option" where
  "demoServe sent = Some (if length sent = 1 then (''HTTP'', ''A:80'') else (''http'', ''evil''))"

theorem probe_stays_on_origin_witness:
  "clientDo (healthCheckRedirect (demoCheck [])) demoServe [] (''http'', ''a:80'') = [(''http'', ''a:80''), (''HTTP'', ''A:80'')] \<and>
   map lowerChar ''A:80'' = map lowerChar ''a:80'' \<and>
   clientDo (healthCheckRedirect (demoCheck ''none'')) demoServe [] (''http'', ''a:80'') = [(''http'', ''a:80'')]"
proof -
  let ?rs = "[(''http'', ''a:80''), (''HTTP'', ''A:80'')]"
  have r: "clientDo (healthCheckRedirect (demoCheck [])) demoServe [] (''http'', ''a:80'') = ?rs" by code_simp
  have "Redirects (demoCheck []) \<noteq> ''any_origin''" "Redirects (demoCheck ''none'') = ''none''" by (simp_all add: demoCheck_def)
  with probe_stays_on_origin[of "demoCheck []" demoServe "(''http'', ''a:80'')"] r
    probe_stays_on_origin[of "demoCheck ''none''" demoServe "(''http'', ''a:80'')"]
  show ?thesis by (simp add: Let_def)
qed

end
