(* ===== verification/Cache_Policy.thy ===== *)
theory Cache_Policy
  imports Go_Http "HOL-Library.Sublist"
begin

text \<open>
  Which requests and responses the response cache may share: the Cache-Control scanner of
  \<^verbatim>\<open>src/cachecontrol.go\<close>, eligibility, variance and header access of \<^verbatim>\<open>src/cache_representation.go\<close>, the header
  cost of \<^verbatim>\<open>src/cache_limits.go\<close> and the freshness of \<^verbatim>\<open>src/cache_freshness.go\<close>.

  A header is an association list with distinct keys, the list standing for one order in which Go may
  enumerate the map.  \<^verbatim>\<open>httpguts.ValidHeaderFieldName\<close> is the parameter \<open>valid\<close>; dates are read by the
  parameter \<open>parseTime\<close> (\<^verbatim>\<open>http.ParseTime\<close>), instants and durations are integers of nanoseconds.
\<close>

type_synonym rawHeader = "(string \<times> string list) list"

section \<open>Header access\<close>

definition cacheHeaderValues :: "rawHeader \<Rightarrow> string \<Rightarrow> string list \<times> bool" where
  "cacheHeaderValues h name =
     (let keys = sort (filter (\<lambda>k. equalFold k name) (map fst h)) in
      (concat (map (\<lambda>k. case map_of h k of Some vs \<Rightarrow> vs | None \<Rightarrow> []) keys), keys \<noteq> []))"

lemma cacheHeaderValues_present: "snd (cacheHeaderValues h name) \<longleftrightarrow> (\<exists>k vs. (k, vs) \<in> set h \<and> equalFold k name)"
proof -
  let ?F = "filter (\<lambda>k. equalFold k name) (map fst h)"
  have "snd (cacheHeaderValues h name) \<longleftrightarrow> set ?F \<noteq> {}"
    unfolding cacheHeaderValues_def Let_def snd_conv by (metis set_empty set_sort)
  then show ?thesis by (force simp: filter_empty_conv)
qed

section \<open>Cache-Control\<close>

definition badText :: "char \<Rightarrow> bool" where
  "badText c \<longleftrightarrow> byte c < 32 \<and> byte c \<noteq> 9 \<or> byte c = 127"

text \<open>The loop over a quoted string, after the opening quote; a backslash takes the next byte with it.\<close>

fun consumeQuoted :: "string \<Rightarrow> string option" where
  "consumeQuoted [] = None"
| "consumeQuoted (c # s) =
     (if c = CHR 0x22 then Some s
      else if c = CHR 0x5C then
        (case s of [] \<Rightarrow> None | d # t \<Rightarrow> if badText d then None else consumeQuoted t)
      else if badText c then None
      else consumeQuoted s)"

definition argStops :: string where
  "argStops = '','' @ blankTab"

definition nameStops :: string where
  "nameStops = ''='' @ argStops"

text \<open>\<^verbatim>\<open>value[:end]\<close> and \<^verbatim>\<open>value[end:]\<close> for the first index of a byte of \<open>cs\<close>, or the length.\<close>

definition spanAny :: "string \<Rightarrow> string \<Rightarrow> string \<times> string" where
  "spanAny s cs = (takeWhile (\<lambda>c. c \<notin> set cs) s, dropWhile (\<lambda>c. c \<notin> set cs) s)"

definition consumeCacheArgument :: "(string \<Rightarrow> bool) \<Rightarrow> string \<Rightarrow> string \<times> bool" where
  "consumeCacheArgument valid value =
     (if \<not> hasPrefix value [CHR 0x22] then
        (case spanAny value argStops of (tok, rest) \<Rightarrow> (rest, valid tok))
      else (case consumeQuoted (tl value) of Some rest \<Rightarrow> (rest, True) | None \<Rightarrow> ([], False)))"

text \<open>What follows a directive name, \<open>None\<close> when its argument is malformed.\<close>

definition directiveRest :: "(string \<Rightarrow> bool) \<Rightarrow> string \<Rightarrow> string option" where
  "directiveRest valid rest =
     (if hasPrefix rest ''='' then
        (case consumeCacheArgument valid (trimLeft (tl rest) blankTab) of
           (r, ok) \<Rightarrow> if ok then Some (trimLeft r blankTab) else None)
      else Some rest)"

lemma length_dropWhile_less: "s \<noteq> [] \<Longrightarrow> P (hd s) \<Longrightarrow> length (dropWhile P s) < length s"
  by (cases s) (auto simp: le_imp_less_Suc length_dropWhile_le)

lemma consumeQuoted_suffix: "consumeQuoted s = Some r \<Longrightarrow> suffix r s"
  by (induction s rule: consumeQuoted.induct) (auto simp: suffix_Cons split: if_splits list.splits)

lemma consumeCacheArgument_suffix: "suffix (fst (consumeCacheArgument valid value)) value"
proof (cases "hasPrefix value [CHR 0x22]")
  case True
  then obtain t where v: "value = CHR 0x22 # t" by (auto simp: hasPrefix_iff)
  show ?thesis
    using consumeQuoted_suffix[of t]
    by (cases "consumeQuoted t") (auto simp: consumeCacheArgument_def v suffix_Cons)
next
  case False
  then show ?thesis by (simp add: consumeCacheArgument_def spanAny_def suffix_dropWhile)
qed

lemma length_consumeCacheArgument: "length (fst (consumeCacheArgument valid value)) \<le> length value"
  by (rule suffix_length_le) (rule consumeCacheArgument_suffix)

text \<open>A scanned value starts with no separator, so a name or an equals sign is consumed in every round.\<close>

definition scanStart :: "string \<Rightarrow> string" where
  "scanStart value = trimLeft value (blankTab @ '','')"

lemma scan_progress:
  assumes "scanStart value \<noteq> []"
  shows "hasPrefix (trimLeft (snd (spanAny (scanStart value) nameStops)) blankTab) ''='' \<or>
    length (trimLeft (snd (spanAny (scanStart value) nameStops)) blankTab) < length (scanStart value)"
proof (cases "hd (scanStart value) \<in> set nameStops")
  case True
  have "hd (scanStart value) \<notin> set (blankTab @ '','')"
    using assms hd_dropWhile unfolding scanStart_def trimLeft_def by metis
  with True have "hd (scanStart value) = CHR ''=''" by (auto simp: nameStops_def argStops_def)
  with assms obtain t where "scanStart value = CHR ''='' # t" by (cases "scanStart value") auto
  then show ?thesis by (simp add: spanAny_def nameStops_def argStops_def blankTab_def trimLeft_def)
next
  case False
  have "length (snd (spanAny (scanStart value) nameStops)) < length (scanStart value)"
    unfolding spanAny_def snd_conv by (rule length_dropWhile_less) (use assms False in auto)
  then show ?thesis using length_trimLeft[of "snd (spanAny (scanStart value) nameStops)" blankTab] by linarith
qed

lemma directiveRest_length: "directiveRest valid rest = Some r \<Longrightarrow> length r \<le> length rest \<and> (hasPrefix rest ''='' \<longrightarrow> length r < length rest)"
proof -
  assume a: "directiveRest valid rest = Some r"
  show ?thesis
  proof (cases "hasPrefix rest ''=''")
    case True
    then obtain t where t: "rest = CHR ''='' # t" by (auto simp: hasPrefix_iff)
    from a t have "r = trimLeft (fst (consumeCacheArgument valid (trimLeft t blankTab))) blankTab"
      by (auto simp: directiveRest_def split: prod.splits if_splits)
    then have "length r \<le> length t"
      using length_trimLeft length_consumeCacheArgument le_trans by metis
    then show ?thesis by (simp add: t)
  qed (use a in \<open>simp add: directiveRest_def\<close>)
qed

lemma scan_shrinks:
  assumes "scanStart value \<noteq> []" and "directiveRest valid (trimLeft (snd (spanAny (scanStart value) nameStops)) blankTab) = Some rest"
  shows "length rest < length value"
proof -
  let ?t = "trimLeft (snd (spanAny (scanStart value) nameStops)) blankTab"
  have "length ?t \<le> length (scanStart value)"
    using length_trimLeft[of "snd (spanAny (scanStart value) nameStops)" blankTab]
      length_dropWhile_le[of "\<lambda>c. c \<notin> set nameStops" "scanStart value"] by (simp add: spanAny_def)
  with scan_progress[OF assms(1)] directiveRest_length[OF assms(2)] have "length rest < length (scanStart value)" by auto
  then show ?thesis using length_trimLeft[of "value" "blankTab @ '',''"] by (simp add: scanStart_def)
qed

function cacheControlFieldAllows :: "(string \<Rightarrow> bool) \<Rightarrow> string list \<Rightarrow> string \<Rightarrow> bool" where
  "cacheControlFieldAllows valid forbidden value =
     (let value = scanStart value in
      if value = [] then True
      else case spanAny value nameStops of (name, tail) \<Rightarrow>
        if \<not> valid name \<or> list_ex (equalFold name) forbidden then False
        else case directiveRest valid (trimLeft tail blankTab) of
          None \<Rightarrow> False
        | Some rest \<Rightarrow> if rest \<noteq> [] \<and> hd rest \<noteq> CHR '','' then False
                       else cacheControlFieldAllows valid forbidden rest)"
  by pat_completeness auto
termination
  by (relation "measure (\<lambda>(valid, forbidden, value). length value)") (auto intro: scan_shrinks simp: prod_eq_iff)

declare cacheControlFieldAllows.simps [simp del]

definition cacheControlAllows :: "(string \<Rightarrow> bool) \<Rightarrow> rawHeader \<Rightarrow> string list \<Rightarrow> bool" where
  "cacheControlAllows valid h forbidden =
     list_all (\<lambda>(name, vs). equalFold name ''Cache-Control'' \<longrightarrow> list_all (cacheControlFieldAllows valid forbidden) vs) h"

definition cacheControlFieldAllowsStorage :: "(string \<Rightarrow> bool) \<Rightarrow> string \<Rightarrow> bool" where
  "cacheControlFieldAllowsStorage valid value = cacheControlFieldAllows valid [''no-store''] value"

definition cacheControlAllowsStorage :: "(string \<Rightarrow> bool) \<Rightarrow> rawHeader \<Rightarrow> bool" where
  "cacheControlAllowsStorage valid h = cacheControlAllows valid h [''no-store'']"

text \<open>The reader of the freshness computation: name, argument and rest of the next directive.\<close>

definition cacheFreshnessDirectiveNext :: "(string \<Rightarrow> bool) \<Rightarrow> string \<Rightarrow> string \<times> string \<times> string" where
  "cacheFreshnessDirectiveNext valid value =
     (let value = scanStart value in
      case spanAny value nameStops of (name, tail) \<Rightarrow>
        if tail = [] then (value, [], [])
        else let rest = trimLeft tail blankTab in
          if hasPrefix rest ''='' then
            (let value = trimLeft (tl rest) blankTab;
                 rest = fst (consumeCacheArgument valid value)
             in (name, take (length value - length rest) value, scanStart rest))
          else (name, [], scanStart rest))"

lemma length_scanStart: "length (scanStart value) \<le> length value"
  by (simp add: scanStart_def length_trimLeft)

lemma directiveNext_shrinks:
  assumes "value \<noteq> []"
  shows "length (snd (snd (cacheFreshnessDirectiveNext valid value))) < length value"
proof (cases "scanStart value = []")
  case True
  then show ?thesis using assms by (simp add: cacheFreshnessDirectiveNext_def spanAny_def)
next
  case False
  let ?tail = "snd (spanAny (scanStart value) nameStops)" and ?rest = "trimLeft (snd (spanAny (scanStart value) nameStops)) blankTab"
  have le: "length ?rest \<le> length (scanStart value)"
    using length_trimLeft[of ?tail blankTab]
      length_dropWhile_le[of "\<lambda>c. c \<notin> set nameStops" "scanStart value"] by (simp add: spanAny_def)
  have out: "length (snd (snd (cacheFreshnessDirectiveNext valid value))) \<le> length ?rest - 1" if "hasPrefix ?rest ''=''"
  proof -
    let ?v = "trimLeft (tl ?rest) blankTab"
    have "length (scanStart (fst (consumeCacheArgument valid ?v))) \<le> length (tl ?rest)"
      using length_scanStart length_consumeCacheArgument length_trimLeft le_trans by metis
    then show ?thesis using that by (auto simp: cacheFreshnessDirectiveNext_def Let_def split: prod.splits)
  qed
  show ?thesis
  proof (cases "hasPrefix ?rest ''=''")
    case True
    then have "length ?rest \<noteq> 0" by (auto simp: hasPrefix_iff)
    with out[OF True] le length_scanStart[of "value"] show ?thesis by linarith
  next
    case False
    then have "length ?rest < length (scanStart value)" using scan_progress[OF \<open>scanStart value \<noteq> []\<close>] by blast
    moreover have "length (snd (snd (cacheFreshnessDirectiveNext valid value))) \<le> length ?rest"
      using False length_scanStart[of ?rest] by (auto simp: cacheFreshnessDirectiveNext_def Let_def split: prod.splits)
    ultimately show ?thesis using length_scanStart[of "value"] by linarith
  qed
qed

function directivesOf :: "(string \<Rightarrow> bool) \<Rightarrow> string \<Rightarrow> (string \<times> string) list" where
  "directivesOf valid value =
     (if value = [] then []
      else case cacheFreshnessDirectiveNext valid value of (name, argument, rest) \<Rightarrow>
        (name, argument) # directivesOf valid rest)"
  by pat_completeness auto
termination
  by (relation "measure (\<lambda>(valid, value). length value)") (auto dest: directiveNext_shrinks simp: prod_eq_iff)

declare directivesOf.simps [simp del]

section \<open>Variance\<close>

definition cacheVaryTokenLimit :: nat where
  "cacheVaryTokenLimit = 256"

fun countTokens :: "nat \<Rightarrow> string list \<Rightarrow> nat \<times> bool" where
  "countTokens tokens [] = (tokens, True)"
| "countTokens tokens (v # vs) =
     (let tokens = tokens + 1 + countByte v CHR '','' in
      if tokens > cacheVaryTokenLimit then (tokens, False) else countTokens tokens vs)"

fun cacheFieldTokenCount :: "rawHeader \<Rightarrow> string \<Rightarrow> nat \<Rightarrow> nat \<times> bool" where
  "cacheFieldTokenCount [] field tokens = (tokens, True)"
| "cacheFieldTokenCount ((name, vs) # h) field tokens =
     (if \<not> equalFold name field then cacheFieldTokenCount h field tokens
      else case countTokens tokens vs of (tokens, ok) \<Rightarrow>
        if ok then cacheFieldTokenCount h field tokens else (tokens, False))"

definition cacheVaryTokenCount :: "rawHeader \<Rightarrow> nat \<Rightarrow> nat \<times> bool" where
  "cacheVaryTokenCount h tokens = cacheFieldTokenCount h ''Vary'' tokens"

fun varyWithinLimit :: "nat \<Rightarrow> rawHeader list \<Rightarrow> bool" where
  "varyWithinLimit tokens [] = True"
| "varyWithinLimit tokens (h # hs) = (case cacheVaryTokenCount h tokens of
       (tokens, ok) \<Rightarrow> ok \<and> varyWithinLimit tokens hs)"

definition varyNames :: "rawHeader list \<Rightarrow> string list" where
  "varyNames hs = filter (\<lambda>n. n \<noteq> []) (concat (map (\<lambda>h. concat (map (\<lambda>v.
     map (\<lambda>field. toLower (trim field blankTab)) (splitByte v CHR '','')) (fst (cacheHeaderValues h ''Vary'')))) hs))"

definition cacheVary :: "(string \<Rightarrow> bool) \<Rightarrow> rawHeader list \<Rightarrow> string list option" where
  "cacheVary valid hs =
     (if \<not> varyWithinLimit 0 hs then None
      else let names = varyNames hs in
        if list_ex (\<lambda>n. n = ''*'' \<or> \<not> valid n) names then None else Some (compact (sort names)))"

record cacheVaryField =
  vfName :: string
  vfValues :: "string list"
  vfPresent :: bool

definition cacheSnapshotVary :: "rawHeader \<Rightarrow> string list \<Rightarrow> cacheVaryField list" where
  "cacheSnapshotVary h names = map (\<lambda>name. case cacheHeaderValues h name of (vs, present) \<Rightarrow>
     \<lparr>vfName = name, vfValues = vs, vfPresent = present\<rparr>) names"

definition matchesVary :: "cacheVaryField list \<Rightarrow> rawHeader \<Rightarrow> bool" where
  "matchesVary vary h = list_all (\<lambda>f. cacheHeaderValues h (vfName f) = (vfValues f, vfPresent f)) vary"

definition sameVary :: "cacheVaryField list \<Rightarrow> cacheVaryField list \<Rightarrow> bool" where
  "sameVary a b \<longleftrightarrow> map vfName a = map vfName b"

section \<open>Eligibility\<close>

datatype reqBody = NilBody | NoBody | SomeBody

record cacheRequest =
  cqMethod :: string
  ProtoMajor :: int
  ContentLength :: int
  TransferEncoding :: "string list"
  cqTrailer :: rawHeader
  cqBody :: reqBody
  cqTLS :: "(nat \<times> nat) option"
  cqHeader :: rawHeader

definition cacheRequestHasUnkeyedBody :: "cacheRequest \<Rightarrow> bool" where
  "cacheRequestHasUnkeyedBody r \<longleftrightarrow>
     ProtoMajor r \<ge> 3 \<or> ContentLength r \<noteq> 0 \<or> TransferEncoding r \<noteq> [] \<or> cqTrailer r \<noteq> [] \<or>
     (ProtoMajor r \<le> 1 \<and> cqBody r \<noteq> NilBody \<and> cqBody r \<noteq> NoBody)"

text \<open>\<^verbatim>\<open>Header.Get\<close> on an already canonical name.\<close>

definition rawGet :: "rawHeader \<Rightarrow> string \<Rightarrow> string" where
  "rawGet h name = (case map_of h name of Some (v # _) \<Rightarrow> v | _ \<Rightarrow> [])"

definition uncacheableRequestFields :: "string list" where
  "uncacheableRequestFields = [''authorization'', ''cookie'', ''if-match'', ''if-none-match'', ''if-modified-since'',
     ''if-unmodified-since'', ''range'', ''if-range'']"

definition cacheRequestEligible :: "(string \<Rightarrow> bool) \<Rightarrow> cacheRequest \<Rightarrow> bool" where
  "cacheRequestEligible valid r \<longleftrightarrow>
     \<not> cacheRequestHasUnkeyedBody r \<and>
     (case cqTLS r of None \<Rightarrow> True | Some (certs, verified) \<Rightarrow> certs = 0 \<and> verified = 0) \<and>
     (cqMethod r = ''GET'' \<or> cqMethod r = ''HEAD'') \<and> rawGet (cqHeader r) ''Upgrade'' = [] \<and>
     list_all (\<lambda>(name, _). \<not> List.member uncacheableRequestFields (toLower name)) (cqHeader r) \<and>
     cacheControlAllows valid (cqHeader r) [''no-transform'', ''no-cache'', ''max-age'', ''min-fresh'', ''max-stale'']"

definition cacheResponseAllowsStorage :: "(string \<Rightarrow> bool) \<Rightarrow> rawHeader \<Rightarrow> bool" where
  "cacheResponseAllowsStorage valid h \<longleftrightarrow> \<not> snd (cacheHeaderValues h ''Set-Cookie'') \<and>
     cacheControlAllows valid h [''no-store'', ''private'', ''no-cache'']"

definition cacheResponseEligible :: "int \<Rightarrow> rawHeader \<Rightarrow> bool" where
  "cacheResponseEligible status h \<longleftrightarrow> 200 \<le> status \<and> status < 300 \<and> status \<noteq> 206 \<and>
     \<not> snd (cacheHeaderValues h ''Content-Range'')"

section \<open>Cost limits\<close>

definition cacheHeaderBytes :: int where
  "cacheHeaderBytes = 65536"

fun valueCost :: "int \<Rightarrow> string list \<Rightarrow> int option" where
  "valueCost cost [] = Some cost"
| "valueCost cost (v # vs) =
     (if int (length v) > cacheHeaderBytes - cost then None else valueCost (cost + int (length v)) vs)"

fun headerCostLoop :: "int \<Rightarrow> int \<Rightarrow> rawHeader \<Rightarrow> int option" where
  "headerCostLoop cost vals [] = Some cost"
| "headerCostLoop cost vals ((name, vv) # h) =
     (if int (length name) > cacheHeaderBytes \<or> int (length vv) > 1024 - vals then None
      else let cost = cost + 128 + int (length name) + int (length vv) * 32 in
        if cost > cacheHeaderBytes then None
        else case valueCost cost vv of
               None \<Rightarrow> None
             | Some cost \<Rightarrow> headerCostLoop cost (vals + int (length vv)) h)"

definition cacheHeaderCost :: "rawHeader \<Rightarrow> int option" where
  "cacheHeaderCost h =
     (if length h > 256 then None
      else case headerCostLoop 256 0 h of
        None \<Rightarrow> None
      | Some cost \<Rightarrow>
          if \<not> snd (cacheVaryTokenCount h 0) then None
          else case cacheFieldTokenCount h ''Trailer'' 0 of (trailerTokens, ok) \<Rightarrow>
            (let cost = cost + int trailerTokens * 32 in
             if ok \<and> cost \<le> cacheHeaderBytes then Some cost else None))"

record cacheKey =
  ckMethod :: string
  ckHost :: string
  ckTarget :: string
  originalURI :: string
  ckScheme :: string
  propagationFields :: string
  ckListener :: string
  ckTls :: bool

definition cacheKeyBytes :: int where
  "cacheKeyBytes = 16384"

fun keyCost :: "int \<Rightarrow> string list \<Rightarrow> int option" where
  "keyCost acc [] = Some acc"
| "keyCost acc (s # ss) = (if int (length s) > cacheKeyBytes - acc then None else keyCost (acc + int (length s)) ss)"

fun namesCost :: "int \<Rightarrow> string list \<Rightarrow> int option" where
  "namesCost cost [] = Some cost"
| "namesCost cost (n # ns) =
     (if int (length n) > cacheHeaderBytes then None else namesCost (cost + 64 + int (length n)) ns)"

definition cacheMetadataCost :: "cacheKey \<Rightarrow> rawHeader \<Rightarrow> string list \<Rightarrow> rawHeader \<Rightarrow> int option" where
  "cacheMetadataCost key request names response =
     (case keyCost 0 [ckMethod key, ckHost key, ckTarget key, originalURI key, ckScheme key, propagationFields key, ckListener key] of
        None \<Rightarrow> None
      | Some keySize \<Rightarrow> (case cacheHeaderCost request of
          None \<Rightarrow> None
        | Some rq \<Rightarrow> (case cacheHeaderCost response of
            None \<Rightarrow> None
          | Some rs \<Rightarrow>
              if length names > cacheVaryTokenLimit then None else namesCost (keySize + rq + rs) names)))"

text \<open>The bytes a header holds.\<close>

definition headerBytes :: "rawHeader \<Rightarrow> int" where
  "headerBytes h = int (sum_list (map (\<lambda>(name, vs). length name + sum_list (map length vs)) h))"

lemma valueCost_Some:
  "valueCost cost vs = Some c \<Longrightarrow> cost \<le> cacheHeaderBytes \<Longrightarrow> c = cost + int (sum_list (map length vs)) \<and> c \<le> cacheHeaderBytes"
  by (induction cost vs rule: valueCost.induct) (auto split: if_splits)

lemma headerCostLoop_Some:
  "headerCostLoop cost vals h = Some c \<Longrightarrow> cost \<le> cacheHeaderBytes \<Longrightarrow>
   cost + headerBytes h \<le> c \<and> c \<le> cacheHeaderBytes \<and> vals + int (sum_list (map (length \<circ> snd) h)) \<le> max vals 1024"
proof (induction cost vals h rule: headerCostLoop.induct)
  case (2 cost vals name vv h)
  let ?c = "cost + 128 + int (length name) + int (length vv) * 32"
  from 2(2) obtain c' where v: "valueCost ?c vv = Some c'" and le: "?c \<le> cacheHeaderBytes" "int (length vv) \<le> 1024 - vals"
    and name: "int (length name) \<le> cacheHeaderBytes"
    and l: "headerCostLoop c' (vals + int (length vv)) h = Some c"
    by (auto simp: Let_def split: if_splits option.splits)
  have c': "c' = ?c + int (sum_list (map length vv))" "c' \<le> cacheHeaderBytes" using valueCost_Some[OF v le(1)] by auto
  have "c' + headerBytes h \<le> c \<and> c \<le> cacheHeaderBytes \<and>
      (vals + int (length vv)) + int (sum_list (map (length \<circ> snd) h)) \<le> max (vals + int (length vv)) 1024"
    by (rule 2(1)[OF _ refl _ v l c'(2)]) (use le name in auto)
  then show ?case using c' le by (auto simp: headerBytes_def comp_def)
qed (simp add: headerBytes_def)

text \<open>
  The metadata a stored response may pin is bounded: a header within the cost limit has at most 256 names
  and 1024 values and holds no more bytes than its computed cost, which is at most 64 KiB.
\<close>

lemma cacheHeaderCost_bounds:
  assumes "cacheHeaderCost h = Some c"
  shows "headerBytes h \<le> c \<and> c \<le> cacheHeaderBytes \<and> length h \<le> 256 \<and> sum_list (map (length \<circ> snd) h) \<le> 1024"
proof -
  from assms obtain c0 where "headerCostLoop 256 0 h = Some c0" "c0 \<le> c" "c \<le> cacheHeaderBytes" "length h \<le> 256"
    by (auto simp: cacheHeaderCost_def Let_def split: if_splits option.splits prod.splits)
  then show ?thesis using headerCostLoop_Some[of 256 0 h c0] by (simp add: cacheHeaderBytes_def)
qed

lemma keyCost_nonneg: "keyCost acc ss = Some c \<Longrightarrow> acc \<le> c"
  by (induction acc ss rule: keyCost.induct) (auto split: if_splits)

lemma namesCost_nonneg: "namesCost cost ns = Some c \<Longrightarrow> cost \<le> c"
  by (induction cost ns rule: namesCost.induct) (auto split: if_splits)

lemma cacheMetadataCost_covers:
  assumes "cacheMetadataCost key request names response = Some c"
  shows "0 \<le> c \<and> headerBytes request + headerBytes response \<le> c"
proof -
  from assms obtain k rq rs where *: "keyCost 0 [ckMethod key, ckHost key, ckTarget key, originalURI key, ckScheme key, propagationFields key, ckListener key] = Some k"
    "cacheHeaderCost request = Some rq" "cacheHeaderCost response = Some rs" "namesCost (k + rq + rs) names = Some c"
    by (auto simp: cacheMetadataCost_def split: option.splits if_splits)
  have "0 \<le> headerBytes request" "0 \<le> headerBytes response" by (simp_all add: headerBytes_def)
  then show ?thesis
    using keyCost_nonneg[OF *(1)] namesCost_nonneg[OF *(4)] cacheHeaderCost_bounds[OF *(2)] cacheHeaderCost_bounds[OF *(3)] by auto
qed

section \<open>The checker and the reader agree\<close>

lemma scanStart_idem [simp]: "scanStart (scanStart s) = scanStart s"
  unfolding scanStart_def trimLeft_def by (metis dropWhile_eq_self_iff hd_dropWhile)

lemma scanStart_trimLeft [simp]: "scanStart (trimLeft s blankTab) = scanStart s"
  by (induction s) (auto simp: scanStart_def trimLeft_def)

lemma allows_scanStart: "cacheControlFieldAllows valid fs (scanStart s) = cacheControlFieldAllows valid fs s"
  by (subst (1 2) cacheControlFieldAllows.simps) simp

lemma next_scanStart: "cacheFreshnessDirectiveNext valid (scanStart s) = cacheFreshnessDirectiveNext valid s"
  by (simp add: cacheFreshnessDirectiveNext_def)

lemma allows_step:
  assumes "scanStart s \<noteq> []" and "spanAny (scanStart s) nameStops = (name, tail)"
  shows "cacheControlFieldAllows valid fs s \<longleftrightarrow> valid name \<and> \<not> list_ex (equalFold name) fs \<and>
    (case directiveRest valid (trimLeft tail blankTab) of
       None \<Rightarrow> False
     | Some rest \<Rightarrow> (rest = [] \<or> hd rest = CHR '','') \<and> cacheControlFieldAllows valid fs rest)"
  using assms by (subst cacheControlFieldAllows.simps) (auto simp: Let_def split: option.splits)

text \<open>On an accepted directive the reader sees the checker's name and goes on with the checker's rest.\<close>

lemma next_step:
  assumes "scanStart s \<noteq> []" and "spanAny (scanStart s) nameStops = (name, tail)"
    and "directiveRest valid (trimLeft tail blankTab) = Some rest"
  shows "\<exists>a. cacheFreshnessDirectiveNext valid s = (name, a, scanStart rest)"
proof (cases "tail = []")
  case True
  have "name @ tail = scanStart s" using assms(2) takeWhile_dropWhile_id unfolding spanAny_def by blast
  then have "name = scanStart s" using True by simp
  moreover have "rest = []" using assms(3) True by (simp add: directiveRest_def trimLeft_def)
  ultimately show ?thesis using True assms(2) by (simp add: cacheFreshnessDirectiveNext_def Let_def scanStart_def trimLeft_def)
next
  case False
  with assms(2,3) show ?thesis
    by (auto simp: cacheFreshnessDirectiveNext_def Let_def directiveRest_def split: if_splits prod.splits)
qed

lemma directives_scanStart:
  assumes "scanStart s \<noteq> []"
  shows "directivesOf valid (scanStart s) = directivesOf valid s"
proof -
  have "s \<noteq> []" using assms by (auto simp: scanStart_def trimLeft_def)
  then show ?thesis using assms by (subst (1 2) directivesOf.simps) (simp add: next_scanStart)
qed

lemma fieldAllows_directives:
  assumes "[] \<notin> set fs"
  shows "cacheControlFieldAllows valid fs s \<longleftrightarrow>
    cacheControlFieldAllows valid [] s \<and> list_all (\<lambda>(n, a). \<not> list_ex (equalFold n) fs) (directivesOf valid s)"
proof (induction s rule: measure_induct_rule[of length])
  case (less s)
  show ?case
  proof (cases "scanStart s = []")
    case True
    have "cacheFreshnessDirectiveNext valid s = ([], [], [])" by (simp add: cacheFreshnessDirectiveNext_def True spanAny_def)
    then have "directivesOf valid s = [] \<or> directivesOf valid s = [([], [])]" by (simp add: directivesOf.simps)
    moreover have "\<not> list_ex (equalFold []) fs" using assms by (auto simp: list_ex_iff)
    ultimately show ?thesis using True by (subst (1 2) cacheControlFieldAllows.simps) auto
  next
    case False
    then have s: "s \<noteq> []" by (auto simp: scanStart_def trimLeft_def)
    obtain name tail where sp: "spanAny (scanStart s) nameStops = (name, tail)" by force
    note step = allows_step[OF False sp]
    show ?thesis
    proof (cases "directiveRest valid (trimLeft tail blankTab)")
      case None
      then show ?thesis by (simp add: step)
    next
      case (Some rest)
      obtain a where nx: "cacheFreshnessDirectiveNext valid s = (name, a, scanStart rest)"
        using next_step[OF False sp Some] by blast
      have ih: "cacheControlFieldAllows valid fs rest \<longleftrightarrow> cacheControlFieldAllows valid [] rest \<and>
          list_all (\<lambda>(n, a). \<not> list_ex (equalFold n) fs) (directivesOf valid rest)"
        using less scan_shrinks[OF False] Some sp by simp
      have d: "directivesOf valid s = (name, a) # directivesOf valid (scanStart rest)"
        using s by (subst directivesOf.simps) (simp add: nx)
      have "list_all (\<lambda>(n, a). \<not> list_ex (equalFold n) fs) (directivesOf valid (scanStart rest)) \<longleftrightarrow>
          list_all (\<lambda>(n, a). \<not> list_ex (equalFold n) fs) (directivesOf valid rest)"
        if "cacheControlFieldAllows valid fs rest \<or> scanStart rest \<noteq> []"
        using that ih by (cases "scanStart rest = []") (simp_all add: directives_scanStart directivesOf.simps[of valid "[]"])
      moreover have "cacheControlFieldAllows valid fs rest" if "scanStart rest = []"
        using that by (subst cacheControlFieldAllows.simps) simp
      ultimately show ?thesis using ih by (auto simp: step Some d)
    qed
  qed
qed

section \<open>Properties\<close>

text \<open>
  C19: What is shared was meant to be shared.  A response is storable exactly when it sets no cookie and each of its
  Cache-Control fields is well-formed and holds none of the directives \<^verbatim>\<open>no-store\<close>, \<^verbatim>\<open>private\<close> and
  \<^verbatim>\<open>no-cache\<close>, as the independent reader of the freshness computation splits the field: quoted
  strings hide no directive and fake none.
\<close>

theorem cacheResponseAllowsStorage_directives:
  "cacheResponseAllowsStorage valid h \<longleftrightarrow>
   list_all (\<lambda>(name, vs). \<not> equalFold name ''Set-Cookie'' \<and>
     (if equalFold name ''Cache-Control'' then
        list_all (\<lambda>v. cacheControlFieldAllows valid [] v \<and>
          \<not> list_ex (\<lambda>(n, a). equalFold n ''no-store'' \<or> equalFold n ''private'' \<or> equalFold n ''no-cache'') (directivesOf valid v)) vs
      else True)) h"
proof -
  have "cacheControlFieldAllows valid [''no-store'', ''private'', ''no-cache''] v \<longleftrightarrow> cacheControlFieldAllows valid [] v \<and>
     \<not> list_ex (\<lambda>(n, a). equalFold n ''no-store'' \<or> equalFold n ''private'' \<or> equalFold n ''no-cache'') (directivesOf valid v)" for v
    by (subst fieldAllows_directives) (auto simp: list_all_iff list_ex_iff)
  then show ?thesis
    unfolding cacheResponseAllowsStorage_def cacheControlAllows_def list_all_iff cacheHeaderValues_present by fastforce
qed

end
