(* ===== verification/Cache_Freshness.thy ===== *)
theory Cache_Freshness
  imports Cache_Policy
begin

text \<open>
  How long a stored response may be served: \<^verbatim>\<open>src/cache_freshness.go\<close>.  Instants are nanoseconds since Go's zero
  time, durations nanoseconds kept in the range of \<^verbatim>\<open>int64\<close>: \<^verbatim>\<open>Time.Sub\<close> saturates, \<^verbatim>\<open>Time.Add\<close> does not wrap on
  the instants in use.
\<close>

section \<open>Durations\<close>

definition maxInt64 :: int where
  "maxInt64 = 9223372036854775807"

definition second :: int where
  "second = 1000000000"

definition timeSub :: "int \<Rightarrow> int \<Rightarrow> int" where
  "timeSub t u = max (- maxInt64 - 1) (min maxInt64 (t - u))"

definition minTime :: "int \<Rightarrow> int \<Rightarrow> int" where
  "minTime a b = (if b < a then b else a)"

definition cacheFreshnessAdd :: "int \<Rightarrow> int \<Rightarrow> int" where
  "cacheFreshnessAdd a b = (if a > maxInt64 - b then maxInt64 else a + b)"

definition ceiling :: int where
  "ceiling = 9223372036"

fun secondsLoop :: "int \<Rightarrow> string \<Rightarrow> int option" where
  "secondsLoop seconds [] = Some seconds"
| "secondsLoop seconds (c # s) =
     (if \<not> isDigit c then None
      else let n = int (byte c) - 48 in
        secondsLoop (if seconds > (ceiling - n) div 10 then ceiling + 1 else seconds * 10 + n) s)"

definition cacheFreshnessSeconds :: "string \<Rightarrow> int option" where
  "cacheFreshnessSeconds s =
     (if s = [] then None
      else case secondsLoop 0 s of
             None \<Rightarrow> None
           | Some seconds \<Rightarrow> Some (if seconds > ceiling then maxInt64 else seconds * second))"

section \<open>Header fields\<close>

fun singleLoop :: "string \<Rightarrow> string \<times> bool \<times> bool \<Rightarrow> rawHeader \<Rightarrow> string \<times> bool \<times> bool" where
  "singleLoop name acc [] = acc"
| "singleLoop name (v, present, valid) ((key, vs) # h) =
     (if \<not> equalFold key name then singleLoop name (v, present, valid) h
      else if present \<or> length vs \<noteq> 1 then singleLoop name (v, True, False) h
      else singleLoop name (hd vs, True, valid) h)"

definition cacheFreshnessSingleHeader :: "rawHeader \<Rightarrow> string \<Rightarrow> string \<times> bool \<times> bool" where
  "cacheFreshnessSingleHeader h name = singleLoop name ([], False, True) h"

definition cacheFreshnessDate :: "(string \<Rightarrow> int option) \<Rightarrow> rawHeader \<Rightarrow> string \<Rightarrow> int \<Rightarrow> int option" where
  "cacheFreshnessDate parseTime h name fallback = (case cacheFreshnessSingleHeader h name of
     (v, present, valid) \<Rightarrow>
       if \<not> present then Some fallback else if \<not> valid then None else parseTime (trimSpace v))"

definition cacheFreshnessAge :: "rawHeader \<Rightarrow> int option" where
  "cacheFreshnessAge h = (case cacheFreshnessSingleHeader h ''Age'' of
     (v, present, valid) \<Rightarrow>
       if \<not> present then Some 0 else if \<not> valid then None else cacheFreshnessSeconds (trimSpace v))"

text \<open>The last argument and the number of occurrences of a directive.\<close>

type_synonym cacheFreshnessDirective = "string \<times> nat"

fun directivesLoop ::
  "cacheFreshnessDirective \<times> cacheFreshnessDirective \<Rightarrow> (string \<times> string) list \<Rightarrow> cacheFreshnessDirective \<times> cacheFreshnessDirective" where
  "directivesLoop acc [] = acc"
| "directivesLoop (shared, ordinary) ((name, argument) # ds) =
     directivesLoop
       (if equalFold name ''s-maxage'' then ((argument, snd shared + 1), ordinary)
        else if equalFold name ''max-age'' then (shared, (argument, snd ordinary + 1))
        else (shared, ordinary)) ds"

definition cacheFreshnessDirectives :: "(string \<Rightarrow> bool) \<Rightarrow> rawHeader \<Rightarrow> cacheFreshnessDirective \<times> cacheFreshnessDirective" where
  "cacheFreshnessDirectives valid h =
     directivesLoop (([], 0), ([], 0)) (concat (map (directivesOf valid) (fst (cacheHeaderValues h ''Cache-Control''))))"

definition unquoteArgument :: "string \<Rightarrow> string" where
  "unquoteArgument v = (if length v \<ge> 2 \<and> hd v = CHR 0x22 \<and> last v = CHR 0x22 then butlast (tl v) else v)"

text \<open>The lifetime and whether it is explicit; \<open>None\<close> when it cannot be read.\<close>

definition cacheFreshnessLifetime ::
  "(string \<Rightarrow> bool) \<Rightarrow> (string \<Rightarrow> int option) \<Rightarrow> rawHeader \<Rightarrow> int \<Rightarrow> (int \<times> bool) option" where
  "cacheFreshnessLifetime valid parseTime h date =
     (case cacheFreshnessDirectives valid h of (shared, ordinary) \<Rightarrow>
        let selected = (if snd shared \<noteq> 0 then shared else ordinary) in
        if snd selected \<noteq> 0 then
          (case cacheFreshnessSeconds (unquoteArgument (fst selected)) of
             None \<Rightarrow> None
           | Some lifetime \<Rightarrow> if snd selected = 1 then Some (lifetime, True) else None)
        else (case cacheFreshnessDate parseTime h ''Expires'' date of
                None \<Rightarrow> None
              | Some expires \<Rightarrow>
                  Some (max 0 (timeSub expires date), fst (snd (cacheFreshnessSingleHeader h ''Expires'')))))"

definition cacheFreshnessField :: "string \<Rightarrow> bool" where
  "cacheFreshnessField name \<longleftrightarrow> equalFold name ''Cache-Control'' \<or> equalFold name ''Age'' \<or> equalFold name ''Date'' \<or>
     equalFold name ''Expires''"

definition cacheFreshnessTrailerValues :: "string list \<Rightarrow> bool" where
  "cacheFreshnessTrailerValues vs =
     list_ex (\<lambda>v. list_ex (\<lambda>name. cacheFreshnessField (trimSpace name)) (splitByte v CHR '','')) vs"

definition cacheFreshnessTrailers :: "rawHeader \<Rightarrow> bool" where
  "cacheFreshnessTrailers h = list_ex (\<lambda>(name, vs).
     hasPrefix name ''Trailer:'' \<and> cacheFreshnessField (trimPrefix name ''Trailer:'') \<or>
     equalFold name ''Trailer'' \<and> cacheFreshnessTrailerValues vs) h"

section \<open>Freshness\<close>

record cacheFreshness =
  fReceived :: int
  fDate :: int
  initialAge :: int
  fExpires :: int
  fValid :: bool

definition cacheResponseFreshness ::
  "(string \<Rightarrow> bool) \<Rightarrow> (string \<Rightarrow> int option) \<Rightarrow> rawHeader \<Rightarrow> int \<Rightarrow> int \<Rightarrow> int \<Rightarrow> cacheFreshness" where
  "cacheResponseFreshness valid parseTime h requested received ttl =
     (let f = \<lparr>fReceived = received, fDate = 0, initialAge = 0, fExpires = received + ttl, fValid = False\<rparr> in
      if \<not> cacheControlAllows valid h [] \<or> cacheFreshnessTrailers h then f
      else case (cacheFreshnessDate parseTime h ''Date'' received, cacheFreshnessAge h) of
        (Some date, Some age) \<Rightarrow>
          (case cacheFreshnessLifetime valid parseTime h date of
             None \<Rightarrow> f
           | Some (lifetime, explicit) \<Rightarrow>
               (let initial = max (max 0 (timeSub received date))
                      (cacheFreshnessAdd age (max 0 (timeSub received requested)))
                in f\<lparr>fDate := date, initialAge := initial,
                     fExpires := (if explicit then minTime (fExpires f) (received + (lifetime - initial)) else fExpires f),
                     fValid := True\<rparr>))
      | _ \<Rightarrow> f)"

definition constrain :: "cacheFreshness \<Rightarrow> cacheFreshness \<Rightarrow> cacheFreshness" where
  "constrain f other = f\<lparr>fValid := fValid f \<and> fValid other, initialAge := max (initialAge f) (initialAge other),
     fExpires := minTime (fExpires f) (fExpires other)\<rparr>"

text \<open>The age \<^verbatim>\<open>apply\<close> reports, and the header it leaves; \<open>formatTime\<close> is the HTTP date format.\<close>

definition currentAge :: "cacheFreshness \<Rightarrow> int \<Rightarrow> int" where
  "currentAge f now = cacheFreshnessAdd (initialAge f) (max 0 (timeSub now (fReceived f)))"

definition apply_freshness :: "(int \<Rightarrow> string) \<Rightarrow> cacheFreshness \<Rightarrow> rawHeader \<Rightarrow> int \<Rightarrow> rawHeader" where
  "apply_freshness formatTime f h now =
     filter (\<lambda>(name, _). \<not> (equalFold name ''Age'' \<or> equalFold name ''Date'')) h @
     [(''Age'', [showDec (nat (currentAge f now div second))]), (''Date'', [formatTime (fDate f)])]"

section \<open>Saturating arithmetic\<close>

definition decimal :: "int \<Rightarrow> string \<Rightarrow> int" where
  "decimal acc s = foldl (\<lambda>a c. a * 10 + (int (byte c) - 48)) acc s"

lemma decimal_simps [simp]:
  "decimal acc [] = acc" "decimal acc (c # s) = decimal (acc * 10 + (int (byte c) - 48)) s"
  by (simp_all add: decimal_def)

lemma secondsLoop_exact:
  assumes "0 \<le> acc"
  shows "secondsLoop (min acc (ceiling + 1)) s = (if list_all isDigit s then Some (min (decimal acc s) (ceiling + 1)) else None)"
  using assms
proof (induction s arbitrary: acc)
  case (Cons c s)
  define n where "n = int (byte c) - 48"
  show ?case
  proof (cases "isDigit c")
    case True
    then have n: "0 \<le> n" "n \<le> 9" by (auto simp: n_def isDigit_def)
    have e: "(if min acc (ceiling + 1) > (ceiling - n) div 10 then ceiling + 1 else min acc (ceiling + 1) * 10 + n) =
        min (acc * 10 + n) (ceiling + 1)"
      using n Cons.prems unfolding ceiling_def by (auto simp: min_def)
    have st: "secondsLoop x (c # s) = secondsLoop (if x > (ceiling - n) div 10 then ceiling + 1 else x * 10 + n) s" for x
      using True by (simp add: n_def Let_def)
    have "decimal acc (c # s) = decimal (acc * 10 + n) s" by (simp add: n_def)
    then show ?thesis unfolding st e using Cons.IH[of "acc * 10 + n"] True n Cons.prems by simp
  qed simp
qed simp

lemma cacheFreshnessSeconds_exact:
  "cacheFreshnessSeconds s =
     (if s \<noteq> [] \<and> list_all isDigit s then Some (if decimal 0 s \<le> ceiling then decimal 0 s * second else maxInt64) else None)"
proof -
  have "secondsLoop 0 s = (if list_all isDigit s then Some (min (decimal 0 s) (ceiling + 1)) else None)"
    using secondsLoop_exact[of 0 s] by (simp add: ceiling_def)
  then show ?thesis by (auto simp: cacheFreshnessSeconds_def min_def)
qed

definition duration :: "int \<Rightarrow> bool" where
  "duration d \<longleftrightarrow> 0 \<le> d \<and> d \<le> maxInt64"

lemma decimal_nonneg: "list_all isDigit s \<Longrightarrow> 0 \<le> acc \<Longrightarrow> 0 \<le> decimal acc s"
  by (induction s arbitrary: acc) (auto simp: isDigit_def)

lemma cacheFreshnessSeconds_duration: "cacheFreshnessSeconds s = Some d \<Longrightarrow> duration d"
  using decimal_nonneg[of s 0]
  by (auto simp: cacheFreshnessSeconds_exact duration_def ceiling_def second_def maxInt64_def split: if_splits)

lemma timeSub_max: "max 0 (timeSub t u) = min maxInt64 (max 0 (t - u))"
  by (auto simp: timeSub_def maxInt64_def)

lemma duration_timeSub [simp]: "duration (max 0 (timeSub t u))"
  by (simp add: timeSub_max duration_def maxInt64_def)

lemma cacheFreshnessAdd_min: "cacheFreshnessAdd a b = min maxInt64 (a + b)"
  by (auto simp: cacheFreshnessAdd_def)

lemma cacheFreshnessAge_duration: "cacheFreshnessAge h = Some d \<Longrightarrow> duration d"
  by (auto simp: cacheFreshnessAge_def duration_def maxInt64_def split: prod.splits if_splits
      dest: cacheFreshnessSeconds_duration[unfolded duration_def maxInt64_def])

lemma cacheFreshnessLifetime_duration: "cacheFreshnessLifetime valid parseTime h date = Some (d, e) \<Longrightarrow> duration d"
  by (auto simp: cacheFreshnessLifetime_def Let_def split: prod.splits if_splits option.splits
      intro: cacheFreshnessSeconds_duration)

section \<open>Properties\<close>

text \<open>
  C11: Nothing is served past its lifetime, and no age is understated.  While a valid freshness has not expired,
  the time to live of the cache has not passed and, when the response states a lifetime (\<^verbatim>\<open>s-maxage\<close>, \<^verbatim>\<open>max-age\<close> or
  \<^verbatim>\<open>Expires\<close>), the age reported to the client is smaller than it; the reported age is, up to saturation at
  the largest duration, at least the time since the response's date and at least the age stated upstream
  plus the time of the exchange and of the stay in the cache.
\<close>

theorem fresh_within_lifetime:
  assumes f: "f = cacheResponseFreshness valid parseTime h requested received ttl" "fValid f"
    and "received \<le> now" "now < fExpires f"
  shows "now < received + ttl \<and> (\<exists>date age lifetime explicit.
    cacheFreshnessDate parseTime h ''Date'' received = Some date \<and> cacheFreshnessAge h = Some age \<and>
    cacheFreshnessLifetime valid parseTime h date = Some (lifetime, explicit) \<and>
    (if explicit then currentAge f now < lifetime else True) \<and>
    min maxInt64 (now - date) \<le> currentAge f now \<and>
    min maxInt64 (age + max 0 (received - requested) + (now - received)) \<le> currentAge f now)"
proof -
  let ?f = "\<lparr>fReceived = received, fDate = 0, initialAge = 0, fExpires = received + ttl, fValid = False\<rparr>"
  obtain date age lifetime explicit where d: "cacheFreshnessDate parseTime h ''Date'' received = Some date"
    and a: "cacheFreshnessAge h = Some age" and l: "cacheFreshnessLifetime valid parseTime h date = Some (lifetime, explicit)"
    and f': "f = (let initial = max (max 0 (timeSub received date)) (cacheFreshnessAdd age (max 0 (timeSub received requested)))
      in ?f\<lparr>fDate := date, initialAge := initial,
           fExpires := (if explicit then minTime (fExpires ?f) (received + (lifetime - initial)) else fExpires ?f), fValid := True\<rparr>)"
    using f unfolding cacheResponseFreshness_def Let_def
    by (auto split: if_splits option.splits prod.splits)
  define i where "i = max (max 0 (timeSub received date)) (cacheFreshnessAdd age (max 0 (timeSub received requested)))"
  have age: "0 \<le> age" using cacheFreshnessAge_duration[OF a] by (simp add: duration_def)
  have i: "duration i" "min maxInt64 (received - date) \<le> i"
    using age unfolding duration_def i_def timeSub_max cacheFreshnessAdd_min maxInt64_def by linarith+
  have i3: "min maxInt64 (age + max 0 (received - requested)) \<le> i"
    using age unfolding i_def timeSub_max cacheFreshnessAdd_min maxInt64_def by linarith
  have fs: "initialAge f = i" "fReceived f = received"
    "fExpires f = (if explicit then minTime (received + ttl) (received + (lifetime - i)) else received + ttl)"
    by (simp_all add: f' i_def Let_def)
  have c: "currentAge f now = min maxInt64 (i + min maxInt64 (now - received))"
    using assms(3) by (simp add: currentAge_def fs cacheFreshnessAdd_min timeSub_max)
  have "now < received + ttl" using assms(4) by (auto simp: fs minTime_def split: if_splits)
  moreover have "currentAge f now < lifetime" if explicit
  proof -
    have "now - received < lifetime - i" using assms(4) that by (auto simp: fs minTime_def split: if_splits)
    then show ?thesis using cacheFreshnessLifetime_duration[OF l] i(1) by (auto simp: c duration_def)
  qed
  moreover have "min maxInt64 (now - date) \<le> currentAge f now"
    "min maxInt64 (age + max 0 (received - requested) + (now - received)) \<le> currentAge f now"
    using i i3 assms(3) unfolding c duration_def by linarith+
  ultimately show ?thesis using d a l by auto
qed

theorem fresh_within_lifetime_witness:
  "currentAge (cacheResponseFreshness validHeaderFieldName (\<lambda>_. None)
     [(''Cache-Control'', [''public, max-age=60'']), (''Age'', [''10''])] 0 0 (300 * second)) (49 * second) < 60 * second"
proof -
  let ?h = "[(''Cache-Control'', [''public, max-age=60'']), (''Age'', [''10''])]"
  let ?f = "cacheResponseFreshness validHeaderFieldName (\<lambda>_. None) ?h 0 0 (300 * second)"
  have "fValid ?f" "49 * second < fExpires ?f" "(0::int) \<le> 49 * second" by code_simp+
  moreover have "cacheFreshnessLifetime validHeaderFieldName (\<lambda>_. None) ?h 0 = Some (60 * second, True)" by code_simp
  moreover have "cacheFreshnessDate (\<lambda>_. None) ?h ''Date'' 0 = Some 0" by code_simp
  ultimately show ?thesis using fresh_within_lifetime[OF refl, of validHeaderFieldName "\<lambda>_. None" ?h 0 0 "300 * second" "49 * second"]
    by (auto split: if_splits)
qed

end
