(* ===== verification/Cache_Store.thy ===== *)
theory Cache_Store
  imports Cache_Freshness
begin

text \<open>
  The bounded store of the response cache: \<^verbatim>\<open>src/cache_store.go\<close>, the buffer budget of
  \<^verbatim>\<open>src/responsebuffer_limit.go\<close> and the variance part of \<^verbatim>\<open>src/cache_native.go\<close>.  Entries live in a heap indexed by
  numbers, the intrusive list is the list of their indices from head to tail; every operation runs under
  the mutex of the cache and takes the current time as an argument.
\<close>

section \<open>Budget and body buffers\<close>

record responseBufferBudget =
  bLimit :: int
  bUsed :: int

definition newResponseBufferBudget :: "int \<Rightarrow> responseBufferBudget" where
  "newResponseBufferBudget limit = \<lparr>bLimit = (if limit \<le> 0 then 67108864 else limit), bUsed = 0\<rparr>"

definition reserve :: "responseBufferBudget \<Rightarrow> int \<Rightarrow> responseBufferBudget option" where
  "reserve b n = (if n > bLimit b - bUsed b then None else Some (b\<lparr>bUsed := bUsed b + n\<rparr>))"

definition releaseBudget :: "responseBufferBudget \<Rightarrow> int \<Rightarrow> responseBufferBudget" where
  "releaseBudget b n = b\<lparr>bUsed := bUsed b - n\<rparr>"

text \<open>A body is represented by its length and capacity.\<close>

record responseBuffer =
  rbHeader :: rawHeader
  bodyLen :: int
  bodyCap :: int
  maxBodyBytes :: int
  overLimit :: bool
  failureStatus :: int

definition newLimitedResponseBuffer :: "int \<Rightarrow> responseBuffer" where
  "newLimitedResponseBuffer limit = \<lparr>rbHeader = [], bodyLen = 0, bodyCap = 0,
     maxBodyBytes = (if limit \<le> 0 then 8388608 else limit), overLimit = False, failureStatus = 0\<rparr>"

definition prepareBodyWrite ::
  "responseBufferBudget \<Rightarrow> responseBuffer \<Rightarrow> int \<Rightarrow> responseBufferBudget \<times> responseBuffer \<times> bool" where
  "prepareBodyWrite budget b n =
     (if overLimit b \<or> n > maxBodyBytes b - bodyLen b then
        (budget, b\<lparr>overLimit := True, failureStatus := (if failureStatus b = 0 then 502 else failureStatus b)\<rparr>, False)
      else let needed = bodyLen b + n in
        if needed \<le> bodyCap b then (budget, b, True)
        else let oldCapacity = bodyCap b;
                 grown = oldCapacity + min oldCapacity (maxBodyBytes b - oldCapacity);
                 capacity = max needed (min (maxBodyBytes b) (max 512 grown))
             in case reserve budget capacity of
                  None \<Rightarrow> (budget, b\<lparr>overLimit := True, failureStatus := 503\<rparr>, False)
                | Some budget' \<Rightarrow> (releaseBudget budget' oldCapacity, b\<lparr>bodyCap := capacity\<rparr>, True))"

text \<open>\<^verbatim>\<open>responseBuffer.Write\<close>: an admitted write appends.\<close>

definition bufferWrite ::
  "responseBufferBudget \<Rightarrow> responseBuffer \<Rightarrow> int \<Rightarrow> responseBufferBudget \<times> responseBuffer \<times> bool" where
  "bufferWrite budget b n =
     (if maxBodyBytes b > 0 then
        (case prepareBodyWrite budget b n of (budget', b', ok) \<Rightarrow>
           if ok then (budget', b'\<lparr>bodyLen := bodyLen b' + n\<rparr>, True) else (budget', b', False))
      else (budget, b\<lparr>bodyLen := bodyLen b + n\<rparr>, True))"

definition bufferRelease :: "responseBufferBudget \<Rightarrow> responseBuffer \<Rightarrow> responseBufferBudget \<times> responseBuffer" where
  "bufferRelease budget b = (releaseBudget budget (bodyCap b), b\<lparr>bodyLen := 0, bodyCap := 0\<rparr>)"

section \<open>Entries and the cache\<close>

record cacheProxyPolicy =
  cpFields :: "string list"
  cpUnsafe :: bool

definition forbidsVaryField :: "cacheProxyPolicy \<Rightarrow> string \<Rightarrow> bool" where
  "forbidsVaryField p name \<longleftrightarrow>
     List.member [''forwarded'', ''x-forwarded-for'', ''x-forwarded-host'', ''x-forwarded-proto''] name \<or>
     List.member (cpFields p) name"

definition allowsVary :: "cacheProxyPolicy option \<Rightarrow> string list \<Rightarrow> bool" where
  "allowsVary policy names = (case policy of
     None \<Rightarrow> True | Some p \<Rightarrow> \<not> cpUnsafe p \<and> \<not> list_ex (forbidsVaryField p) names)"

record cacheEntry =
  eBuf :: "responseBuffer option"
  eKey :: cacheKey
  eExpires :: int
  eFreshness :: cacheFreshness
  eVary :: "cacheVaryField list"
  refs :: int
  retained :: bool
  charge :: int

definition allowedBy :: "cacheEntry \<Rightarrow> cacheProxyPolicy option \<Rightarrow> bool" where
  "allowedBy e policy = (case policy of
     None \<Rightarrow> True | Some p \<Rightarrow> \<not> cpUnsafe p \<and> \<not> list_ex (\<lambda>f. forbidsVaryField p (vfName f)) (eVary e))"

definition zeroKey :: cacheKey where
  "zeroKey = \<lparr>ckMethod = [], ckHost = [], ckTarget = [], originalURI = [], ckScheme = [], propagationFields = [],
     ckListener = [], ckTls = False\<rparr>"

definition zeroEntry :: cacheEntry where
  "zeroEntry = \<lparr>eBuf = None, eKey = zeroKey, eExpires = 0,
     eFreshness = \<lparr>fReceived = 0, fDate = 0, initialAge = 0, fExpires = 0, fValid = False\<rparr>,
     eVary = [], refs = 0, retained = False, charge = 0\<rparr>"

record ttlCache =
  cLimit :: int
  cCount :: int
  cMaxBody :: int
  cBudget :: responseBufferBudget
  cList :: "nat list"
  cHeap :: "nat \<Rightarrow> cacheEntry"
  cNext :: nat

definition newBoundedTTLCache :: "int \<Rightarrow> int \<Rightarrow> int \<Rightarrow> ttlCache" where
  "newBoundedTTLCache entries body budget = \<lparr>cLimit = (if entries \<le> 0 then 1024 else entries), cCount = 0,
     cMaxBody = (if body \<le> 0 then 8388608 else body), cBudget = newResponseBufferBudget budget,
     cList = [], cHeap = (\<lambda>_. zeroEntry), cNext = 0\<rparr>"

definition cacheScratchBytes :: int where
  "cacheScratchBytes = 524288"

definition cacheEntryControlBytes :: int where
  "cacheEntryControlBytes = 512"

definition setEntry :: "ttlCache \<Rightarrow> nat \<Rightarrow> cacheEntry \<Rightarrow> ttlCache" where
  "setEntry c i e = c\<lparr>cHeap := (cHeap c)(i := e)\<rparr>"

definition releaseLocked :: "ttlCache \<Rightarrow> nat \<Rightarrow> ttlCache" where
  "releaseLocked c i =
     (let e = (cHeap c i)\<lparr>refs := refs (cHeap c i) - 1\<rparr> in
      if refs e \<noteq> 0 then setEntry c i e
      else let b = (case eBuf e of None \<Rightarrow> cBudget c | Some buf \<Rightarrow> fst (bufferRelease (cBudget c) buf))
        in (setEntry c i (e\<lparr>eBuf := None, eVary := [], eKey := zeroKey\<rparr>))
             \<lparr>cBudget := releaseBudget b (charge e), cCount := cCount c - 1\<rparr>)"

definition retireLocked :: "ttlCache \<Rightarrow> nat \<Rightarrow> ttlCache" where
  "retireLocked c i =
     releaseLocked ((setEntry c i ((cHeap c i)\<lparr>retained := False\<rparr>))\<lparr>cList := remove1 i (cList c)\<rparr>) i"

lemma releaseLocked_list [simp]: "cList (releaseLocked c i) = cList c"
  by (simp add: releaseLocked_def setEntry_def Let_def)

lemma retireLocked_list [simp]: "cList (retireLocked c i) = remove1 i (cList c)"
  by (simp add: retireLocked_def)

function reserveLocked :: "ttlCache \<Rightarrow> int \<Rightarrow> ttlCache \<times> bool" where
  "reserveLocked c n = (case reserve (cBudget c) n of
       Some b \<Rightarrow> (c\<lparr>cBudget := b\<rparr>, True)
     | None \<Rightarrow> (case cList c of
           [] \<Rightarrow> (c, False)
         | i # _ \<Rightarrow> reserveLocked (retireLocked c i) n))"
  by pat_completeness auto
termination by (relation "measure (\<lambda>(c, n). length (cList c))") auto

definition sweepLocked :: "ttlCache \<Rightarrow> int \<Rightarrow> ttlCache" where
  "sweepLocked c now = foldl (\<lambda>c i. if \<not> now < eExpires (cHeap c i) then retireLocked c i else c) c (cList c)"

definition begin_request :: "ttlCache \<Rightarrow> int \<Rightarrow> ttlCache \<times> bool" where
  "begin_request c now = reserveLocked (sweepLocked c now) cacheScratchBytes"

definition end_request :: "ttlCache \<Rightarrow> int \<Rightarrow> ttlCache" where
  "end_request c now = sweepLocked (c\<lparr>cBudget := releaseBudget (cBudget c) cacheScratchBytes\<rparr>) now"

function evictHead :: "ttlCache \<Rightarrow> ttlCache" where
  "evictHead c =
     (if cCount c \<ge> cLimit c then (case cList c of [] \<Rightarrow> c | i # _ \<Rightarrow> evictHead (retireLocked c i)) else c)"
  by pat_completeness auto
termination by (relation "measure (\<lambda>c. length (cList c))") auto

declare reserveLocked.simps [simp del] evictHead.simps [simp del]

definition candidate :: "ttlCache \<Rightarrow> int \<Rightarrow> ttlCache \<times> nat option" where
  "candidate c now =
     (let c = evictHead (sweepLocked c now) in
      if cCount c \<ge> cLimit c then (c, None)
      else case reserveLocked c cacheEntryControlBytes of (c, ok) \<Rightarrow>
        if \<not> ok then (c, None)
        else let i = cNext c in
          ((setEntry c i (zeroEntry\<lparr>refs := 1, charge := cacheEntryControlBytes\<rparr>))\<lparr>cCount := cCount c + 1, cNext := Suc i\<rparr>, Some i))"

definition attach :: "ttlCache \<Rightarrow> nat \<Rightarrow> responseBuffer \<Rightarrow> int \<Rightarrow> ttlCache" where
  "attach c i buf now =
     (let c = sweepLocked c now in setEntry c i ((cHeap c i)\<lparr>eBuf := Some buf\<rparr>))"

definition entryMatches :: "cacheKey \<Rightarrow> rawHeader \<Rightarrow> cacheProxyPolicy option \<Rightarrow> cacheEntry \<Rightarrow> bool" where
  "entryMatches key headers policy e \<longleftrightarrow> eKey e = key \<and> allowedBy e policy \<and> matchesVary (eVary e) headers"

definition get :: "ttlCache \<Rightarrow> cacheKey \<Rightarrow> rawHeader \<Rightarrow> cacheProxyPolicy option \<Rightarrow> int \<Rightarrow> ttlCache \<times> nat option" where
  "get c key headers policy now =
     (let c = sweepLocked c now in
      if (case policy of Some p \<Rightarrow> cpUnsafe p | None \<Rightarrow> False) then (c, None)
      else case find (\<lambda>i. entryMatches key headers policy (cHeap c i)) (cList c) of
             None \<Rightarrow> (c, None)
           | Some i \<Rightarrow> (setEntry c i ((cHeap c i)\<lparr>refs := refs (cHeap c i) + 1\<rparr>), Some i))"

definition replaceVariantsLocked :: "ttlCache \<Rightarrow> nat \<Rightarrow> cacheKey \<Rightarrow> rawHeader \<Rightarrow> ttlCache" where
  "replaceVariantsLocked c i key headers =
     foldl (\<lambda>c old. let o' = cHeap c old in
        if eKey o' = key \<and> (\<not> sameVary (eVary o') (eVary (cHeap c i)) \<or> matchesVary (eVary o') headers)
        then retireLocked c old else c) c (cList c)"

definition publish ::
  "ttlCache \<Rightarrow> nat \<Rightarrow> cacheKey \<Rightarrow> rawHeader \<Rightarrow> string list \<Rightarrow> responseBuffer \<Rightarrow> cacheProxyPolicy option \<Rightarrow> int \<Rightarrow> int \<Rightarrow> ttlCache \<times> bool" where
  "publish c i key headers names buf policy now now' =
     (let c = sweepLocked c now;
          c = setEntry c i ((cHeap c i)\<lparr>eBuf := Some buf\<rparr>);
          f = eFreshness (cHeap c i)
      in if \<not> fValid f \<or> \<not> now' < fExpires f then (c, False)
         else case cacheMetadataCost key headers names (rbHeader buf) of
           None \<Rightarrow> (c, False)
         | Some cost \<Rightarrow>
             if \<not> allowsVary policy names then (c, False)
             else case reserveLocked c cost of (c, ok) \<Rightarrow>
               if \<not> ok then (c, False)
               else let c = setEntry c i ((cHeap c i)\<lparr>charge := charge (cHeap c i) + cost, eKey := key,
                              eVary := cacheSnapshotVary headers names, eBuf := Some buf\<rparr>);
                        c = replaceVariantsLocked c i key headers;
                        e = cHeap c i
                    in ((setEntry c i (e\<lparr>eExpires := fExpires (eFreshness e), retained := True, refs := refs e + 1\<rparr>))
                          \<lparr>cList := cList c @ [i]\<rparr>, True))"

definition release :: "ttlCache \<Rightarrow> nat \<Rightarrow> int \<Rightarrow> ttlCache" where
  "release c i now = sweepLocked (releaseLocked c i) now"

text \<open>The writer of a candidate (\<^verbatim>\<open>src/cache_writer.go\<close>): buffering a write, and releasing the body when it starts to stream.\<close>

definition writeBody :: "ttlCache \<Rightarrow> nat \<Rightarrow> int \<Rightarrow> ttlCache \<times> bool" where
  "writeBody c i n = (case eBuf (cHeap c i) of
       None \<Rightarrow> (c, False)
     | Some buf \<Rightarrow> (case bufferWrite (cBudget c) buf n of (b, buf', ok) \<Rightarrow>
         ((setEntry c i ((cHeap c i)\<lparr>eBuf := Some buf'\<rparr>))\<lparr>cBudget := b\<rparr>, ok)))"

definition startStreaming :: "ttlCache \<Rightarrow> nat \<Rightarrow> ttlCache" where
  "startStreaming c i = (case eBuf (cHeap c i) of
       None \<Rightarrow> c
     | Some buf \<Rightarrow> (case bufferRelease (cBudget c) buf of (b, buf') \<Rightarrow>
         (setEntry c i ((cHeap c i)\<lparr>eBuf := Some buf'\<rparr>))\<lparr>cBudget := b\<rparr>))"

section \<open>Accounting\<close>

definition capOf :: "cacheEntry \<Rightarrow> int" where
  "capOf e = (case eBuf e of None \<Rightarrow> 0 | Some b \<Rightarrow> bodyCap b)"

definition liveOf :: "cacheEntry \<Rightarrow> int" where
  "liveOf e = (if refs e > 0 then 1 else 0)"

definition costOf :: "cacheEntry \<Rightarrow> int" where
  "costOf e = (if refs e > 0 then charge e + capOf e else 0)"

definition bufOK :: "responseBuffer \<Rightarrow> bool" where
  "bufOK b \<longleftrightarrow> 0 \<le> bodyLen b \<and> bodyLen b \<le> bodyCap b \<and> bodyCap b \<le> maxBodyBytes b \<and> 0 < maxBodyBytes b"

definition entryOK :: "cacheEntry \<Rightarrow> bool" where
  "entryOK e \<longleftrightarrow> 0 \<le> charge e \<and> (\<forall>b. eBuf e = Some b \<longrightarrow> bufOK b)"

text \<open>
  The accounting of the store: \<open>leases i\<close> references to entry \<open>i\<close> are held outside, the list holds one more to each of
  its members, and \<open>extra\<close> of the budget is held outside the entries.
\<close>

definition acct :: "ttlCache \<Rightarrow> (nat \<Rightarrow> nat) \<Rightarrow> int \<Rightarrow> bool" where
  "acct c leases extra \<longleftrightarrow> distinct (cList c) \<and> (\<forall>i. retained (cHeap c i) \<longleftrightarrow> i \<in> set (cList c)) \<and>
     (\<forall>i. refs (cHeap c i) = int (leases i) + (if i \<in> set (cList c) then 1 else 0)) \<and>
     (\<forall>i. cNext c \<le> i \<longrightarrow> refs (cHeap c i) = 0) \<and> (\<forall>i. entryOK (cHeap c i)) \<and>
     cCount c = (\<Sum>i<cNext c. liveOf (cHeap c i)) \<and> bUsed (cBudget c) = extra + (\<Sum>i<cNext c. costOf (cHeap c i)) \<and>
     cCount c \<le> cLimit c \<and> bUsed (cBudget c) \<le> bLimit (cBudget c)"

lemma sum_upd:
  fixes f :: "cacheEntry \<Rightarrow> int" and i n :: nat
  assumes "i < n"
  shows "(\<Sum>j<n. f ((h(i := e)) j)) = (\<Sum>j<n. f (h j)) - f (h i) + f e"
proof -
  have i: "i \<in> {..<n}" using assms by simp
  have "(\<Sum>j\<in>{..<n} - {i}. f ((h(i := e)) j)) = (\<Sum>j\<in>{..<n} - {i}. f (h j))" by (rule sum.cong) auto
  then show ?thesis
    using sum.remove[OF finite_lessThan i, of "\<lambda>j. f ((h(i := e)) j)"] sum.remove[OF finite_lessThan i, of "\<lambda>j. f (h j)"] by simp
qed

lemma acctD:
  assumes "acct c leases extra"
  shows "distinct (cList c)" "retained (cHeap c i) \<longleftrightarrow> i \<in> set (cList c)"
    "refs (cHeap c i) = int (leases i) + (if i \<in> set (cList c) then 1 else 0)"
    "cNext c \<le> i \<Longrightarrow> refs (cHeap c i) = 0" "entryOK (cHeap c i)"
    "cCount c = (\<Sum>i<cNext c. liveOf (cHeap c i))" "bUsed (cBudget c) = extra + (\<Sum>i<cNext c. costOf (cHeap c i))"
    "cCount c \<le> cLimit c" "bUsed (cBudget c) \<le> bLimit (cBudget c)"
  using assms unfolding acct_def by blast+

lemma acct_lt: "acct c leases extra \<Longrightarrow> 0 < leases i \<or> i \<in> set (cList c) \<Longrightarrow> i < cNext c"
proof (rule ccontr)
  assume a: "acct c leases extra" "0 < leases i \<or> i \<in> set (cList c)" and "\<not> i < cNext c"
  then show False using acctD(3)[OF a(1), of i] acctD(4)[OF a(1), of i] a(2) by (auto split: if_splits)
qed

text \<open>One entry changes; the list, the counter and the budget follow.\<close>

lemma acct_update:
  assumes "acct c leases extra" and "i < cNext c"
    and "cHeap c' = (cHeap c)(i := e)" and "cNext c' = cNext c" and "cLimit c' = cLimit c"
    and "bLimit (cBudget c') = bLimit (cBudget c)" and "distinct (cList c')"
    and "\<And>j. j \<noteq> i \<Longrightarrow> j \<in> set (cList c') \<longleftrightarrow> j \<in> set (cList c)" and "retained e \<longleftrightarrow> i \<in> set (cList c')"
    and "refs e = int l + (if i \<in> set (cList c') then 1 else 0)" and "entryOK e"
    and "cCount c' = cCount c - liveOf (cHeap c i) + liveOf e" and "cCount c' \<le> cLimit c"
    and "bUsed (cBudget c') = bUsed (cBudget c) - costOf (cHeap c i) + costOf e + d"
    and "bUsed (cBudget c') \<le> bLimit (cBudget c)"
  shows "acct c' (leases(i := l)) (extra + d)"
  using assms(1) sum_upd[OF assms(2), of liveOf "cHeap c" e] sum_upd[OF assms(2), of costOf "cHeap c" e] assms(2-)
  unfolding acct_def by auto

lemma acct_releaseLocked:
  assumes a: "acct c leases extra" and l: "0 < leases i"
  shows "acct (releaseLocked c i) (leases(i := leases i - 1)) extra"
proof -
  let ?e = "cHeap c i"
  have i: "i < cNext c" using acct_lt[OF a] l by blast
  note r = acctD(3)[OF a, of i] and ok = acctD(1,8,9)[OF a] acctD(2,5)[OF a, of i]
  have cap: "0 \<le> capOf ?e" "0 \<le> charge ?e"
    using ok(5) by (auto simp: entryOK_def bufOK_def capOf_def split: option.splits)
  show ?thesis
  proof (cases "refs ?e = 1")
    case False
    have "acct (releaseLocked c i) (leases(i := leases i - 1)) (extra + 0)"
      using r ok l False
      by (intro acct_update[OF a i, where e = "?e\<lparr>refs := refs ?e - 1\<rparr>"])
        (auto simp: liveOf_def costOf_def capOf_def entryOK_def releaseLocked_def setEntry_def Let_def)
    then show ?thesis by simp
  next
    case True
    with r l have x: "i \<notin> set (cList c)" "leases i = 1" by (auto split: if_splits)
    have "acct (releaseLocked c i) (leases(i := leases i - 1)) (extra + 0)"
      using True x ok cap
      by (intro acct_update[OF a i, where e = "?e\<lparr>refs := 0, eBuf := None, eVary := [], eKey := zeroKey\<rparr>"])
        (auto simp: liveOf_def costOf_def capOf_def entryOK_def releaseLocked_def setEntry_def Let_def bufferRelease_def
          releaseBudget_def split: option.splits)
    then show ?thesis by simp
  qed
qed

text \<open>What retiring entries may change.\<close>

definition shrinks :: "ttlCache \<Rightarrow> ttlCache \<Rightarrow> bool" where
  "shrinks c c' \<longleftrightarrow> subseq (cList c') (cList c) \<and>
     (\<forall>x. x \<in> set (cList c') \<or> x \<notin> set (cList c) \<longrightarrow> cHeap c' x = cHeap c x) \<and>
     cNext c' = cNext c \<and> cLimit c' = cLimit c \<and> bLimit (cBudget c') = bLimit (cBudget c) \<and> cMaxBody c' = cMaxBody c \<and>
     cCount c' \<le> cCount c"

lemma shrinks_refl [simp]: "shrinks c c"
  by (simp add: shrinks_def)

lemma subseq_subset: "subseq xs ys \<Longrightarrow> set xs \<subseteq> set ys"
  by (induction rule: list_emb.induct) auto

lemma shrinks_set: "shrinks c c' \<Longrightarrow> set (cList c') \<subseteq> set (cList c)"
  by (auto simp: shrinks_def dest: subseq_subset)

lemma shrinks_trans: "shrinks a b \<Longrightarrow> shrinks b c \<Longrightarrow> shrinks a c"
proof -
  assume s: "shrinks a b" "shrinks b c"
  have "cHeap c x = cHeap a x" if "x \<in> set (cList c) \<or> x \<notin> set (cList a)" for x
    using s that shrinks_set[OF s(1)] shrinks_set[OF s(2)] unfolding shrinks_def by (metis subsetD)
  with s show ?thesis unfolding shrinks_def by (auto intro: subseq_order.order_trans)
qed

lemma releaseLocked_heap: "x \<noteq> i \<Longrightarrow> cHeap (releaseLocked c i) x = cHeap c x"
  by (simp add: releaseLocked_def setEntry_def Let_def)

lemma releaseLocked_const [simp]:
  "cNext (releaseLocked c i) = cNext c" "cLimit (releaseLocked c i) = cLimit c"
  "bLimit (cBudget (releaseLocked c i)) = bLimit (cBudget c)" "cMaxBody (releaseLocked c i) = cMaxBody c"
  by (simp_all add: releaseLocked_def setEntry_def Let_def releaseBudget_def bufferRelease_def split: option.splits)

lemma releaseLocked_count: "cCount (releaseLocked c i) \<le> cCount c"
  by (simp add: releaseLocked_def setEntry_def Let_def)

lemma retire_shrinks:
  assumes "distinct (cList c)" "i \<in> set (cList c)"
  shows "shrinks c (retireLocked c i)"
proof -
  have heap: "cHeap (retireLocked c i) x = cHeap c x" if "x \<noteq> i" for x
    using that by (simp add: retireLocked_def releaseLocked_heap setEntry_def)
  have rem: "remove1 i (cList c) = filter (\<lambda>x. x \<noteq> i) (cList c)"
    using assms(1) by (simp add: distinct_remove1_removeAll removeAll_filter_not_eq eq_commute)
  have const: "cNext (retireLocked c i) = cNext c" "cLimit (retireLocked c i) = cLimit c"
    "bLimit (cBudget (retireLocked c i)) = bLimit (cBudget c)" "cMaxBody (retireLocked c i) = cMaxBody c"
    "cCount (retireLocked c i) \<le> cCount c"
    using releaseLocked_count[of "(setEntry c i ((cHeap c i)\<lparr>retained := False\<rparr>))\<lparr>cList := remove1 i (cList c)\<rparr>" i]
    by (simp_all add: retireLocked_def setEntry_def)
  have "cHeap (retireLocked c i) x = cHeap c x" if "x \<in> set (remove1 i (cList c)) \<or> x \<notin> set (cList c)" for x
    using heap that assms by (cases "x = i") auto
  then show ?thesis using const by (simp add: shrinks_def rem subseq_filter_left)
qed

lemma acct_retire:
  assumes a: "acct c leases extra" and i: "i \<in> set (cList c)"
  shows "acct (retireLocked c i) leases extra"
proof -
  let ?e = "cHeap c i" and ?c = "(setEntry c i ((cHeap c i)\<lparr>retained := False\<rparr>))\<lparr>cList := remove1 i (cList c)\<rparr>"
  have "acct ?c (leases(i := Suc (leases i))) (extra + 0)"
    using acctD(3)[OF a, of i] acctD(1,8,9)[OF a] acctD(2,5)[OF a, of i] i acct_lt[OF a, of i]
    by (intro acct_update[OF a, where e = "?e\<lparr>retained := False\<rparr>"])
      (auto simp: liveOf_def costOf_def capOf_def entryOK_def setEntry_def)
  from acct_releaseLocked[OF this, of i] show ?thesis by (simp add: retireLocked_def)
qed

lemma retire_fold:
  assumes "acct c leases extra" and "set xs \<subseteq> set (cList c)" and "distinct xs"
    and "\<And>c' i. shrinks c c' \<Longrightarrow> i \<in> set (cList c') \<Longrightarrow> Q c' i = Q c i"
  shows "acct (foldl (\<lambda>c i. if Q c i then retireLocked c i else c) c xs) leases extra \<and>
    shrinks c (foldl (\<lambda>c i. if Q c i then retireLocked c i else c) c xs) \<and>
    cList (foldl (\<lambda>c i. if Q c i then retireLocked c i else c) c xs) = filter (\<lambda>i. \<not> (i \<in> set xs \<and> Q c i)) (cList c)"
  using assms
proof (induction xs arbitrary: c)
  case (Cons x xs)
  let ?c = "if Q c x then retireLocked c x else c"
  have x: "x \<in> set (cList c)" "x \<notin> set xs" using Cons.prems by auto
  have d: "distinct (cList c)" using acctD(1)[OF Cons.prems(1)] .
  have s: "shrinks c ?c" using retire_shrinks[OF d x(1)] by simp
  have l: "cList ?c = filter (\<lambda>i. \<not> (i = x \<and> Q c x)) (cList c)"
    using d by (simp add: distinct_remove1_removeAll removeAll_filter_not_eq eq_commute)
  have a: "acct ?c leases extra" using Cons.prems(1) acct_retire[OF Cons.prems(1) x(1)] by simp
  have same: "Q c' i = Q ?c i" if "shrinks ?c c'" "i \<in> set (cList c')" for c' i
    using Cons.prems(4)[OF shrinks_trans[OF s that(1)] that(2)] Cons.prems(4)[OF s, of i] shrinks_set[OF that(1)] that(2) by auto
  have "set xs \<subseteq> set (cList ?c)" using Cons.prems(2) x l by auto
  note IH = Cons.IH[OF a this _ same]
  have "filter (\<lambda>i. \<not> (i \<in> set xs \<and> Q ?c i)) (cList ?c) = filter (\<lambda>i. \<not> (i \<in> set xs \<and> Q c i)) (cList ?c)"
    using Cons.prems(4)[OF s] by (intro filter_cong) auto
  also have "\<dots> = filter (\<lambda>i. \<not> (i \<in> set (x # xs) \<and> Q c i)) (cList c)"
    unfolding l filter_filter by (intro filter_cong) auto
  finally show ?case using IH shrinks_trans[OF s] Cons.prems(3) by simp
qed (auto simp: acctD)

lemma sweep:
  assumes "acct c leases extra"
  shows "acct (sweepLocked c now) leases extra" "shrinks c (sweepLocked c now)"
    "cList (sweepLocked c now) = filter (\<lambda>i. now < eExpires (cHeap c i)) (cList c)"
proof -
  have "(\<not> now < eExpires (cHeap c' i)) = (\<not> now < eExpires (cHeap c i))" if "shrinks c c'" "i \<in> set (cList c')" for c' i
    using that by (simp add: shrinks_def)
  note F = retire_fold[OF assms order_refl acctD(1)[OF assms], of "\<lambda>c i. \<not> now < eExpires (cHeap c i)", OF this]
  show "acct (sweepLocked c now) leases extra" "shrinks c (sweepLocked c now)" using F by (simp_all add: sweepLocked_def)
  have "cList (sweepLocked c now) = filter (\<lambda>i. \<not> (i \<in> set (cList c) \<and> \<not> now < eExpires (cHeap c i))) (cList c)"
    using F by (simp add: sweepLocked_def)
  then show "cList (sweepLocked c now) = filter (\<lambda>i. now < eExpires (cHeap c i)) (cList c)"
    by (simp cong: filter_cong)
qed

lemma acct_reserve:
  assumes "acct c leases extra" and "reserve (cBudget c) n = Some b"
  shows "acct (c\<lparr>cBudget := b\<rparr>) leases (extra + n)"
  using assms unfolding acct_def reserve_def by (auto split: if_splits)

lemma reserveLocked_acct:
  assumes "acct c leases extra" and "reserveLocked c n = (c', ok)"
  shows "acct c' leases (if ok then extra + n else extra) \<and> shrinks c c' \<and>
    (\<not> ok \<longrightarrow> cList c' = [] \<and> n > bLimit (cBudget c') - bUsed (cBudget c'))"
  using assms
proof (induction c n rule: reserveLocked.induct)
  case (1 c n)
  show ?case
  proof (cases "reserve (cBudget c) n")
    case (Some b)
    then have "c' = c\<lparr>cBudget := b\<rparr>" "ok" using 1(3) by (simp_all add: reserveLocked.simps)
    moreover have "bLimit b = bLimit (cBudget c)" using Some by (auto simp: reserve_def split: if_splits)
    ultimately show ?thesis using acct_reserve[OF 1(2) Some] by (simp add: shrinks_def)
  next
    case None
    show ?thesis
    proof (cases "cList c")
      case Nil
      then show ?thesis using None 1(2,3) by (auto simp: reserveLocked.simps reserve_def split: if_splits)
    next
      case (Cons i xs)
      then have r: "reserveLocked (retireLocked c i) n = (c', ok)" using None 1(3) by (simp add: reserveLocked.simps[of c])
      have i: "i \<in> set (cList c)" using Cons by simp
      from 1(1)[OF None Cons acct_retire[OF 1(2) i] r] retire_shrinks[OF acctD(1)[OF 1(2)] i]
      show ?thesis using shrinks_trans by blast
    qed
  qed
qed

lemma evictHead_acct:
  assumes "acct c leases extra"
  shows "acct (evictHead c) leases extra \<and> shrinks c (evictHead c) \<and>
    (cCount (evictHead c) \<ge> cLimit (evictHead c) \<longrightarrow> cList (evictHead c) = [])"
  using assms
proof (induction c rule: evictHead.induct)
  case (1 c)
  show ?case
  proof (cases "cCount c \<ge> cLimit c \<and> cList c \<noteq> []")
    case True
    then obtain i xs where l: "cList c = i # xs" by (cases "cList c") auto
    then have i: "i \<in> set (cList c)" by simp
    have e: "evictHead c = evictHead (retireLocked c i)" using True l by (simp add: evictHead.simps[of c])
    show ?thesis
      unfolding e using 1(1)[OF _ l acct_retire[OF 1(2) i]] True retire_shrinks[OF acctD(1)[OF 1(2)] i] shrinks_trans by blast
  next
    case False
    then have "evictHead c = c" by (auto simp: evictHead.simps[of c] split: list.splits)
    then show ?thesis using False 1(2) by auto
  qed
qed

section \<open>Operations keep the accounting\<close>

lemma acct_add_entry:
  assumes a: "acct c leases (extra + charge e)" and "cCount c < cLimit c"
    and "refs e = 1" "retained e = False" "eBuf e = None" "0 \<le> charge e"
  shows "acct ((setEntry c (cNext c) e)\<lparr>cCount := cCount c + 1, cNext := Suc (cNext c)\<rparr>)
    (leases(cNext c := Suc (leases (cNext c)))) extra"
proof -
  have z: "refs (cHeap c (cNext c)) = 0" using acctD(4)[OF a] by simp
  with acctD(3)[OF a, of "cNext c"] have n: "leases (cNext c) = 0" "cNext c \<notin> set (cList c)" by (auto split: if_splits)
  have s: "(\<Sum>j<Suc (cNext c). f (((cHeap c)(cNext c := e)) j)) = (\<Sum>j<cNext c. f (cHeap c j)) + f e" for f :: "cacheEntry \<Rightarrow> int"
    by simp
  let ?c = "(setEntry c (cNext c) e)\<lparr>cCount := cCount c + 1, cNext := Suc (cNext c)\<rparr>"
  have f: "cList ?c = cList c" "cHeap ?c = (cHeap c)(cNext c := e)" "cNext ?c = Suc (cNext c)" "cCount ?c = cCount c + 1"
    "cBudget ?c = cBudget c" "cLimit ?c = cLimit c" by (simp_all add: setEntry_def)
  have e: "entryOK e" "liveOf e = 1" "costOf e = charge e" using assms(3-) by (auto simp: entryOK_def liveOf_def costOf_def capOf_def)
  show ?thesis
    unfolding acct_def f s
  proof (intro conjI allI impI, goal_cases)
    case (2 i) then show ?case using acctD(2)[OF a, of i] n assms(4) by auto
  next
    case (3 i) then show ?case using acctD(3)[OF a, of i] n assms(3) by auto
  next
    case (4 i) then show ?case using acctD(4)[OF a, of i] by auto
  next
    case (5 i) then show ?case using acctD(5)[OF a, of i] e by auto
  qed (use acctD(1,6-9)[OF a] e assms(2) in auto)
qed

lemma candidate_acct:
  assumes a: "acct c leases extra" and cand: "candidate c now = (c', r)"
  shows "(case r of
      None \<Rightarrow> acct c' leases extra \<and> shrinks c c'
    | Some i \<Rightarrow> i = cNext c \<and> acct c' (leases(i := Suc (leases i))) extra \<and>
        (\<exists>c1. shrinks c c1 \<and> cLimit c' = cLimit c1 \<and> cList c' = cList c1 \<and> (\<forall>j. j \<noteq> i \<longrightarrow> cHeap c' j = cHeap c1 j)))"
proof -
  define c1 where "c1 = evictHead (sweepLocked c now)"
  note sw = sweep[OF a, of now]
  have e: "acct c1 leases extra" "shrinks c c1"
    using evictHead_acct[OF sw(1)] shrinks_trans[OF sw(2)] unfolding c1_def by blast+
  obtain c2 ok where r2: "reserveLocked c1 cacheEntryControlBytes = (c2, ok)" by force
  note R = reserveLocked_acct[OF e(1) r2]
  have s2: "shrinks c c2" using R shrinks_trans[OF e(2)] by blast
  show ?thesis
  proof (cases "cCount c1 \<ge> cLimit c1 \<or> \<not> ok")
    case True
    with cand r2 R e s2 show ?thesis unfolding candidate_def c1_def[symmetric] Let_def by (auto split: if_splits)
  next
    case False
    with R have a2: "acct c2 leases (extra + cacheEntryControlBytes)" by simp
    have r: "r = Some (cNext c2)" "c' = (setEntry c2 (cNext c2) (zeroEntry\<lparr>refs := 1, charge := cacheEntryControlBytes\<rparr>))
        \<lparr>cCount := cCount c2 + 1, cNext := Suc (cNext c2)\<rparr>"
      using cand r2 False unfolding candidate_def c1_def[symmetric] Let_def by auto
    have "cCount c2 < cLimit c2" using False R by (simp add: shrinks_def)
    then have "acct c' (leases(cNext c2 := Suc (leases (cNext c2)))) extra"
      unfolding r(2) using a2 by (intro acct_add_entry) (simp_all add: zeroEntry_def cacheEntryControlBytes_def)
    moreover have "cNext c2 = cNext c" using s2 by (simp add: shrinks_def)
    ultimately show ?thesis using s2 by (auto simp: r setEntry_def)
  qed
qed

text \<open>An outside change of an entry that is leased and not in the list.\<close>

lemma acct_set_leased:
  assumes a: "acct c leases extra" and "0 < leases i" "i \<notin> set (cList c)"
    and "refs e = refs (cHeap c i)" "retained e = retained (cHeap c i)" "entryOK e"
    and "cHeap c' = (cHeap c)(i := e)" "cNext c' = cNext c" "cLimit c' = cLimit c" "cList c' = cList c" "cCount c' = cCount c"
    and "bLimit (cBudget c') = bLimit (cBudget c)" "bUsed (cBudget c') \<le> bLimit (cBudget c)"
    and "bUsed (cBudget c') = bUsed (cBudget c) + (charge e + capOf e) - (charge (cHeap c i) + capOf (cHeap c i)) + d"
  shows "acct c' leases (extra + d)"
proof -
  have r: "refs (cHeap c i) = int (leases i)" "refs (cHeap c i) > 0" using acctD(3)[OF a, of i] assms(2,3) by auto
  have "acct c' (leases(i := leases i)) (extra + d)"
    using assms r acctD(1,8)[OF a] acctD(2)[OF a, of i] acct_lt[OF a, of i]
    by (intro acct_update[OF a, where e = e]) (auto simp: liveOf_def costOf_def)
  then show ?thesis by simp
qed

lemma bufferWrite_spec:
  assumes "bufOK b" and "0 \<le> n" and "bUsed budget \<le> bLimit budget" and "bufferWrite budget b n = (budget', b', ok)"
  shows "bufOK b' \<and> bLimit budget' = bLimit budget \<and> bUsed budget' = bUsed budget + bodyCap b' - bodyCap b \<and>
    bUsed budget' \<le> bLimit budget"
proof (cases "overLimit b \<or> n > maxBodyBytes b - bodyLen b \<or> bodyLen b + n \<le> bodyCap b")
  case True
  with assms show ?thesis
    by (auto simp: bufferWrite_def prepareBodyWrite_def Let_def bufOK_def split: if_splits prod.splits)
next
  case False
  define cap where "cap = max (bodyLen b + n) (min (maxBodyBytes b) (max 512 (bodyCap b + min (bodyCap b) (maxBodyBytes b - bodyCap b))))"
  have "bodyLen b + n \<le> cap" "cap \<le> maxBodyBytes b" using False by (auto simp: cap_def)
  then show ?thesis
    using assms False
    by (auto simp: bufferWrite_def prepareBodyWrite_def Let_def bufOK_def reserve_def releaseBudget_def cap_def[symmetric]
        split: if_splits prod.splits option.splits)
qed

lemma writeBody_acct:
  assumes a: "acct c leases extra" and "0 < leases i" "i \<notin> set (cList c)" and "0 \<le> n"
  shows "acct (fst (writeBody c i n)) leases extra"
proof (cases "eBuf (cHeap c i)")
  case (Some b)
  obtain budget' b' ok where w: "bufferWrite (cBudget c) b n = (budget', b', ok)" by (metis prod_cases3)
  have "bufOK b" using acctD(5)[OF a, of i] Some by (simp add: entryOK_def)
  note B = bufferWrite_spec[OF this assms(4) acctD(9)[OF a] w]
  have "acct (fst (writeBody c i n)) leases (extra + 0)"
    using B Some acctD(5)[OF a, of i]
    by (intro acct_set_leased[OF a assms(2,3), where e = "(cHeap c i)\<lparr>eBuf := Some b'\<rparr>"])
      (auto simp: writeBody_def setEntry_def w capOf_def entryOK_def)
  then show ?thesis by simp
qed (use a in \<open>simp add: writeBody_def\<close>)

lemma startStreaming_acct:
  assumes a: "acct c leases extra" and "0 < leases i" "i \<notin> set (cList c)"
  shows "acct (startStreaming c i) leases extra"
proof (cases "eBuf (cHeap c i)")
  case (Some b)
  have b: "bufOK b" using acctD(5)[OF a, of i] Some by (simp add: entryOK_def)
  have "acct (startStreaming c i) leases (extra + 0)"
    using b Some acctD(5)[OF a, of i] acctD(9)[OF a]
    by (intro acct_set_leased[OF a assms(2,3), where e = "(cHeap c i)\<lparr>eBuf := Some (b\<lparr>bodyLen := 0, bodyCap := 0\<rparr>)\<rparr>"])
      (auto simp: startStreaming_def bufferRelease_def releaseBudget_def setEntry_def capOf_def entryOK_def bufOK_def)
  then show ?thesis by simp
qed (use a in \<open>simp add: startStreaming_def\<close>)

end
