(* ===== verification/Cache_System.thy ===== *)
theory Cache_System
  imports Cache_Store
begin

text \<open>
  The store under its clients: the operations of \<^verbatim>\<open>src/cache_store.go\<close> interleaved by concurrent requests, with the leases
  the requests hold (\<^verbatim>\<open>src/cache.go\<close>, \<^verbatim>\<open>src/cache_writer.go\<close>).
\<close>

section \<open>Requests\<close>

text \<open>
  The cache, the leases held on each entry, the number of requests between \<^verbatim>\<open>begin\<close> and \<^verbatim>\<open>end\<close>, and the candidates whose
  response is still being written.
\<close>

type_synonym cacheSystem = "ttlCache \<times> (nat \<Rightarrow> nat) \<times> nat \<times> nat set"

inductive cacheStep :: "cacheSystem \<Rightarrow> cacheSystem \<Rightarrow> bool" where
  begin_ok: "begin_request c now = (c', True) \<Longrightarrow> cacheStep (c, l, k, w) (c', l, Suc k, w)"
| begin_full: "begin_request c now = (c', False) \<Longrightarrow> cacheStep (c, l, k, w) (c', l, k, w)"
| end_req: "cacheStep (c, l, Suc k, w) (end_request c now, l, k, w)"
| get_hit: "get c key headers policy now = (c', Some i) \<Longrightarrow> cacheStep (c, l, k, w) (c', l(i := Suc (l i)), k, w)"
| get_miss: "get c key headers policy now = (c', None) \<Longrightarrow> cacheStep (c, l, k, w) (c', l, k, w)"
| candidate_ok: "candidate c now = (c', Some i) \<Longrightarrow> cacheStep (c, l, k, w) (c', l(i := Suc (l i)), k, insert i w)"
| candidate_no: "candidate c now = (c', None) \<Longrightarrow> cacheStep (c, l, k, w) (c', l, k, w)"
| attached: "i \<in> w \<Longrightarrow> eBuf (cHeap c i) = None \<Longrightarrow>
    cacheStep (c, l, k, w) (attach c i (newLimitedResponseBuffer (cMaxBody c)) now, l, k, w)"
| written: "i \<in> w \<Longrightarrow> 0 \<le> n \<Longrightarrow> cacheStep (c, l, k, w) (fst (writeBody c i n), l, k, w)"
| streamed: "i \<in> w \<Longrightarrow> cacheStep (c, l, k, w) (startStreaming c i, l, k, w)"
| dated: "i \<in> w \<Longrightarrow> cacheStep (c, l, k, w) (setEntry c i ((cHeap c i)\<lparr>eFreshness := f\<rparr>), l, k, w)"
| published: "i \<in> w \<Longrightarrow> eBuf (cHeap c i) = Some b \<Longrightarrow>
    publish c i key headers names (b\<lparr>rbHeader := hdr\<rparr>) policy now now' = (c', ok) \<Longrightarrow> cacheStep (c, l, k, w) (c', l, k, w - {i})"
| released: "0 < l i \<Longrightarrow> cacheStep (c, l, k, w) (release c i now, l(i := l i - 1), k, w - {i})"

definition initSystem :: "int \<Rightarrow> int \<Rightarrow> int \<Rightarrow> cacheSystem" where
  "initSystem entries body budget = (newBoundedTTLCache entries body budget, (\<lambda>_. 0), 0, {})"

section \<open>Variants\<close>

text \<open>Entries with one key vary on the same fields and differ in their values.\<close>

definition variants :: "ttlCache \<Rightarrow> bool" where
  "variants c \<longleftrightarrow> (\<forall>i\<in>set (cList c). \<forall>j\<in>set (cList c). eKey (cHeap c i) = eKey (cHeap c j) \<longrightarrow>
     sameVary (eVary (cHeap c i)) (eVary (cHeap c j)) \<and> (eVary (cHeap c i) = eVary (cHeap c j) \<longrightarrow> i = j))"

lemma snapshot_matches: "matchesVary (cacheSnapshotVary h names) h"
  by (auto simp: matchesVary_def cacheSnapshotVary_def list_all_iff split: prod.splits)

lemma matches_unique:
  assumes "sameVary v w" "matchesVary v h" "matchesVary w h"
  shows "v = w"
proof (rule nth_equalityI)
  show l: "length v = length w" using assms(1) unfolding sameVary_def by (metis length_map)
  fix k assume k: "k < length v"
  have n: "vfName (v ! k) = vfName (w ! k)" using assms(1) k l unfolding sameVary_def by (metis nth_map)
  have "cacheHeaderValues h (vfName (v ! k)) = (vfValues (v ! k), vfPresent (v ! k))"
    "cacheHeaderValues h (vfName (w ! k)) = (vfValues (w ! k), vfPresent (w ! k))"
    using assms(2,3) k l by (simp_all add: matchesVary_def list_all_length)
  then show "v ! k = w ! k" using n by simp
qed

text \<open>Apart from entry \<open>i\<close>, what is listed afterwards was listed before and is unchanged.\<close>

definition frame :: "nat \<Rightarrow> ttlCache \<Rightarrow> ttlCache \<Rightarrow> bool" where
  "frame i c c' \<longleftrightarrow> cLimit c' = cLimit c \<and> (\<forall>x\<in>set (cList c') - {i}. x \<in> set (cList c) \<and> cHeap c' x = cHeap c x)"

lemma frame_trans: "frame i a b \<Longrightarrow> frame i b c \<Longrightarrow> frame i a c"
  by (auto simp: frame_def)

lemma shrinks_frame: "shrinks c c' \<Longrightarrow> frame i c c'"
  using shrinks_set[of c c'] by (auto simp: frame_def shrinks_def)

lemma setEntry_simps [simp]:
  "cList (setEntry c i e) = cList c" "cHeap (setEntry c i e) = (cHeap c)(i := e)" "cNext (setEntry c i e) = cNext c"
  "cLimit (setEntry c i e) = cLimit c" "cCount (setEntry c i e) = cCount c" "cBudget (setEntry c i e) = cBudget c"
  by (simp_all add: setEntry_def)

lemma setEntry_frame: "frame i c (setEntry c i e)"
  by (auto simp: frame_def)

lemma variants_frame: "variants c \<Longrightarrow> frame i c c' \<Longrightarrow> i \<notin> set (cList c') \<Longrightarrow> variants c'"
  unfolding variants_def frame_def by (metis DiffI empty_iff insert_iff)

section \<open>Lookups and publication\<close>

lemma get_spec:
  assumes a: "acct c leases extra" and g: "get c key headers policy now = (c', r)"
  shows "(case r of
      None \<Rightarrow> c' = sweepLocked c now
    | Some i \<Rightarrow> i \<in> set (cList (sweepLocked c now)) \<and> entryMatches key headers policy (cHeap c i) \<and> now < eExpires (cHeap c i) \<and>
        cList c' = cList (sweepLocked c now) \<and> frame i c c' \<and> cHeap c' = (cHeap (sweepLocked c now))(i := (cHeap c i)\<lparr>refs := refs (cHeap c i) + 1\<rparr>) \<and>
        acct c' (leases(i := Suc (leases i))) extra)"
proof -
  let ?c = "sweepLocked c now"
  note sw = sweep[OF a, of now]
  show ?thesis
  proof (cases r)
    case None
    then show ?thesis using g by (auto simp: get_def Let_def split: if_splits option.splits)
  next
    case (Some i)
    then have f: "find (\<lambda>i. entryMatches key headers policy (cHeap ?c i)) (cList ?c) = Some i"
      and c': "c' = setEntry ?c i ((cHeap ?c i)\<lparr>refs := refs (cHeap ?c i) + 1\<rparr>)"
      using g by (auto simp: get_def Let_def split: if_splits option.splits)
    from f have i: "i \<in> set (cList ?c)" "entryMatches key headers policy (cHeap ?c i)"
      by (auto simp: find_Some_iff)
    have h: "cHeap ?c i = cHeap c i" using sw(2) i(1) by (simp add: shrinks_def)
    have r: "refs (cHeap ?c i) = int (leases i) + 1" using acctD(3)[OF sw(1), of i] i(1) by simp
    have "acct c' (leases(i := Suc (leases i))) (extra + 0)"
      using i r acctD(1,8,9)[OF sw(1)] acctD(2,5)[OF sw(1), of i] acct_lt[OF sw(1), of i] unfolding c'
      by (intro acct_update[OF sw(1), where e = "(cHeap ?c i)\<lparr>refs := refs (cHeap ?c i) + 1\<rparr>"])
        (auto simp: liveOf_def costOf_def capOf_def entryOK_def)
    moreover have "frame i c c'" unfolding c' by (rule frame_trans[OF shrinks_frame[OF sw(2)] setEntry_frame])
    ultimately show ?thesis using Some i h sw(3) by (auto simp: c')
  qed
qed

text \<open>The part of \<^verbatim>\<open>publish\<close> that stores the entry, on the state in which its metadata is reserved.\<close>

lemma store_spec:
  assumes a: "acct c leases (extra + cost)" and l: "0 < leases i" "i \<notin> set (cList c)" and "0 \<le> cost"
    and e: "e = (cHeap c i)\<lparr>charge := charge (cHeap c i) + cost, eKey := key, eVary := cacheSnapshotVary headers names, eBuf := Some buf\<rparr>"
    and buf: "eBuf (cHeap c i) = Some buf"
    and c5: "c5 = replaceVariantsLocked (setEntry c i e) i key headers"
    and c': "c' = (setEntry c5 i ((cHeap c5 i)\<lparr>eExpires := t, retained := True, refs := refs (cHeap c5 i) + 1\<rparr>))\<lparr>cList := cList c5 @ [i]\<rparr>"
  shows "acct c' leases extra \<and> frame i c c' \<and> set (cList c') = insert i (set (cList c5)) \<and> eKey (cHeap c' i) = key \<and>
    eVary (cHeap c' i) = cacheSnapshotVary headers names \<and>
    (\<forall>x\<in>set (cList c5). x \<noteq> i \<and> (eKey (cHeap c' x) = key \<longrightarrow> sameVary (eVary (cHeap c' x)) (cacheSnapshotVary headers names) \<and>
       eVary (cHeap c' x) \<noteq> cacheSnapshotVary headers names))"
proof -
  let ?c4 = "setEntry c i e" and ?v = "cacheSnapshotVary headers names"
  have "acct ?c4 leases (extra + cost + (- cost))"
    using acctD(5)[OF a, of i] acctD(9)[OF a] assms(4) buf
    by (intro acct_set_leased[OF a l, where e = e]) (auto simp: e entryOK_def capOf_def)
  then have a4: "acct ?c4 leases extra" by simp
  define Q where "Q = (\<lambda>(c' :: ttlCache) x. eKey (cHeap c' x) = key \<and>
    (\<not> sameVary (eVary (cHeap c' x)) (eVary (cHeap c' i)) \<or> matchesVary (eVary (cHeap c' x)) headers))"
  have st: "Q c'' x = Q ?c4 x" if "shrinks ?c4 c''" "x \<in> set (cList c'')" for c'' x
  proof -
    have "cHeap c'' x = cHeap ?c4 x" "cHeap c'' i = cHeap ?c4 i"
      using that l(2) unfolding shrinks_def by (metis setEntry_simps(1))+
    then show ?thesis by (simp add: Q_def)
  qed
  have F: "acct c5 leases extra" "shrinks ?c4 c5" "cList c5 = filter (\<lambda>x. \<not> (x \<in> set (cList ?c4) \<and> Q ?c4 x)) (cList ?c4)"
    using retire_fold[OF a4 order_refl acctD(1)[OF a4], of Q, OF st]
    by (simp_all add: c5 replaceVariantsLocked_def Let_def Q_def)
  have hi: "cHeap c5 i = e" using F(2) l(2) by (simp add: shrinks_def)
  have ni: "i \<notin> set (cList c5)" using shrinks_set[OF F(2)] l(2) by auto
  have r: "refs e = int (leases i)" "0 < refs e" using acctD(3)[OF F(1), of i] ni l(1) hi by auto
  have "acct c' (leases(i := leases i)) (extra + 0)"
    using r ni acctD(1,8,9)[OF F(1)] acctD(2,5)[OF F(1), of i] acct_lt[OF F(1), of i] l hi
    by (intro acct_update[OF F(1), where e = "e\<lparr>eExpires := t, retained := True, refs := refs e + 1\<rparr>"])
      (auto simp: c' liveOf_def costOf_def capOf_def entryOK_def)
  moreover have "frame i c c'"
  proof -
    have "frame i c c5" using frame_trans[OF setEntry_frame shrinks_frame[OF F(2)]] .
    then show ?thesis by (auto simp: frame_def c')
  qed
  moreover have "x \<noteq> i \<and> (eKey (cHeap c' x) = key \<longrightarrow> sameVary (eVary (cHeap c' x)) ?v \<and> eVary (cHeap c' x) \<noteq> ?v)"
    if x: "x \<in> set (cList c5)" for x
  proof -
    have "x \<noteq> i" using x ni by auto
    moreover have "\<not> Q ?c4 x" using x unfolding F(3) by auto
    moreover have "cHeap c' x = cHeap ?c4 x" using x F(2) \<open>x \<noteq> i\<close> by (simp add: c' shrinks_def)
    ultimately show ?thesis using snapshot_matches[of headers names] by (auto simp: Q_def e)
  qed
  moreover have "set (cList c') = insert i (set (cList c5))" "eKey (cHeap c' i) = key" "eVary (cHeap c' i) = ?v"
    by (simp_all add: c' hi e)
  ultimately show ?thesis by simp
qed

lemma attach_spec:
  assumes a: "acct c leases extra" and l: "0 < leases i" "i \<notin> set (cList c)" and b: "capOf (cHeap c i) = bodyCap buf" "bufOK buf"
  shows "acct (attach c i buf now) leases extra" "frame i c (attach c i buf now)" "i \<notin> set (cList (attach c i buf now))"
    "eBuf (cHeap (attach c i buf now) i) = Some buf"
proof -
  let ?c = "sweepLocked c now"
  note sw = sweep[OF a, of now]
  have h: "cHeap ?c i = cHeap c i" "i \<notin> set (cList ?c)" using sw(2) l(2) shrinks_set[OF sw(2)] by (auto simp: shrinks_def)
  have "acct (attach c i buf now) leases (extra + 0)"
    using acctD(5)[OF sw(1), of i] acctD(9)[OF sw(1)] h b unfolding attach_def Let_def
    by (intro acct_set_leased[OF sw(1) l(1) h(2), where e = "(cHeap ?c i)\<lparr>eBuf := Some buf\<rparr>"]) (auto simp: entryOK_def capOf_def)
  then show "acct (attach c i buf now) leases extra" by simp
  show "frame i c (attach c i buf now)"
    unfolding attach_def Let_def by (rule frame_trans[OF shrinks_frame[OF sw(2)] setEntry_frame])
  show "i \<notin> set (cList (attach c i buf now))" "eBuf (cHeap (attach c i buf now) i) = Some buf" using h by (simp_all add: attach_def Let_def)
qed

lemma variants_insert:
  assumes v: "variants c" and f: "frame i c c'" and l: "set (cList c') = insert i S"
    and k: "eKey (cHeap c' i) = key" "eVary (cHeap c' i) = w"
    and S: "\<And>x. x \<in> S \<Longrightarrow> x \<noteq> i \<and> (eKey (cHeap c' x) = key \<longrightarrow> sameVary (eVary (cHeap c' x)) w \<and> eVary (cHeap c' x) \<noteq> w)"
  shows "variants c'"
  unfolding variants_def l
proof (intro ballI impI)
  fix x y assume xy: "x \<in> insert i S" "y \<in> insert i S" and e: "eKey (cHeap c' x) = eKey (cHeap c' y)"
  have old: "z \<in> set (cList c) \<and> cHeap c' z = cHeap c z" if "z \<in> S" for z using f that S[OF that] l by (auto simp: frame_def)
  consider "x = i" | "x \<in> S" "y = i" | "x \<in> S" "y \<in> S" using xy by blast
  then show "sameVary (eVary (cHeap c' x)) (eVary (cHeap c' y)) \<and> (eVary (cHeap c' x) = eVary (cHeap c' y) \<longrightarrow> x = y)"
  proof cases
    case 1
    then show ?thesis using xy(2) S[of y] k e by (auto simp: sameVary_def)
  next
    case 2
    then show ?thesis using S[of x] k e by auto
  next
    case 3
    then show ?thesis using v e old[of x] old[of y] by (auto simp: variants_def)
  qed
qed

text \<open>\<^verbatim>\<open>publish\<close> attaches the buffer, then gives up or reserves the cost of the metadata and stores the entry.\<close>

lemma publish_cases:
  assumes "publish c i key headers names buf policy now now' = (c', ok)"
  obtains (no) "c' = attach c i buf now" "\<not> ok"
  | (refused) cost where "cacheMetadataCost key headers names (rbHeader buf) = Some cost"
      "reserveLocked (attach c i buf now) cost = (c', False)" "\<not> ok"
  | (stored) cost c3 c5 where "cacheMetadataCost key headers names (rbHeader buf) = Some cost"
      "reserveLocked (attach c i buf now) cost = (c3, True)" "ok"
      "c5 = replaceVariantsLocked (setEntry c3 i ((cHeap c3 i)\<lparr>charge := charge (cHeap c3 i) + cost, eKey := key,
         eVary := cacheSnapshotVary headers names, eBuf := Some buf\<rparr>)) i key headers"
      "c' = (setEntry c5 i ((cHeap c5 i)\<lparr>eExpires := fExpires (eFreshness (cHeap c5 i)), retained := True,
         refs := refs (cHeap c5 i) + 1\<rparr>))\<lparr>cList := cList c5 @ [i]\<rparr>"
proof -
  let ?c = "attach c i buf now"
  let ?f = "eFreshness (cHeap ?c i)"
  have eq: "publish c i key headers names buf policy now now' =
      (if \<not> fValid ?f \<or> \<not> now' < fExpires ?f then (?c, False)
       else case cacheMetadataCost key headers names (rbHeader buf) of
         None \<Rightarrow> (?c, False)
       | Some cost \<Rightarrow> if \<not> allowsVary policy names then (?c, False)
           else case reserveLocked ?c cost of (c3, ok) \<Rightarrow> if \<not> ok then (c3, False)
             else let c5 = replaceVariantsLocked (setEntry c3 i ((cHeap c3 i)\<lparr>charge := charge (cHeap c3 i) + cost, eKey := key,
                         eVary := cacheSnapshotVary headers names, eBuf := Some buf\<rparr>)) i key headers
               in ((setEntry c5 i ((cHeap c5 i)\<lparr>eExpires := fExpires (eFreshness (cHeap c5 i)), retained := True,
                     refs := refs (cHeap c5 i) + 1\<rparr>))\<lparr>cList := cList c5 @ [i]\<rparr>, True))"
    unfolding publish_def attach_def Let_def by (rule refl)
  show thesis
  proof (cases "cacheMetadataCost key headers names (rbHeader buf)")
    case None
    then show thesis using assms no unfolding eq by (simp split: if_splits)
  next
    case (Some cost)
    obtain c3 ok' where r: "reserveLocked ?c cost = (c3, ok')" by force
    show thesis
    proof (cases "\<not> fValid ?f \<or> \<not> now' < fExpires ?f \<or> \<not> allowsVary policy names")
      case True
      then show thesis using assms no Some unfolding eq by (auto split: if_splits)
    next
      case False
      then show thesis using assms refused[OF Some] stored[OF Some _ _ refl] Some r unfolding eq by (cases ok') (simp_all add: Let_def)
    qed
  qed
qed

lemma publish_spec:
  assumes a: "acct c leases extra" and l: "0 < leases i" "i \<notin> set (cList c)"
    and b: "capOf (cHeap c i) = bodyCap buf" "bufOK buf" and v: "variants c"
    and p: "publish c i key headers names buf policy now now' = (c', ok)"
  shows "acct c' leases extra \<and> frame i c c' \<and> variants c' \<and> (i \<in> set (cList c') \<longleftrightarrow> ok)"
proof -
  note A = attach_spec[OF a l b, of now]
  let ?c2 = "attach c i buf now"
  have fail: ?thesis if "\<not> ok" "shrinks ?c2 c'" "acct c' leases extra"
  proof -
    have "frame i c c'" using frame_trans[OF A(2) shrinks_frame[OF that(2)]] .
    moreover have "i \<notin> set (cList c')" using shrinks_set[OF that(2)] A(3) by auto
    ultimately show ?thesis using that variants_frame[OF v] by auto
  qed
  from p show ?thesis
  proof (cases rule: publish_cases)
    case no
    then show ?thesis using fail A(1) by simp
  next
    case (refused cost)
    then show ?thesis using fail reserveLocked_acct[OF A(1) refused(2)] by simp
  next
    case (stored cost c3 c5)
    note R = reserveLocked_acct[OF A(1) stored(2)]
    have h3: "cHeap c3 i = cHeap ?c2 i" "i \<notin> set (cList c3)" "frame i c c3"
      using R A(3) shrinks_set[of ?c2 c3] frame_trans[OF A(2) shrinks_frame] by (auto simp: shrinks_def)
    have cost: "0 \<le> cost" using cacheMetadataCost_covers[OF stored(1)] by simp
    have a3: "acct c3 leases (extra + cost)" using R by simp
    note S = store_spec[OF a3 l(1) h3(2) cost refl _ stored(4,5)]
    have S: "acct c' leases extra" "frame i c3 c'" "set (cList c') = insert i (set (cList c5))" "eKey (cHeap c' i) = key"
      "eVary (cHeap c' i) = cacheSnapshotVary headers names"
      "\<And>x. x \<in> set (cList c5) \<Longrightarrow> x \<noteq> i \<and> (eKey (cHeap c' x) = key \<longrightarrow>
         sameVary (eVary (cHeap c' x)) (cacheSnapshotVary headers names) \<and> eVary (cHeap c' x) \<noteq> cacheSnapshotVary headers names)"
      using S h3(1) A(4) by auto
    have f: "frame i c c'" using S(2) frame_trans[OF h3(3)] by blast
    show ?thesis using S(1,3) f stored(3) variants_insert[OF v f S(3-6)] by simp
  qed
qed

section \<open>The invariant\<close>

definition sysInv :: "cacheSystem \<Rightarrow> bool" where
  "sysInv s = (case s of (c, l, k, w) \<Rightarrow> acct c l (int k * cacheScratchBytes) \<and>
     (\<forall>i\<in>w. 0 < l i \<and> i \<notin> set (cList c)) \<and> variants c \<and> 1 \<le> cLimit c)"

lemma sysInv_shrinks:
  assumes "sysInv (c, l, k, w)" and "shrinks c c'" and "acct c' l' (int k' * cacheScratchBytes)" and "\<And>i. i \<in> w' \<Longrightarrow> i \<in> w \<and> l' i = l i"
  shows "sysInv (c', l', k', w')"
proof -
  obtain i where i: "i \<notin> set (cList c')" using ex_new_if_finite[of "set (cList c')"] infinite_UNIV_nat by blast
  have "variants c'" using variants_frame[OF _ shrinks_frame[OF assms(2)] i] assms(1) by (simp add: sysInv_def)
  then show ?thesis using assms shrinks_set[OF assms(2)] by (auto simp: sysInv_def shrinks_def)
qed

lemma sysInv_frame:
  assumes "sysInv (c, l, k, w)" and "frame i c c'" and "i \<notin> set (cList c')" and "acct c' l' (int k * cacheScratchBytes)"
    and "\<And>j. j \<in> w' \<Longrightarrow> j \<in> w \<and> l' j = l j \<or> j = i \<and> 0 < l' i"
  shows "sysInv (c', l', k, w')"
proof -
  have "variants c'" using variants_frame[OF _ assms(2,3)] assms(1) by (simp add: sysInv_def)
  moreover have "j \<notin> set (cList c')" if "j \<in> w'" for j
    using that assms(1,2,3) assms(5)[OF that] unfolding frame_def sysInv_def by (cases "j = i") auto
  ultimately show ?thesis using assms by (fastforce simp: sysInv_def frame_def)
qed

lemma release_spec:
  assumes a: "acct c l extra" and "0 < l i"
  shows "acct (release c i now) (l(i := l i - 1)) extra"
    "\<And>x. x \<in> set (cList (release c i now)) \<Longrightarrow> x \<in> set (cList c) \<and> eKey (cHeap (release c i now) x) = eKey (cHeap c x) \<and>
       eVary (cHeap (release c i now) x) = eVary (cHeap c x)" "cLimit (release c i now) = cLimit c"
proof -
  have r: "acct (releaseLocked c i) (l(i := l i - 1)) extra" by (rule acct_releaseLocked) fact+
  note sw = sweep[OF r, of now]
  show "acct (release c i now) (l(i := l i - 1)) extra" using sw(1) by (simp add: release_def)
  show "cLimit (release c i now) = cLimit c" using sw(2) by (simp add: release_def shrinks_def)
  fix x assume x: "x \<in> set (cList (release c i now))"
  then have xl: "x \<in> set (cList c)" "cHeap (release c i now) x = cHeap (releaseLocked c i) x"
    using shrinks_set[OF sw(2)] sw(2) by (auto simp: release_def shrinks_def)
  have "refs (cHeap c x) \<noteq> 1 \<or> x \<noteq> i" using acctD(3)[OF a, of x] xl(1) assms(2) by auto
  then have "eKey (cHeap (releaseLocked c i) x) = eKey (cHeap c x) \<and> eVary (cHeap (releaseLocked c i) x) = eVary (cHeap c x)"
    by (cases "x = i") (auto simp: releaseLocked_heap releaseLocked_def Let_def)
  with xl show "x \<in> set (cList c) \<and> eKey (cHeap (release c i now) x) = eKey (cHeap c x) \<and>
      eVary (cHeap (release c i now) x) = eVary (cHeap c x)" by simp
qed

lemma variants_same:
  assumes "variants c" and "\<And>x. x \<in> set (cList c') \<Longrightarrow> x \<in> set (cList c) \<and> eKey (cHeap c' x) = eKey (cHeap c x) \<and>
    eVary (cHeap c' x) = eVary (cHeap c x)"
  shows "variants c'"
  using assms unfolding variants_def by metis

lemma acct_unreserve:
  assumes "acct c l extra" and "0 \<le> n"
  shows "acct (c\<lparr>cBudget := releaseBudget (cBudget c) n\<rparr>) l (extra - n)"
  using assms unfolding acct_def releaseBudget_def by auto

lemma new_buffer_OK: "bufOK (newLimitedResponseBuffer n)" "bodyCap (newLimitedResponseBuffer n) = 0"
  by (auto simp: bufOK_def newLimitedResponseBuffer_def)

lemma frame_write: "frame i c (fst (writeBody c i n))" "cList (fst (writeBody c i n)) = cList c"
  by (auto simp: writeBody_def frame_def split: option.splits prod.splits)

lemma frame_stream: "frame i c (startStreaming c i)" "cList (startStreaming c i) = cList c"
  by (auto simp: startStreaming_def frame_def split: option.splits prod.splits)

lemma sysInv_get_hit:
  assumes I: "sysInv (c, l, k, w)" and g: "get c key headers policy now = (c', Some i)"
  shows "sysInv (c', l(i := Suc (l i)), k, w)"
proof -
  have a: "acct c l (int k * cacheScratchBytes)" using I by (simp add: sysInv_def)
  note sw = sweep[OF a, of now]
  have G: "i \<in> set (cList (sweepLocked c now))" "cList c' = cList (sweepLocked c now)" "frame i c c'"
    "cHeap c' = (cHeap (sweepLocked c now))(i := (cHeap c i)\<lparr>refs := refs (cHeap c i) + 1\<rparr>)"
    "acct c' (l(i := Suc (l i))) (int k * cacheScratchBytes)"
    using get_spec[OF a g] by simp_all
  have "variants c'"
  proof (rule variants_same)
    show "variants c" using I by (simp add: sysInv_def)
    show "x \<in> set (cList c) \<and> eKey (cHeap c' x) = eKey (cHeap c x) \<and> eVary (cHeap c' x) = eVary (cHeap c x)"
      if "x \<in> set (cList c')" for x
      using that sw(2) shrinks_set[OF sw(2)] by (auto simp: G(2,4) shrinks_def)
  qed
  moreover have "i \<notin> w" using I G(1) shrinks_set[OF sw(2)] by (auto simp: sysInv_def)
  ultimately show ?thesis using I G shrinks_set[OF sw(2)] by (auto simp: sysInv_def frame_def)
qed

lemma sysInv_release:
  assumes I: "sysInv (c, l, k, w)" and "0 < l i"
  shows "sysInv (release c i now, l(i := l i - 1), k, w - {i})"
proof -
  have a: "acct c l (int k * cacheScratchBytes)" using I by (simp add: sysInv_def)
  note R = release_spec[OF a assms(2), where now = now]
  have "variants (release c i now)" by (rule variants_same[OF _ R(2)]) (use I in \<open>simp add: sysInv_def\<close>)
  then show ?thesis using I R by (auto simp: sysInv_def)
qed

lemma sysInv_candidate:
  assumes I: "sysInv (c, l, k, w)" and cand: "candidate c now = (c', Some i)"
  shows "sysInv (c', l(i := Suc (l i)), k, insert i w)"
proof -
  have a: "acct c l (int k * cacheScratchBytes)" using I by (simp add: sysInv_def)
  obtain c1 where C: "i = cNext c" "acct c' (l(i := Suc (l i))) (int k * cacheScratchBytes)" "shrinks c c1"
    "cLimit c' = cLimit c1" "cList c' = cList c1" "\<And>j. j \<noteq> i \<Longrightarrow> cHeap c' j = cHeap c1 j"
    using candidate_acct[OF a cand] by auto
  have i: "l i = 0" "i \<notin> set (cList c)" using acct_lt[OF a, of i] C(1) by (metis less_irrefl neq0_conv)+
  have f: "frame i c c'" using C(3-6) shrinks_frame[OF C(3), of i] by (auto simp: frame_def)
  show ?thesis
    by (rule sysInv_frame[OF I f _ C(2)]) (use C(5) i shrinks_set[OF C(3)] I in \<open>auto simp: sysInv_def\<close>)
qed

lemma sysInv_publish:
  assumes I: "sysInv (c, l, k, w)" and i: "i \<in> w" and b: "eBuf (cHeap c i) = Some b"
    and p: "publish c i key headers names (b\<lparr>rbHeader := hdr\<rparr>) policy now now' = (c', ok)"
  shows "sysInv (c', l, k, w - {i})"
proof -
  have a: "acct c l (int k * cacheScratchBytes)" and l: "0 < l i" "i \<notin> set (cList c)" and v: "variants c"
    using I i by (auto simp: sysInv_def)
  have "bufOK b" using acctD(5)[OF a, of i] b by (simp add: entryOK_def)
  then have "bufOK (b\<lparr>rbHeader := hdr\<rparr>)" "capOf (cHeap c i) = bodyCap (b\<lparr>rbHeader := hdr\<rparr>)"
    by (simp_all add: bufOK_def capOf_def b)
  from publish_spec[OF a l this(2,1) v p] show ?thesis using I by (auto simp: sysInv_def frame_def)
qed

lemma sysInv_step:
  assumes "cacheStep s s'" and "sysInv s"
  shows "sysInv s'"
  using assms
proof (induction rule: cacheStep.induct)
  case (begin_ok c now c' l k w)
  have a: "acct c l (int k * cacheScratchBytes)" using begin_ok by (simp add: sysInv_def)
  note sw = sweep[OF a, of now]
  have "acct c' l (int (Suc k) * cacheScratchBytes)" "shrinks c c'"
    using reserveLocked_acct[OF sw(1) begin_ok(1)[unfolded begin_request_def]] shrinks_trans[OF sw(2)]
    by (auto simp: algebra_simps)
  then show ?case using sysInv_shrinks[OF begin_ok(2)] by simp
next
  case (begin_full c now c' l k w)
  have a: "acct c l (int k * cacheScratchBytes)" using begin_full by (simp add: sysInv_def)
  note sw = sweep[OF a, of now]
  have "acct c' l (int k * cacheScratchBytes)" "shrinks c c'"
    using reserveLocked_acct[OF sw(1) begin_full(1)[unfolded begin_request_def]] shrinks_trans[OF sw(2)] by auto
  then show ?case using sysInv_shrinks[OF begin_full(2)] by simp
next
  case (end_req c l k w now)
  let ?c = "c\<lparr>cBudget := releaseBudget (cBudget c) cacheScratchBytes\<rparr>"
  have "acct c l (int (Suc k) * cacheScratchBytes)" using end_req by (simp only: sysInv_def prod.case)
  from acct_unreserve[OF this, of cacheScratchBytes] have "acct ?c l (int k * cacheScratchBytes)"
    by (simp add: cacheScratchBytes_def algebra_simps)
  note sw = sweep[OF this, of now]
  have "shrinks c ?c" by (simp add: shrinks_def releaseBudget_def)
  then have "shrinks c (end_request c now)" using sw(2) shrinks_trans by (simp add: end_request_def)
  then show ?case using sysInv_shrinks[OF end_req] sw(1) by (simp add: end_request_def)
next
  case (get_miss c key headers policy now c' l k w)
  have a: "acct c l (int k * cacheScratchBytes)" using get_miss by (simp add: sysInv_def)
  then have "c' = sweepLocked c now" using get_spec[OF a get_miss(1)] by simp
  then show ?case using sysInv_shrinks[OF get_miss(2)] sweep[OF a, of now] by simp
next
  case (candidate_no c now c' l k w)
  have a: "acct c l (int k * cacheScratchBytes)" using candidate_no by (simp add: sysInv_def)
  then show ?case using sysInv_shrinks[OF candidate_no(2)] candidate_acct[OF a candidate_no(1)] by simp
next
  case (attached i w c l k now)
  have a: "acct c l (int k * cacheScratchBytes)" and l: "0 < l i" "i \<notin> set (cList c)" using attached by (auto simp: sysInv_def)
  have "capOf (cHeap c i) = bodyCap (newLimitedResponseBuffer (cMaxBody c))" using attached(2) by (simp add: capOf_def new_buffer_OK)
  note A = attach_spec[OF a l this new_buffer_OK(1), of now]
  show ?case by (rule sysInv_frame[OF attached(3) A(2,3,1)]) simp
next
  case (written i w n c l k)
  then have a: "acct c l (int k * cacheScratchBytes)" and l: "0 < l i" "i \<notin> set (cList c)" by (auto simp: sysInv_def)
  show ?case
    by (rule sysInv_frame[OF written(3) frame_write(1) _ writeBody_acct[OF a l written(2)]]) (use l in \<open>simp_all add: frame_write\<close>)
next
  case (streamed i w c l k)
  then have a: "acct c l (int k * cacheScratchBytes)" and l: "0 < l i" "i \<notin> set (cList c)" by (auto simp: sysInv_def)
  show ?case
    by (rule sysInv_frame[OF streamed(2) frame_stream(1) _ startStreaming_acct[OF a l]]) (use l in \<open>simp_all add: frame_stream\<close>)
next
  case (dated i w c l k f)
  then have a: "acct c l (int k * cacheScratchBytes)" and l: "0 < l i" "i \<notin> set (cList c)" by (auto simp: sysInv_def)
  have "acct (setEntry c i ((cHeap c i)\<lparr>eFreshness := f\<rparr>)) l (int k * cacheScratchBytes + 0)"
    using acctD(5)[OF a, of i] acctD(9)[OF a]
    by (intro acct_set_leased[OF a l, where e = "(cHeap c i)\<lparr>eFreshness := f\<rparr>"]) (auto simp: entryOK_def capOf_def)
  then show ?case using sysInv_frame[OF dated(2) setEntry_frame] l by simp
qed (rule sysInv_get_hit sysInv_candidate sysInv_publish sysInv_release; assumption)+

lemma sysInv_init: "sysInv (initSystem entries body budget)"
  by (auto simp: sysInv_def initSystem_def newBoundedTTLCache_def acct_def zeroEntry_def entryOK_def variants_def
      newResponseBufferBudget_def liveOf_def costOf_def)

lemma sysInv_reachable: "cacheStep\<^sup>*\<^sup>* (initSystem entries body budget) s \<Longrightarrow> sysInv s"
  by (induction rule: rtranclp_induct) (auto intro: sysInv_init sysInv_step)

lemma sum_costOf_nonneg: "acct c l extra \<Longrightarrow> 0 \<le> (\<Sum>i<cNext c. costOf (cHeap c i))"
proof (rule sum_nonneg)
  fix i assume a: "acct c l extra"
  show "0 \<le> costOf (cHeap c i)"
    using acctD(5)[OF a, of i] by (auto simp: costOf_def capOf_def entryOK_def bufOK_def split: option.splits)
qed

lemma idle_empty:
  assumes "acct c (\<lambda>_. 0) extra" and "cList c = []"
  shows "cCount c = 0 \<and> bUsed (cBudget c) = extra"
proof -
  have "refs (cHeap c i) = 0" for i using acctD(3)[OF assms(1), of i] assms(2) by simp
  then have "liveOf (cHeap c i) = 0" "costOf (cHeap c i) = 0" for i by (simp_all add: liveOf_def costOf_def)
  then show ?thesis using acctD(6,7)[OF assms(1)] by simp
qed

section \<open>Properties\<close>

text \<open>A run that stores one response and releases it.\<close>

definition demoKey :: cacheKey where
  "demoKey = zeroKey\<lparr>ckMethod := ''GET'', ckHost := ''a.io'', ckTarget := ''/''\<rparr>"

definition demo0 :: ttlCache where
  "demo0 = newBoundedTTLCache 2 0 0"

definition demo1 :: ttlCache where
  "demo1 = fst (candidate demo0 0)"

definition demo2 :: ttlCache where
  "demo2 = attach demo1 0 (newLimitedResponseBuffer (cMaxBody demo1)) 0"

definition demo3 :: ttlCache where
  "demo3 = setEntry demo2 0 ((cHeap demo2 0)\<lparr>eFreshness :=
     \<lparr>fReceived = 0, fDate = 0, initialAge = 0, fExpires = 60, fValid = True\<rparr>\<rparr>)"

definition demo4 :: ttlCache where
  "demo4 = fst (publish demo3 0 demoKey [] [] ((newLimitedResponseBuffer 8388608)\<lparr>rbHeader := []\<rparr>) None 0 0)"

definition demo5 :: ttlCache where
  "demo5 = release demo4 0 0"

lemma demo_stored: "cacheStep\<^sup>*\<^sup>* (initSystem 2 0 0) (demo4, (\<lambda>_. 0)(0 := Suc 0), 0, {})"
proof -
  let ?l = "(\<lambda>_. 0)(0 := Suc 0) :: nat \<Rightarrow> nat"
  have "snd (candidate demo0 0) = Some 0" by code_simp
  then have "candidate demo0 0 = (demo1, Some 0)" by (simp add: demo1_def prod_eq_iff)
  from cacheStep.candidate_ok[OF this, of "\<lambda>_. 0" 0 "{}"]
  have s1: "cacheStep (initSystem 2 0 0) (demo1, ?l, 0, {0})" by (simp add: initSystem_def demo0_def)
  have "eBuf (cHeap demo1 0) = None" by code_simp
  from cacheStep.attached[OF _ this, of "{0}" ?l 0 0] have s2: "cacheStep (demo1, ?l, 0, {0}) (demo2, ?l, 0, {0})" by (simp add: demo2_def)
  have s3: "cacheStep (demo2, ?l, 0, {0}) (demo3, ?l, 0, {0})" unfolding demo3_def by (rule cacheStep.dated) simp
  have "eBuf (cHeap demo3 0) = Some (newLimitedResponseBuffer 8388608)" by code_simp
  from cacheStep.published[OF _ this, of "{0}" demoKey "[]" "[]" "[]" None 0 0 demo4
      "snd (publish demo3 0 demoKey [] [] ((newLimitedResponseBuffer 8388608)\<lparr>rbHeader := []\<rparr>) None 0 0)" ?l 0]
  have s4: "cacheStep (demo3, ?l, 0, {0}) (demo4, ?l, 0, {})" by (simp add: demo4_def)
  from s1 s2 s3 s4 show ?thesis by (meson rtranclp.rtrancl_into_rtrancl rtranclp.rtrancl_refl)
qed

lemma demo_idle: "cacheStep\<^sup>*\<^sup>* (initSystem 2 0 0) (demo5, \<lambda>_. 0, 0, {})"
proof -
  have "cacheStep (demo4, (\<lambda>_. 0)(0 := Suc 0), 0, {}) (demo5, \<lambda>_. 0, 0, {})"
    using cacheStep.released[of "(\<lambda>_. 0)(0 := Suc 0)" 0 demo4 0 "{}" 0] by (simp add: demo5_def fun_upd_idem)
  with demo_stored show ?thesis by (rule rtranclp.rtrancl_into_rtrancl)
qed

text \<open>
  C8: The memory of the cache is bounded and nothing is freed while in use.  In every interleaving of requests, the used budget is
  exactly the scratch space of the requests in progress plus the charge and the body capacity of every entry that is referenced, and
  never exceeds its limit; the entry counter counts exactly the referenced entries, at most the
  configured number; the reference count of an entry is the number of its holders plus one for the list.
\<close>

theorem cache_memory_bounded:
  assumes "cacheStep\<^sup>*\<^sup>* (initSystem entries body budget) (c, l, k, w)"
  shows "bUsed (cBudget c) = int k * cacheScratchBytes + (\<Sum>i<cNext c. costOf (cHeap c i)) \<and>
    int k * cacheScratchBytes \<le> bUsed (cBudget c) \<and> bUsed (cBudget c) \<le> bLimit (cBudget c) \<and>
    cCount c = (\<Sum>i<cNext c. liveOf (cHeap c i)) \<and> cCount c \<le> cLimit c \<and>
    refs (cHeap c i) = int (l i) + (if i \<in> set (cList c) then 1 else 0)"
proof -
  have a: "acct c l (int k * cacheScratchBytes)" using sysInv_reachable[OF assms] by (simp add: sysInv_def)
  show ?thesis using acctD(3)[OF a, of i] acctD(6-9)[OF a] sum_costOf_nonneg[OF a] by simp
qed

theorem cache_memory_bounded_witness: "bUsed (cBudget demo4) \<le> bLimit (cBudget demo4) \<and> refs (cHeap demo4 0) = 2"
proof -
  have "(0::nat) \<in> set (cList demo4)" by code_simp
  with cache_memory_bounded[OF demo_stored, of 0] show ?thesis by simp
qed

text \<open>
  C9: A lookup has one answer.  In every interleaving, an entry returned by a lookup is unexpired, has the key of the request and
  its variance fields have the values they have in the request; no other entry of the cache fits the
  request, so the answer does not depend on the order of the list.
\<close>

theorem cache_lookup_unambiguous:
  assumes "cacheStep\<^sup>*\<^sup>* (initSystem entries body budget) (c, l, k, w)"
    and "get c key headers policy now = (c', Some i)"
  shows "now < eExpires (cHeap c' i) \<and> eKey (cHeap c' i) = key \<and> matchesVary (eVary (cHeap c' i)) headers \<and>
    (\<forall>j. j \<in> set (cList c') \<and> eKey (cHeap c' j) = key \<and> matchesVary (eVary (cHeap c' j)) headers \<longrightarrow> j = i)"
proof -
  have I: "sysInv (c, l, k, w)" by (rule sysInv_reachable) fact
  then have a: "acct c l (int k * cacheScratchBytes)" by (simp add: sysInv_def)
  have G: "i \<in> set (cList c')" "entryMatches key headers policy (cHeap c i)" "now < eExpires (cHeap c i)"
    "cHeap c' i = (cHeap c i)\<lparr>refs := refs (cHeap c i) + 1\<rparr>" using get_spec[OF a assms(2)] by auto
  have v: "variants c'" using sysInv_get_hit[OF I assms(2)] by (simp add: sysInv_def)
  have m: "now < eExpires (cHeap c' i)" "eKey (cHeap c' i) = key" "matchesVary (eVary (cHeap c' i)) headers"
    using G(2,3) by (simp_all add: G(4) entryMatches_def)
  have "j = i" if "j \<in> set (cList c')" "eKey (cHeap c' j) = key" "matchesVary (eVary (cHeap c' j)) headers" for j
    using v that G(1) m matches_unique[of "eVary (cHeap c' j)" "eVary (cHeap c' i)" headers] unfolding variants_def by metis
  with m show ?thesis by blast
qed

theorem cache_lookup_unambiguous_witness:
  "1 < eExpires (cHeap (fst (get demo4 demoKey [] None 1)) 0) \<and> eKey (cHeap (fst (get demo4 demoKey [] None 1)) 0) = demoKey"
proof -
  have "snd (get demo4 demoKey [] None 1) = Some 0" by code_simp
  then have "get demo4 demoKey [] None 1 = (fst (get demo4 demoKey [] None 1), Some 0)" by (simp add: prod_eq_iff)
  from cache_lookup_unambiguous[OF demo_stored this] show ?thesis by simp
qed

text \<open>
  C25: The cache always comes back.  Whenever no entry is leased and the budget has room for one entry beside the requests
  in progress, the next candidate is admitted, whatever is stored; and without requests, sweeping
  expired entries returns the whole budget.
\<close>

theorem cache_admits_again:
  assumes "cacheStep\<^sup>*\<^sup>* (initSystem entries body budget) (c, \<lambda>_. 0, k, w)"
    and "int k * cacheScratchBytes + cacheEntryControlBytes \<le> bLimit (cBudget c)"
  shows "(\<exists>c' i. candidate c now = (c', Some i)) \<and>
    (if k = 0 \<and> list_all (\<lambda>i. eExpires (cHeap c i) \<le> now) (cList c)
     then bUsed (cBudget (sweepLocked c now)) = 0 \<and> cCount (sweepLocked c now) = 0 else True)"
proof -
  have a: "acct c (\<lambda>_. 0) (int k * cacheScratchBytes)" and lim: "1 \<le> cLimit c"
    using sysInv_reachable[OF assms(1)] by (simp_all add: sysInv_def)
  note sw = sweep[OF a, of now]
  define c1 where "c1 = evictHead (sweepLocked c now)"
  have e: "acct c1 (\<lambda>_. 0) (int k * cacheScratchBytes)" "shrinks c c1" "cLimit c1 \<le> cCount c1 \<Longrightarrow> cList c1 = []"
    using evictHead_acct[OF sw(1)] shrinks_trans[OF sw(2)] unfolding c1_def by blast+
  have room: "\<not> cLimit c1 \<le> cCount c1"
  proof
    assume le: "cLimit c1 \<le> cCount c1"
    have "cCount c1 = 0" using idle_empty[OF e(1) e(3)[OF le]] by simp
    moreover have "cLimit c1 = cLimit c" using e(2) by (simp add: shrinks_def)
    ultimately show False using le lim by simp
  qed
  obtain c2 ok where r: "reserveLocked c1 cacheEntryControlBytes = (c2, ok)" by force
  note R = reserveLocked_acct[OF e(1) r]
  have ok
  proof (rule ccontr)
    assume "\<not> ok"
    with R have x: "acct c2 (\<lambda>_. 0) (int k * cacheScratchBytes)" "cList c2 = []"
      "cacheEntryControlBytes > bLimit (cBudget c2) - bUsed (cBudget c2)" by auto
    moreover have "bLimit (cBudget c2) = bLimit (cBudget c)" using R e(2) by (simp add: shrinks_def)
    ultimately show False using idle_empty[OF x(1,2)] assms(2) by simp
  qed
  then have "\<exists>c' i. candidate c now = (c', Some i)"
    using room r unfolding candidate_def c1_def[symmetric] Let_def by simp
  moreover have "bUsed (cBudget (sweepLocked c now)) = 0 \<and> cCount (sweepLocked c now) = 0"
    if "k = 0" "list_all (\<lambda>i. eExpires (cHeap c i) \<le> now) (cList c)"
  proof -
    have "cList (sweepLocked c now) = []" using that(2) by (auto simp: sw(3) list_all_iff filter_empty_conv)
    then show ?thesis using idle_empty[OF sw(1)] that(1) by simp
  qed
  ultimately show ?thesis by auto
qed

theorem cache_admits_again_witness:
  "(\<exists>c' i. candidate demo5 60 = (c', Some i)) \<and> bUsed (cBudget (sweepLocked demo5 60)) = 0 \<and> cList demo5 = [0]"
proof -
  have "int 0 * cacheScratchBytes + cacheEntryControlBytes \<le> bLimit (cBudget demo5)" by code_simp
  note A = cache_admits_again[OF demo_idle this, of 60]
  have "list_all (\<lambda>i. eExpires (cHeap demo5 i) \<le> 60) (cList demo5)" "cList demo5 = [0]" by code_simp+
  with A show ?thesis by simp
qed

end
