(* ===== verification/Negotiation.thy ===== *)
theory Negotiation
  imports Cache_Policy
begin

text \<open>
  Content coding negotiation: \<^verbatim>\<open>src/compress_negotiation.go\<close>.  Qualities are thousandths; the quality map is a
  partial function on normalized coding names.
\<close>

section \<open>Qualities\<close>

fun fractionLoop :: "string \<Rightarrow> int \<Rightarrow> int \<Rightarrow> string \<Rightarrow> int option" where
  "fractionLoop whole q scale [] = Some q"
| "fractionLoop whole q scale (c # s) =
     (if \<not> isDigit c \<or> (whole = ''1'' \<and> c \<noteq> CHR ''0'') then None
      else fractionLoop whole (q + (int (byte c) - 48) * scale) (scale div 10) s)"

definition fractionQuality :: "string \<Rightarrow> string \<Rightarrow> int option" where
  "fractionQuality whole fraction =
     (if length fraction > 3 then None
      else case fractionLoop whole 0 100 fraction of
             None \<Rightarrow> None
           | Some q \<Rightarrow> Some (if whole = ''1'' then 1000 else q))"

text \<open>\<^verbatim>\<open>strings.Cut\<close> at a byte: what is before, what is after, and whether it was found.\<close>

definition cutAt :: "string \<Rightarrow> char \<Rightarrow> string \<times> string \<times> bool" where
  "cutAt s c = (case cutByte s c of Some (a, b) \<Rightarrow> (a, b, True) | None \<Rightarrow> (s, [], False))"

definition encodingQuality :: "string \<Rightarrow> int option" where
  "encodingQuality s =
     (if s = ''.'' then None
      else let v = (if hasPrefix s ''.'' then CHR ''0'' # s else s) in
        case cutAt v CHR ''.'' of (whole, fraction, _) \<Rightarrow>
          if whole \<noteq> ''0'' \<and> whole \<noteq> ''1'' then None else fractionQuality whole fraction)"

definition normalizeCoding :: "string \<Rightarrow> string" where
  "normalizeCoding name = (if toLower name = ''x-gzip'' then ''gzip'' else toLower name)"

definition parseEncodingMember :: "(string \<Rightarrow> bool) \<Rightarrow> string \<Rightarrow> (string \<times> int) option" where
  "parseEncodingMember valid member =
     (case cutAt member CHR '';'' of (name, parameter, weighted) \<Rightarrow>
        let name = normalizeCoding (trim name blankTab) in
        if \<not> valid name then None
        else if \<not> weighted then Some (name, 1000)
        else case cutAt parameter CHR ''='' of (key, v, ok) \<Rightarrow>
          if \<not> ok \<or> \<not> equalFold (trim key blankTab) ''q'' then None
          else map_option (\<lambda>q. (name, q)) (encodingQuality (trim v blankTab)))"

record encodingPreferences =
  epPresent :: bool
  epQuality :: "string \<Rightarrow> int option"

fun membersLoop :: "(string \<Rightarrow> bool) \<Rightarrow> (string \<Rightarrow> int option) \<Rightarrow> string list \<Rightarrow> (string \<Rightarrow> int option) option" where
  "membersLoop valid quality [] = Some quality"
| "membersLoop valid quality (m # ms) =
     (let m = trim m blankTab in
      if m = [] then membersLoop valid quality ms
      else case parseEncodingMember valid m of
             None \<Rightarrow> None
           | Some (name, q) \<Rightarrow>
               membersLoop valid (quality(name := Some (case quality name of Some previous \<Rightarrow> min q previous | None \<Rightarrow> q))) ms)"

definition parseAcceptEncoding :: "(string \<Rightarrow> bool) \<Rightarrow> rawHeader \<Rightarrow> encodingPreferences option" where
  "parseAcceptEncoding valid h = (case cacheHeaderValues h ''Accept-Encoding'' of (vs, present) \<Rightarrow>
     map_option (\<lambda>q. \<lparr>epPresent = present, epQuality = q\<rparr>)
       (membersLoop valid (\<lambda>_. None) (concat (map (\<lambda>v. splitByte v CHR '','') vs))))"

definition weight :: "encodingPreferences \<Rightarrow> string \<Rightarrow> int" where
  "weight p name =
     (let name = normalizeCoding name in
      if \<not> epPresent p then 1000
      else case epQuality p name of
        Some q \<Rightarrow> q
      | None \<Rightarrow>
          if name = ''identity'' \<and> epQuality p ''*'' \<noteq> Some 0 then 1000
          else (case epQuality p ''*'' of Some w \<Rightarrow> w | None \<Rightarrow> 0))"

section \<open>Selection\<close>

record compressionNegotiator =
  prefs :: encodingPreferences
  cnGzip :: bool
  cnBrotli :: bool
  transform :: bool

definition preferredCoding :: "compressionNegotiator \<Rightarrow> string \<times> bool" where
  "preferredCoding n =
     (let (coding, quality) = (if cnBrotli n then (''br'', weight (prefs n) ''br'') else ([], 0));
          q = weight (prefs n) ''gzip'';
          (coding, quality) = (if cnGzip n \<and> q > quality then (''gzip'', q) else (coding, quality))
      in if (case epQuality (prefs n) ''identity'' of Some identity \<Rightarrow> identity > quality | None \<Rightarrow> False) then ([], True)
         else if quality > 0 then (coding, True)
         else ([], weight (prefs n) ''identity'' > 0))"

definition acceptsStack :: "(string \<Rightarrow> bool) \<Rightarrow> encodingPreferences \<Rightarrow> string \<Rightarrow> bool" where
  "acceptsStack valid p current = list_all (\<lambda>coding.
     let coding = normalizeCoding (trim coding blankTab) in
     coding \<noteq> ''*'' \<and> valid coding \<and> weight p coding \<noteq> 0) (splitByte current CHR '','')"

definition selectCoding :: "(string \<Rightarrow> bool) \<Rightarrow> compressionNegotiator \<Rightarrow> rawHeader \<Rightarrow> int \<Rightarrow> string \<times> bool" where
  "selectCoding valid n h status =
     (let current = trim (joinStrings (fst (cacheHeaderValues h ''Content-Encoding'')) '','') blankTab in
      if current \<noteq> [] \<and> \<not> equalFold current ''identity'' then ([], acceptsStack valid (prefs n) current)
      else if \<not> epPresent (prefs n) \<or> status = 206 \<or> snd (cacheHeaderValues h ''Content-Range'') \<or> \<not> transform n \<or>
          \<not> cacheControlAllows valid h [''no-transform'']
        then ([], weight (prefs n) ''identity'' > 0)
      else preferredCoding n)"

section \<open>Ranges\<close>

definition goodQuality :: "(string \<Rightarrow> int option) \<Rightarrow> bool" where
  "goodQuality f \<longleftrightarrow> (\<forall>name q. f name = Some q \<longrightarrow> 0 \<le> q \<and> q \<le> 1000)"

lemma fractionLoop_range:
  assumes "fractionLoop whole q scale s = Some r" and "0 \<le> q" and "0 \<le> scale"
  shows "q \<le> r \<and> r \<le> q + 10 * scale"
  using assms
proof (induction whole q scale s rule: fractionLoop.induct)
  case (2 whole q scale c s)
  define n where "n = int (byte c) - 48"
  have n: "0 \<le> n" "n \<le> 9" using 2(2) by (auto simp: n_def isDigit_def split: if_splits)
  have r: "fractionLoop whole (q + n * scale) (scale div 10) s = Some r" using 2(2) by (auto simp: n_def split: if_splits)
  have d: "0 \<le> scale div 10" "10 * (scale div 10) \<le> scale" using 2(4) by auto
  have "0 \<le> n * scale" "n * scale \<le> 9 * scale" using n 2(4) by (simp_all add: mult_right_mono)
  moreover have "q + n * scale \<le> r \<and> r \<le> q + n * scale + 10 * (scale div 10)"
    using 2(1) r 2(2,3) d calculation by (auto simp: n_def split: if_splits)
  ultimately show ?case using d by linarith
qed simp

lemma encodingQuality_range: "encodingQuality s = Some q \<Longrightarrow> 0 \<le> q \<and> q \<le> 1000"
  using fractionLoop_range[of _ 0 100]
  by (fastforce simp: encodingQuality_def fractionQuality_def Let_def split: if_splits prod.splits option.splits)

lemma parseEncodingMember_range: "parseEncodingMember valid m = Some (name, q) \<Longrightarrow> 0 \<le> q \<and> q \<le> 1000"
  by (auto simp: parseEncodingMember_def Let_def split: if_splits prod.splits dest: encodingQuality_range)

lemma goodQuality_upd:
  assumes "goodQuality f" and "0 \<le> q \<and> q \<le> 1000"
  shows "goodQuality (f(name := Some (case f name of Some previous \<Rightarrow> min q previous | None \<Rightarrow> q)))"
  using assms by (cases "f name") (auto simp: goodQuality_def min_def)

lemma membersLoop_range: "membersLoop valid f ms = Some g \<Longrightarrow> goodQuality f \<Longrightarrow> goodQuality g"
proof (induction ms arbitrary: f)
  case (Cons m ms)
  show ?case
  proof (cases "trim m blankTab = []")
    case False
    show ?thesis
    proof (cases "parseEncodingMember valid (trim m blankTab)")
      case None
      then show ?thesis using False Cons.prems(1) by simp
    next
      case (Some p)
      then obtain name q where p: "parseEncodingMember valid (trim m blankTab) = Some (name, q)" by (cases p) simp
      let ?f = "f(name := Some (case f name of Some previous \<Rightarrow> min q previous | None \<Rightarrow> q))"
      have "membersLoop valid ?f ms = Some g" using Cons.prems(1) False p by simp
      then show ?thesis using goodQuality_upd[OF Cons.prems(2) parseEncodingMember_range[OF p]] by (rule Cons.IH)
    qed
  qed (use Cons in simp)
qed simp

lemma parseAcceptEncoding_range:
  assumes "parseAcceptEncoding valid h = Some p"
  shows "0 \<le> weight p name \<and> weight p name \<le> 1000"
proof -
  have "goodQuality (epQuality p)"
  proof -
    obtain ms where "membersLoop valid (\<lambda>_. None) ms = Some (epQuality p)"
      using assms by (force simp: parseAcceptEncoding_def split: prod.splits)
    then show ?thesis by (rule membersLoop_range) (simp add: goodQuality_def)
  qed
  then show ?thesis by (auto simp: weight_def Let_def goodQuality_def split: option.splits)
qed

section \<open>Properties\<close>

text \<open>
  C31: The selected coding is acceptable and the best one on offer.  When the response may be encoded, a representation is
  delivered exactly if the client accepts the identity or an enabled coding.  What is delivered, be it a coding or the
  identity, has a positive quality, and neither an enabled coding nor an identity the client lists has a larger one.
  The identity is delivered although an enabled coding is acceptable only if the client lists it with a strictly larger quality
  than every enabled coding.  All qualities read from a request lie between 0 and 1000.
\<close>

theorem preferredCoding_best:
  assumes "parseAcceptEncoding valid h = Some (prefs n)" and "epPresent (prefs n)" and "preferredCoding n = (coding, ok)"
  shows "(ok \<longleftrightarrow> weight (prefs n) ''identity'' > 0 \<or> cnBrotli n \<and> weight (prefs n) ''br'' > 0 \<or> cnGzip n \<and> weight (prefs n) ''gzip'' > 0) \<and>
    (if ok then weight (prefs n) (if coding = [] then ''identity'' else coding) > 0 \<and>
       (coding = [] \<or> cnBrotli n \<and> coding = ''br'' \<or> cnGzip n \<and> coding = ''gzip'') else coding = []) \<and>
    (let q = weight (prefs n) (if coding = [] then ''identity'' else coding) in
       (if cnBrotli n then weight (prefs n) ''br'' \<le> q else True) \<and>
       (if cnGzip n then weight (prefs n) ''gzip'' \<le> q else True) \<and>
       (case epQuality (prefs n) ''identity'' of Some i \<Rightarrow> i \<le> q | None \<Rightarrow> True)) \<and>
    (if coding = [] \<and> (cnBrotli n \<and> weight (prefs n) ''br'' > 0 \<or> cnGzip n \<and> weight (prefs n) ''gzip'' > 0)
     then (case epQuality (prefs n) ''identity'' of
         Some i \<Rightarrow> (if cnBrotli n then weight (prefs n) ''br'' < i else True) \<and> (if cnGzip n then weight (prefs n) ''gzip'' < i else True)
       | None \<Rightarrow> False)
     else True) \<and>
    0 \<le> weight (prefs n) name \<and> weight (prefs n) name \<le> 1000"
proof -
  let ?p = "prefs n"
  have r: "0 \<le> weight ?p x" for x using parseAcceptEncoding_range[OF assms(1)] by blast
  have i: "weight ?p ''identity'' = q" if "epQuality ?p ''identity'' = Some q" for q
    using that assms(2) by (simp add: weight_def normalizeCoding_def toLower_def lowerChar_def isUpperAlpha_def)
  show ?thesis
    using assms(3) r[of "''br''"] r[of "''gzip''"] r[of "''identity''"] i parseAcceptEncoding_range[OF assms(1), of name]
    by (cases "epQuality ?p ''identity''"; cases "cnBrotli n"; cases "cnGzip n")
      (auto simp: preferredCoding_def Let_def split: if_splits)
qed

definition demoPrefs :: encodingPreferences where
  "demoPrefs = the (parseAcceptEncoding validHeaderFieldName [(''accept-encoding'', [''x-gzip;q=0.5, br;Q=0.25'', ''identity;q=.1''])])"

definition demoNegotiator :: compressionNegotiator where
  "demoNegotiator = \<lparr>prefs = demoPrefs, cnGzip = True, cnBrotli = True, transform = True\<rparr>"

definition demoIdentityPrefs :: encodingPreferences where
  "demoIdentityPrefs = the (parseAcceptEncoding validHeaderFieldName [(''Accept-Encoding'', [''br;q=0.5, identity''])])"

theorem preferredCoding_best_witness:
  "0 < weight (prefs demoNegotiator) ''gzip'' \<and> weight (prefs demoNegotiator) ''br'' \<le> weight (prefs demoNegotiator) ''gzip'' \<and>
   weight demoIdentityPrefs ''br'' \<le> weight demoIdentityPrefs ''identity''"
proof -
  let ?h = "[(''accept-encoding'', [''x-gzip;q=0.5, br;Q=0.25'', ''identity;q=.1''])]"
  let ?h' = "[(''Accept-Encoding'', [''br;q=0.5, identity''])]"
  have "\<not> Option.is_none (parseAcceptEncoding validHeaderFieldName ?h)" "\<not> Option.is_none (parseAcceptEncoding validHeaderFieldName ?h')"
    by code_simp+
  then have p: "parseAcceptEncoding validHeaderFieldName ?h = Some (prefs demoNegotiator)"
    and p': "parseAcceptEncoding validHeaderFieldName ?h' = Some (prefs (demoNegotiator\<lparr>prefs := demoIdentityPrefs\<rparr>))"
    by (auto simp: demoNegotiator_def demoPrefs_def demoIdentityPrefs_def Option.is_none_def)
  have e: "epPresent (prefs demoNegotiator)" "preferredCoding demoNegotiator = (''gzip'', True)" "cnBrotli demoNegotiator" by code_simp+
  have e': "epPresent (prefs (demoNegotiator\<lparr>prefs := demoIdentityPrefs\<rparr>))"
    "preferredCoding (demoNegotiator\<lparr>prefs := demoIdentityPrefs\<rparr>) = ([], True)" by code_simp+
  from preferredCoding_best[OF p e(1,2)] preferredCoding_best[OF p' e'] e(3) show ?thesis by (simp add: Let_def)
qed

end
