(* ===== verification/Precondition.thy ===== *)
theory Precondition
  imports Cache_Policy
begin

text \<open>
  Read preconditions on a selected representation: \<^verbatim>\<open>src/internal/httpprecondition/precondition.go\<close>.  Dates are read by the
  parameter \<open>parseTime\<close> (\<^verbatim>\<open>http.ParseTime\<close>).
\<close>

section \<open>Entity tags\<close>

text \<open>The index of the closing quote, scanning from index \<open>i\<close>.\<close>

fun tagEnd :: "nat \<Rightarrow> string \<Rightarrow> nat option" where
  "tagEnd i [] = None"
| "tagEnd i (c # s) =
     (if c = CHR 0x22 then Some i
      else if byte c < 33 \<or> byte c = 127 then None
      else tagEnd (Suc i) s)"

definition consumeTag :: "string \<Rightarrow> string \<times> string" where
  "consumeTag s =
     (let start = (if hasPrefix s ''W/'' then 2 else 0) in
      case drop start s of
        [] \<Rightarrow> ([], s)
      | c # r \<Rightarrow>
          if c \<noteq> CHR 0x22 then ([], s)
          else (case tagEnd (Suc start) r of
                  None \<Rightarrow> ([], s)
                | Some i \<Rightarrow> (take (Suc i) s, drop (Suc i) s)))"

definition tagsEqual :: "string \<Rightarrow> string \<Rightarrow> bool \<Rightarrow> bool" where
  "tagsEqual a b weak =
     (if weak then trimPrefix a ''W/'' = trimPrefix b ''W/''
      else \<not> hasPrefix a ''W/'' \<and> \<not> hasPrefix b ''W/'' \<and> a = b)"

lemma consumeTag_shrinks:
  assumes "consumeTag s = (tag, rest)" and "tag \<noteq> []"
  shows "length rest < length s"
proof -
  obtain i where "rest = drop (Suc i) s" using assms
    by (auto simp: consumeTag_def Let_def split: list.splits if_splits option.splits)
  moreover have "s \<noteq> []" using assms by (auto simp: consumeTag_def)
  ultimately show ?thesis by (cases s) auto
qed

lemma tags_shrink:
  assumes "(tag, rest) = consumeTag (scanStart s)" and "tag \<noteq> []"
  shows "length (trimLeft rest blankTab) < length s"
  using consumeTag_shrinks[OF assms(1)[symmetric] assms(2)] length_scanStart[of s] length_trimLeft[of rest blankTab] by linarith

function tagsLoop :: "bool \<Rightarrow> string \<Rightarrow> bool \<Rightarrow> bool \<Rightarrow> string \<Rightarrow> bool \<times> bool" where
  "tagsLoop weak currentTag matched anyTag s =
     (let s = scanStart s in
      if s = [] then (matched, anyTag)
      else case consumeTag s of (tag, rest) \<Rightarrow>
        if tag = [] then (False, False)
        else let rest = trimLeft rest blankTab in
          if rest \<noteq> [] \<and> hd rest \<noteq> CHR '','' then (False, False)
          else tagsLoop weak currentTag (matched \<or> tagsEqual tag currentTag weak) True rest)"
  by pat_completeness auto
termination
  by (relation "measure (\<lambda>(weak, cur, matched, anyTag, s). length s)") (auto intro: tags_shrink)

declare tagsLoop.simps [simp del]

definition matchTags :: "string \<Rightarrow> string \<Rightarrow> bool \<Rightarrow> bool \<times> bool" where
  "matchTags s current weak =
     (let s = trim s blankTab in
      if s = ''*'' then (True, True)
      else case consumeTag (trim current blankTab) of (tag, rest) \<Rightarrow>
        tagsLoop weak (if trim rest blankTab \<noteq> [] then [] else tag) False False s)"

section \<open>Status\<close>

definition field :: "rawHeader \<Rightarrow> string \<Rightarrow> string \<times> bool" where
  "field h wanted =
     (let fs = filter (\<lambda>(name, _). equalFold name wanted) h in
      (joinStrings (concat (map snd fs)) '','', fs \<noteq> []))"

definition modifiedAfter :: "(string \<Rightarrow> int option) \<Rightarrow> rawHeader \<Rightarrow> rawHeader \<Rightarrow> string \<Rightarrow> bool" where
  "modifiedAfter parseTime selected request condition =
     (case (parseTime (fst (field selected ''Last-Modified'')), parseTime (fst (field request condition))) of
        (Some mt, Some st) \<Rightarrow> mt > st
      | _ \<Rightarrow> False)"

definition unmodifiedSince :: "(string \<Rightarrow> int option) \<Rightarrow> rawHeader \<Rightarrow> rawHeader \<Rightarrow> bool" where
  "unmodifiedSince parseTime selected request =
     (case (parseTime (fst (field selected ''Last-Modified'')), parseTime (fst (field request ''If-Modified-Since''))) of
        (Some mt, Some st) \<Rightarrow> \<not> mt > st
      | _ \<Rightarrow> False)"

definition Status :: "(string \<Rightarrow> int option) \<Rightarrow> rawHeader \<Rightarrow> rawHeader \<Rightarrow> int" where
  "Status parseTime request selected =
     (let current = fst (field selected ''ETag'');
          (match, hasMatch) = field request ''If-Match'';
          (none, hasNone) = field request ''If-None-Match'';
          second_half =
            (if hasNone then
               (case matchTags none current True of (matches, valid) \<Rightarrow>
                  if \<not> valid then 400 else if matches then 304 else 0)
             else if unmodifiedSince parseTime selected request then 304 else 0)
      in if hasMatch then
           (case matchTags match current False of (matches, valid) \<Rightarrow>
              if \<not> valid then 400 else if \<not> matches then 412 else second_half)
         else if modifiedAfter parseTime selected request ''If-Unmodified-Since'' then 412
         else second_half)"

definition preconditionFields :: "string list" where
  "preconditionFields = [''if-match'', ''if-none-match'', ''if-modified-since'', ''if-unmodified-since'', ''range'', ''if-range'']"

definition Clear :: "rawHeader \<Rightarrow> rawHeader" where
  "Clear h = filter (\<lambda>(name, _). \<not> List.member preconditionFields (toLower name)) h"

section \<open>Printed tag lists\<close>

definition wfTag :: "string \<Rightarrow> bool" where
  "wfTag t \<longleftrightarrow> (\<exists>w s. t = w @ CHR 0x22 # s @ [CHR 0x22] \<and> (w = [] \<or> w = ''W/'') \<and>
     (\<forall>c\<in>set s. c \<noteq> CHR 0x22 \<and> 33 \<le> byte c \<and> byte c \<noteq> 127))"

lemma tagEnd_append:
  "\<forall>c\<in>set s. c \<noteq> CHR 0x22 \<and> 33 \<le> byte c \<and> byte c \<noteq> 127 \<Longrightarrow> tagEnd i (s @ CHR 0x22 # r) = Some (i + length s)"
  by (induction s arbitrary: i) auto

lemma consumeTag_wf:
  assumes "wfTag t"
  shows "consumeTag (t @ r) = (t, r)"
proof -
  obtain w s where t: "t = w @ CHR 0x22 # s @ [CHR 0x22]" "w = [] \<or> w = ''W/''"
    and s: "\<forall>c\<in>set s. c \<noteq> CHR 0x22 \<and> 33 \<le> byte c \<and> byte c \<noteq> 127" using assms unfolding wfTag_def by blast
  have e: "tagEnd i (s @ CHR 0x22 # r) = Some (i + length s)" for i by (rule tagEnd_append[OF s])
  from t(2) show ?thesis
  proof
    assume "w = []"
    then have "t @ r = CHR 0x22 # s @ CHR 0x22 # r" "t = CHR 0x22 # s @ [CHR 0x22]" by (simp_all add: t(1))
    then show ?thesis by (simp add: consumeTag_def e)
  next
    assume "w = ''W/''"
    then have "t @ r = CHR ''W'' # CHR ''/'' # CHR 0x22 # s @ CHR 0x22 # r" "t = CHR ''W'' # CHR ''/'' # CHR 0x22 # s @ [CHR 0x22]"
      by (simp_all add: t(1))
    then show ?thesis by (simp add: consumeTag_def e eval_nat_numeral)
  qed
qed

lemma wfTag_ends: "wfTag t \<Longrightarrow> t \<noteq> [] \<and> (hd t = CHR 0x22 \<or> hd t = CHR ''W'') \<and> last t = CHR 0x22"
proof -
  assume "wfTag t"
  then obtain w s where t: "t = w @ CHR 0x22 # s @ [CHR 0x22]" "w = [] \<or> w = ''W/''" unfolding wfTag_def by blast
  from t(2) show ?thesis by (rule disjE) (simp_all add: t(1))
qed

lemma trim_wf:
  assumes "s \<noteq> []" "hd s \<notin> set blankTab" "last s \<notin> set blankTab"
  shows "trim s blankTab = s"
proof -
  have "trimLeft s blankTab = s" using assms(1,2) by (cases s) (auto simp: trimLeft_def)
  moreover have "dropWhile (\<lambda>c. c \<in> set blankTab) (rev s) = rev s"
    using assms(1,3) by (simp add: dropWhile_eq_self_iff hd_rev)
  ultimately show ?thesis by (simp add: trim_def trimRight_def)
qed

definition printTags :: "string list \<Rightarrow> string" where
  "printTags ts = joinStrings ts '', ''"

lemma printTags_simps [simp]:
  "printTags [t] = t" "ts \<noteq> [] \<Longrightarrow> printTags (t # ts) = t @ '', '' @ printTags ts"
  by (auto simp: printTags_def neq_Nil_conv)

lemma scanStart_tag: "wfTag t \<Longrightarrow> scanStart (t @ r) = t @ r \<and> scanStart ('','' @ '' '' @ t @ r) = t @ r"
  using wfTag_ends[of t] by (cases t) (auto simp: scanStart_def trimLeft_def blankTab_def)

lemma tagsLoop_step:
  assumes "wfTag t" and "scanStart s = t @ r" and "r = [] \<or> hd r = CHR '',''"
  shows "tagsLoop weak cur matched anyTag s = tagsLoop weak cur (matched \<or> tagsEqual t cur weak) True r"
proof -
  have "trimLeft r blankTab = r" using assms(3) by (cases r) (auto simp: trimLeft_def blankTab_def)
  then show ?thesis
    using assms wfTag_ends[OF assms(1)] consumeTag_wf[OF assms(1), of r] by (subst tagsLoop.simps) (auto simp: Let_def)
qed

lemma tagsLoop_print:
  assumes "ts \<noteq> []" and "list_all wfTag ts" and "scanStart s = printTags ts"
  shows "tagsLoop weak cur matched anyTag s = (matched \<or> list_ex (\<lambda>t. tagsEqual t cur weak) ts, True)"
  using assms
proof (induction ts arbitrary: matched anyTag s)
  case (Cons t ts)
  have t: "wfTag t" using Cons.prems by simp
  show ?case
  proof (cases "ts = []")
    case True
    have "tagsLoop weak cur matched anyTag s = tagsLoop weak cur (matched \<or> tagsEqual t cur weak) True []"
      using tagsLoop_step[OF t, of s "[]"] Cons.prems(3) True by simp
    then show ?thesis using True by (simp add: tagsLoop.simps scanStart_def trimLeft_def)
  next
    case False
    have "tagsLoop weak cur matched anyTag s = tagsLoop weak cur (matched \<or> tagsEqual t cur weak) True ('', '' @ printTags ts)"
      using tagsLoop_step[OF t, of s "'', '' @ printTags ts"] Cons.prems(3) False by simp
    moreover have "scanStart ('', '' @ printTags ts) = printTags ts"
    proof -
      obtain u us where u: "ts = u # us" using False by (cases ts) auto
      obtain r where "printTags ts = u @ r" by (cases "us = []") (auto simp: u)
      then show ?thesis using scanStart_tag[of u r] Cons.prems(2) u by simp
    qed
    ultimately show ?thesis using Cons.IH[OF False, of "'', '' @ printTags ts"] Cons.prems(2) by simp
  qed
qed simp

lemma printTags_ends:
  "ts \<noteq> [] \<Longrightarrow> list_all wfTag ts \<Longrightarrow>
   printTags ts \<noteq> [] \<and> hd (printTags ts) \<in> {CHR 0x22, CHR ''W''} \<and> last (printTags ts) = CHR 0x22 \<and> scanStart (printTags ts) = printTags ts"
proof (induction ts)
  case (Cons t ts)
  have t: "wfTag t" using Cons.prems by simp
  show ?case
  proof (cases "ts = []")
    case True
    then show ?thesis using wfTag_ends[OF t] scanStart_tag[OF t, of "[]"] by auto
  next
    case False
    then show ?thesis using wfTag_ends[OF t] scanStart_tag[OF t] Cons by auto
  qed
qed simp

lemma matchTags_print:
  assumes "ts \<noteq> []" and "list_all wfTag ts" and "cur = [] \<or> wfTag cur"
  shows "matchTags (printTags ts) cur weak = (list_ex (\<lambda>t. tagsEqual t cur weak) ts, True)"
proof -
  note E = printTags_ends[OF assms(1,2)]
  have "trim (printTags ts) blankTab = printTags ts" by (rule trim_wf) (use E in \<open>auto simp: blankTab_def\<close>)
  moreover have "printTags ts \<noteq> ''*''" using E by auto
  ultimately have p: "trim (printTags ts) blankTab = printTags ts" "printTags ts \<noteq> ''*''" .
  have "consumeTag (trim cur blankTab) = (cur, [])"
  proof (cases "cur = []")
    case True
    then show ?thesis by (simp add: trim_def trimLeft_def trimRight_def consumeTag_def)
  next
    case False
    then have c: "wfTag cur" using assms(3) by simp
    have "trim cur blankTab = cur" using wfTag_ends[OF c] by (intro trim_wf) (auto simp: blankTab_def)
    then show ?thesis using consumeTag_wf[OF c, of "[]"] by simp
  qed
  then show ?thesis
    using p E tagsLoop_print[OF assms(1,2), of "printTags ts" weak cur False False]
    by (simp add: matchTags_def Let_def trim_def trimLeft_def trimRight_def)
qed

lemma wfTag_shape:
  assumes "wfTag t"
  shows "\<exists>q. hd q = CHR 0x22 \<and> q \<noteq> [] \<and> (t = q \<or> t = ''W/'' @ q)"
proof -
  obtain w s where t: "t = w @ CHR 0x22 # s @ [CHR 0x22]" "w = [] \<or> w = ''W/''" using assms unfolding wfTag_def by blast
  show ?thesis by (rule exI[of _ "CHR 0x22 # s @ [CHR 0x22]"]) (use t in auto)
qed

lemma quoted_prefix:
  assumes "hd q = CHR 0x22" and "q \<noteq> []"
  shows "\<not> hasPrefix q ''W/'' \<and> take 2 q \<noteq> ''W/'' \<and> trimPrefix q ''W/'' = q \<and>
    hasPrefix (''W/'' @ q) ''W/'' \<and> trimPrefix (''W/'' @ q) ''W/'' = q"
proof -
  obtain r where "q = CHR 0x22 # r" using assms by (cases q) auto
  then show ?thesis by (simp add: hasPrefix_def trimPrefix_def numeral_2_eq_2)
qed

lemma tagsEqual_strong:
  assumes "wfTag t" and "cur = [] \<or> wfTag cur"
  shows "tagsEqual t cur False \<longleftrightarrow> t = cur \<and> take 2 cur \<noteq> ''W/''"
proof -
  obtain q where q: "hd q = CHR 0x22" "q \<noteq> []" "t = q \<or> t = ''W/'' @ q" using wfTag_shape[OF assms(1)] by blast
  from q(3) show ?thesis
  proof
    assume "t = q"
    then show ?thesis using quoted_prefix[OF q(1,2)] by (auto simp: tagsEqual_def)
  next
    assume "t = ''W/'' @ q"
    then show ?thesis using quoted_prefix[OF q(1,2)] by (auto simp: tagsEqual_def)
  qed
qed

lemma tagsEqual_weak:
  assumes "wfTag t" and "cur = [] \<or> wfTag cur"
  shows "tagsEqual t cur True \<longleftrightarrow> t = cur \<or> t = ''W/'' @ cur \<or> cur = ''W/'' @ t"
proof -
  obtain q where q: "hd q = CHR 0x22" "q \<noteq> []" "t = q \<or> t = ''W/'' @ q" using wfTag_shape[OF assms(1)] by blast
  note Q = quoted_prefix[OF q(1,2)]
  have t: "trimPrefix t ''W/'' = q" using q(3) Q by auto
  show ?thesis
  proof (cases "cur = []")
    case True
    have "trimPrefix [] ''W/'' = []" by (simp add: trimPrefix_def hasPrefix_def)
    then show ?thesis using True t q by (auto simp: tagsEqual_def)
  next
    case False
    then obtain p where p: "hd p = CHR 0x22" "p \<noteq> []" "cur = p \<or> cur = ''W/'' @ p" using wfTag_shape assms(2) by blast
    have "trimPrefix cur ''W/'' = p" using p(3) quoted_prefix[OF p(1,2)] by auto
    then have "tagsEqual t cur True \<longleftrightarrow> q = p" using t by (simp add: tagsEqual_def)
    moreover have "q \<noteq> ''W/'' @ x" "p \<noteq> ''W/'' @ x" for x using q(1) p(1) by auto
    ultimately show ?thesis using q(3) p(3) by (elim disjE) (auto simp del: append.simps)
  qed
qed

lemma Status_split:
  assumes "field request ''If-Match'' = (m, hasM)" and "hasM \<Longrightarrow> matchTags m (fst (field selected ''ETag'')) False = (A, True)"
    and "field request ''If-None-Match'' = (n, hasN)" and "hasN \<Longrightarrow> matchTags n (fst (field selected ''ETag'')) True = (B, True)"
    and "modifiedAfter parseTime selected request ''If-Unmodified-Since'' = U" and "unmodifiedSince parseTime selected request = V"
  shows "Status parseTime request selected =
    (if hasM \<and> \<not> A then 412 else if \<not> hasM \<and> U then 412 else if hasN then (if B then 304 else 0) else if V then 304 else 0)"
  using assms by (cases hasM; cases hasN) (simp_all add: Status_def Let_def)

section \<open>Properties\<close>

text \<open>
  C33: Preconditions are decided in the order of RFC 9110.  For well-formed tag lists (an absent field is the empty list), If-Match
  decides by strong comparison (the current tag is listed and is not weak) and hides If-Unmodified-Since; then
  If-None-Match decides by weak comparison (the current tag is listed, a weakness mark on either side not counting)
  and hides If-Modified-Since.  A date counts only if it and Last-Modified both parse: If-Unmodified-Since fails when the
  representation is newer, If-Modified-Since answers 304 when it is not.  The answer is 412, 304 or delivery and never 400.
\<close>

theorem Status_precedence:
  assumes "field request ''If-Match'' = (printTags ms, ms \<noteq> [])" and "list_all wfTag ms"
    and "field request ''If-None-Match'' = (printTags ns, ns \<noteq> [])" and "list_all wfTag ns"
    and "fst (field selected ''ETag'') = cur" and "cur = [] \<or> wfTag cur"
    and "parseTime (fst (field selected ''Last-Modified'')) = modified"
    and "parseTime (fst (field request ''If-Unmodified-Since'')) = unmodSince"
    and "parseTime (fst (field request ''If-Modified-Since'')) = modSince"
  shows "Status parseTime request selected =
    (if ms \<noteq> [] \<and> \<not> (cur \<in> set ms \<and> take 2 cur \<noteq> ''W/'') then 412
     else if ms = [] \<and> (\<exists>m u. modified = Some m \<and> unmodSince = Some u \<and> u < m) then 412
     else if ns \<noteq> [] then
       (if cur \<in> set ns \<or> ''W/'' @ cur \<in> set ns \<or> (\<exists>t\<in>set ns. cur = ''W/'' @ t) then 304 else 0)
     else if \<exists>m u. modified = Some m \<and> modSince = Some u \<and> m \<le> u then 304 else 0)"
proof -
  have wf: "wfTag t" if "t \<in> set ms \<union> set ns" for t using that assms(2,4) by (auto simp: list_all_iff)
  have m: "matchTags (printTags ms) cur False = (cur \<in> set ms \<and> take 2 cur \<noteq> ''W/'', True)" if "ms \<noteq> []"
    unfolding matchTags_print[OF that assms(2,6)] using tagsEqual_strong[OF wf assms(6)] by (auto simp: list_ex_iff)
  have n: "matchTags (printTags ns) cur True =
      (cur \<in> set ns \<or> ''W/'' @ cur \<in> set ns \<or> (\<exists>t\<in>set ns. cur = ''W/'' @ t), True)" if "ns \<noteq> []"
    unfolding matchTags_print[OF that assms(4,6)] using tagsEqual_weak[OF wf assms(6)] by (auto simp: list_ex_iff)
  have d: "modifiedAfter parseTime selected request ''If-Unmodified-Since'' \<longleftrightarrow> (\<exists>m u. modified = Some m \<and> unmodSince = Some u \<and> u < m)"
    "unmodifiedSince parseTime selected request \<longleftrightarrow> (\<exists>m u. modified = Some m \<and> modSince = Some u \<and> m \<le> u)"
    unfolding modifiedAfter_def unmodifiedSince_def assms(7-9) by (auto split: option.splits)
  show ?thesis
    using Status_split[OF assms(1) m[folded assms(5)] assms(3) n[folded assms(5)] d] unfolding assms(5) not_not .
qed

definition demoTag :: "string \<Rightarrow> string" where
  "demoTag s = CHR 0x22 # s @ [CHR 0x22]"

lemma wfTag_demo: "c \<in> {CHR ''a'', CHR ''b''} \<Longrightarrow> wfTag (demoTag [c]) \<and> wfTag (''W/'' @ demoTag [c])"
  unfolding wfTag_def demoTag_def
  by (rule conjI, rule exI[of _ "[]"], rule exI[of _ "[c]"], force, rule exI[of _ "''W/''"], rule exI[of _ "[c]"], force)

theorem Status_precedence_witness:
  "Status (\<lambda>_. Some 0) [(''if-none-match'', [''W/'' @ demoTag ''a'' @ '', '' @ demoTag ''b''])] [(''ETag'', [demoTag ''a''])] = 304 \<and>
   Status (\<lambda>_. Some 0) [(''If-Match'', [''W/'' @ demoTag ''a''])] [(''ETag'', [''W/'' @ demoTag ''a''])] = 412"
proof
  let ?r = "[(''if-none-match'', [''W/'' @ demoTag ''a'' @ '', '' @ demoTag ''b''])]"
  let ?ns = "[''W/'' @ demoTag ''a'', demoTag ''b'']" and ?s = "[(''ETag'', [demoTag ''a''])]"
  have f: "field ?r ''If-Match'' = (printTags [], [] \<noteq> ([] :: string list))" "field ?r ''If-None-Match'' = (printTags ?ns, ?ns \<noteq> [])"
    "fst (field ?s ''ETag'') = demoTag ''a''" by code_simp+
  have "list_all wfTag ?ns" "list_all wfTag []" "demoTag ''a'' = [] \<or> wfTag (demoTag ''a'')"
    using wfTag_demo[of "CHR ''a''"] wfTag_demo[of "CHR ''b''"] by simp_all
  from Status_precedence[OF f(1) this(2) f(2) this(1) f(3) this(3) refl refl refl, of "\<lambda>_. Some 0"]
  show "Status (\<lambda>_. Some 0) ?r ?s = 304" by simp
next
  let ?r = "[(''If-Match'', [''W/'' @ demoTag ''a''])]" and ?s = "[(''ETag'', [''W/'' @ demoTag ''a''])]"
  have f: "field ?r ''If-None-Match'' = (printTags [], [] \<noteq> ([] :: string list))"
    "field ?r ''If-Match'' = (printTags [''W/'' @ demoTag ''a''], [''W/'' @ demoTag ''a''] \<noteq> [])"
    "fst (field ?s ''ETag'') = ''W/'' @ demoTag ''a''" by code_simp+
  have "list_all wfTag [''W/'' @ demoTag ''a'']" "list_all wfTag []" "''W/'' @ demoTag ''a'' = [] \<or> wfTag (''W/'' @ demoTag ''a'')"
    using wfTag_demo[of "CHR ''a''"] by simp_all
  from Status_precedence[OF f(2) this(1) f(1) this(2) f(3) this(3) refl refl refl, of "\<lambda>_. Some 0"]
  show "Status (\<lambda>_. Some 0) ?r ?s = 412" by simp
qed

end
