(* ===== verification/Path_Rewrite.thy ===== *)
theory Path_Rewrite
  imports Middleware_Chain
begin

text \<open>
  Path rewriting: the transforms of \<^verbatim>\<open>src/pathrewrite.go\<close> applied at the edge of a route, the positional ones of
  \<^verbatim>\<open>src/request_path.go\<close>, and the validation of their settings in \<^verbatim>\<open>src/resolve.go\<close>.  The part of \<^verbatim>\<open>net/url\<close> they use
  comes first: percent escapes, \<^verbatim>\<open>URL.EscapedPath\<close> and \<^verbatim>\<open>URL.JoinPath\<close>.  A URL is its path, raw path and query; the
  other fields are carried along by the code.  The lemmas show that a rewritten raw path still decodes to the rewritten
  path, and what is left of the client's escaping.
\<close>

section \<open>Percent escapes\<close>

definition isHexDigit :: "char \<Rightarrow> bool" where
  "isHexDigit b \<longleftrightarrow> isDigit b \<or> (97 \<le> byte b \<and> byte b \<le> 102) \<or> (65 \<le> byte b \<and> byte b \<le> 70)"

definition unhex :: "char \<Rightarrow> nat" where
  "unhex c = (if isDigit c then byte c - 48 else if 97 \<le> byte c then byte c - 87 else byte c - 55)"

definition upperHex :: "nat \<Rightarrow> char" where
  "upperHex n = char_of (if n < 10 then 48 + n else 55 + n)"

text \<open>\<^verbatim>\<open>url.PathUnescape\<close>, which is also how \<^verbatim>\<open>EscapedPath\<close> decodes; \<open>None\<close> for an invalid escape.\<close>

fun PathUnescape :: "string \<Rightarrow> string option" where
  "PathUnescape [] = Some []"
| "PathUnescape (c # s) =
     (if c = CHR ''%'' then
        (case s of
           a # b # rest \<Rightarrow>
             if isHexDigit a \<and> isHexDigit b
             then map_option (\<lambda>t. char_of (16 * unhex a + unhex b) # t) (PathUnescape rest) else None
         | _ \<Rightarrow> None)
      else map_option (\<lambda>t. c # t) (PathUnescape s))"

definition shouldEscape :: "char \<Rightarrow> bool" where
  "shouldEscape c \<longleftrightarrow> \<not> (isDigit c \<or> isLowerAlpha c \<or> isUpperAlpha c \<or> c \<in> set ''-_.~$&+,/:;=@'')"

definition escapeChar :: "char \<Rightarrow> string" where
  "escapeChar c = (if shouldEscape c then [CHR ''%'', upperHex (byte c div 16), upperHex (byte c mod 16)] else [c])"

definition escapePath :: "string \<Rightarrow> string" where
  "escapePath s = concat (map escapeChar s)"

definition validEncoded :: "string \<Rightarrow> bool" where
  "validEncoded s \<longleftrightarrow> list_all (\<lambda>c. c \<in> set (CHR 0x27 # ''!$&()*+,;=:@[]%'') \<or> \<not> shouldEscape c) s"

record URL =
  uPath :: string
  uRawPath :: string
  uRawQuery :: string
  uForceQuery :: bool

definition EscapedPath :: "URL \<Rightarrow> string" where
  "EscapedPath u =
     (if uRawPath u \<noteq> [] \<and> validEncoded (uRawPath u) \<and> PathUnescape (uRawPath u) = Some (uPath u) then uRawPath u
      else if uPath u = ''*'' then ''*'' else escapePath (uPath u))"

definition RequestURI :: "URL \<Rightarrow> string" where
  "RequestURI u = (let result = EscapedPath u; result = (if result = [] then ''/'' else result)
     in if uForceQuery u \<or> uRawQuery u \<noteq> [] then result @ ''?'' @ uRawQuery u else result)"

text \<open>\<^verbatim>\<open>path.Clean\<close> of a rooted path: the segments are kept on a stack.\<close>

fun cleanSegments :: "string list \<Rightarrow> string list \<Rightarrow> string list" where
  "cleanSegments stack [] = rev stack"
| "cleanSegments stack (s # ss) =
     (if s = [] \<or> s = ''.'' then cleanSegments stack ss
      else if s = ''..'' then cleanSegments (tl stack) ss
      else cleanSegments (s # stack) ss)"

definition cleanRooted :: "string \<Rightarrow> string" where
  "cleanRooted p = CHR ''/'' # joinStrings (cleanSegments [] (splitByte p CHR ''/'')) ''/''"

definition setPath :: "URL \<Rightarrow> string \<Rightarrow> URL" where
  "setPath u p = (case PathUnescape p of
       None \<Rightarrow> u
     | Some path \<Rightarrow> u\<lparr>uPath := path, uRawPath := (if p = escapePath path then [] else p)\<rparr>)"

definition JoinPath :: "URL \<Rightarrow> URL" where
  "JoinPath u =
     (let elem = EscapedPath u;
          rooted = hasPrefix elem ''/'';
          elem = (if rooted then elem else ''/'' @ elem);
          p = (if rooted then cleanRooted elem else tl (cleanRooted elem));
          p = (if hasSuffix elem ''/'' \<and> \<not> hasSuffix p ''/'' then p @ ''/'' else p)
      in setPath u p)"

section \<open>Rewriting at the edge of a route\<close>

definition rawTailStep :: "string \<Rightarrow> string option" where
  "rawTailStep raw = (case raw of
       [] \<Rightarrow> None
     | c # s \<Rightarrow>
         if c = CHR ''%'' then (case s of a # b # rest \<Rightarrow> if isHexDigit a \<and> isHexDigit b then Some rest else None | _ \<Rightarrow> None)
         else Some s)"

fun rawTailFromDecodedOffset :: "string \<Rightarrow> nat \<Rightarrow> string option" where
  "rawTailFromDecodedOffset raw 0 = Some raw"
| "rawTailFromDecodedOffset raw (Suc n) = (case rawTailStep raw of
       None \<Rightarrow> None
     | Some rest \<Rightarrow> rawTailFromDecodedOffset rest n)"

definition isEncodedSlash :: "string \<Rightarrow> bool" where
  "isEncodedSlash s \<longleftrightarrow> length s \<ge> 3 \<and> s ! 0 = CHR ''%'' \<and> s ! 1 = CHR ''2'' \<and> (s ! 2 = CHR ''F'' \<or> s ! 2 = CHR ''f'')"

definition strippedRawRemainder :: "string \<Rightarrow> nat \<Rightarrow> string" where
  "strippedRawRemainder raw n = (case rawTailFromDecodedOffset raw n of
       None \<Rightarrow> []
     | Some t \<Rightarrow>
         if hasPrefix t ''/'' then t
         else if isEncodedSlash t then ''/'' @ drop 3 t
         else [])"

definition stripPathPrefix :: "URL \<Rightarrow> string \<Rightarrow> URL" where
  "stripPathPrefix u p =
     (if uPath u = p then u\<lparr>uPath := ''/'', uRawPath := []\<rparr>
      else if hasPrefix (uPath u) (p @ ''/'') then
        (let u' = u\<lparr>uPath := drop (length p) (uPath u)\<rparr> in
         if uRawPath u' \<noteq> [] then
           (let rest = strippedRawRemainder (uRawPath u') (length p);
                rest = (if rest = uPath u' then [] else rest)
            in u'\<lparr>uRawPath := rest\<rparr>)
         else u')
      else u)"

definition addPathPrefix :: "URL \<Rightarrow> string \<Rightarrow> URL" where
  "addPathPrefix u p =
     (let u' = u\<lparr>uPath := p @ uPath u\<rparr> in
      if uRawPath u' \<noteq> []
      then u'\<lparr>uRawPath := EscapedPath \<lparr>uPath = p, uRawPath = [], uRawQuery = [], uForceQuery = False\<rparr> @ uRawPath u'\<rparr>
      else u')"

definition replaceURLPath :: "URL \<Rightarrow> string \<Rightarrow> string \<Rightarrow> bool \<Rightarrow> URL" where
  "replaceURLPath u replacement query querySet = (case PathUnescape replacement of
       None \<Rightarrow> u
     | Some decoded \<Rightarrow>
         (let u' = u\<lparr>uPath := decoded, uRawPath := (if replacement \<noteq> decoded then replacement else [])\<rparr>
          in if querySet then u'\<lparr>uRawQuery := query, uForceQuery := False\<rparr> else u'))"

text \<open>A compiled regular expression: its matching test, and \<^verbatim>\<open>ReplaceAllString\<close> of a text with a replacement.\<close>

record regexp =
  MatchString :: "string \<Rightarrow> bool"
  ReplaceAllString :: "string \<Rightarrow> string \<Rightarrow> string"

definition rewriteURLPath :: "URL \<Rightarrow> regexp \<Rightarrow> string \<Rightarrow> URL" where
  "rewriteURLPath u re replacement =
     (let out = ReplaceAllString re (uPath u) replacement;
          out = (if out = [] then ''/'' else out);
          out = (if \<not> hasPrefix out ''/'' then ''/'' @ out else out)
      in if out = uPath u then u else u\<lparr>uPath := out, uRawPath := []\<rparr>)"

text \<open>The path settings of a resolved middleware.\<close>

record pathSettings =
  PathPrefix :: string
  PathPattern :: string
  PathReplacement :: string
  PathQuery :: string
  PathQuerySet :: bool
  PathPrefixes :: "string list"
  PathRecordOriginal :: bool
  PathForceSlash :: bool

type_synonym regexpCompiler = "string \<Rightarrow> regexp option"

definition compilePathOp ::
  "regexpCompiler \<Rightarrow> pathSettings Middleware \<Rightarrow> (URL \<Rightarrow> URL) option" where
  "compilePathOp compile m = (let s = mwRest (mw m) in case mtype m of
       MWStripPrefix \<Rightarrow> Some (\<lambda>u. stripPathPrefix u (PathPrefix s))
     | MWAddPrefix \<Rightarrow> Some (\<lambda>u. addPathPrefix u (PathPrefix s))
     | MWReplacePath \<Rightarrow> Some (\<lambda>u. replaceURLPath u (PathReplacement s) (PathQuery s) (PathQuerySet s))
     | MWRewritePath \<Rightarrow> map_option (\<lambda>re u. rewriteURLPath u re (PathReplacement s)) (compile (PathPattern s))
     | _ \<Rightarrow> None)"

definition withPathRewrite :: "regexpCompiler \<Rightarrow> pathSettings Middleware list \<Rightarrow> URL \<Rightarrow> URL" where
  "withPathRewrite compile mws u =
     (let ops = List.map_filter (compilePathOp compile) mws in
      if ops = [] then u
      else (let u' = foldl (\<lambda>u op. op u) u ops in
            if uPath u' = [] then u'\<lparr>uPath := ''/'', uRawPath := []\<rparr> else u'))"

section \<open>Resolving the settings\<close>

datatype pathError =
  prefixReserved | prefixNoSegment | prefixDoubled | targetFragment | targetNotRooted | targetDoubled | targetEscape | targetQuery
  | patternEmpty | patternInvalid | pathControl | pathPrefixEmpty

definition normalizePathPrefix :: "string \<Rightarrow> pathError + string" where
  "normalizePathPrefix pre =
     (if containsAny pre ''?#%'' then Inl prefixReserved
      else let p = trimRight pre ''/'' in
        if \<not> hasPrefix p ''/'' \<or> length p < 2 then Inl prefixNoSegment
        else if p ! 1 = CHR ''/'' \<or> p ! 1 = CHR 0x5C then Inl prefixDoubled
        else Inr p)"

definition invalidQueryByte :: "char \<Rightarrow> bool" where
  "invalidQueryByte r \<longleftrightarrow> byte r \<le> 32 \<or> byte r = 127"

definition splitReplacePath :: "string \<Rightarrow> pathError + (string \<times> string \<times> bool)" where
  "splitReplacePath target =
     (if containsByte target CHR ''#'' then Inl targetFragment
      else case (case cutByte target CHR ''?'' of None \<Rightarrow> (target, [], False) | Some (a, b) \<Rightarrow> (a, b, True)) of
        (path, query, querySet) \<Rightarrow>
          if \<not> hasPrefix path ''/'' then Inl targetNotRooted
          else if length path \<ge> 2 \<and> (path ! 1 = CHR ''/'' \<or> path ! 1 = CHR 0x5C) then Inl targetDoubled
          else if PathUnescape path = None then Inl targetEscape
          else if list_ex invalidQueryByte query then Inl targetQuery
          else Inr (path, query, querySet))"

definition zeroPath :: pathSettings where
  "zeroPath = \<lparr>PathPrefix = [], PathPattern = [], PathReplacement = [], PathQuery = [], PathQuerySet = False,
     PathPrefixes = [], PathRecordOriginal = False, PathForceSlash = False\<rparr>"

definition pathMiddleware :: "MiddlewareType \<Rightarrow> pathSettings \<Rightarrow> pathSettings Middleware" where
  "pathMiddleware k s = Middleware \<lparr>Type = k, MiddlewareListeners = [], CacheTTL = 0, CompressAlgos = [],
     RequestIDHeader = [], RequestIDFromHeader = [], HeaderName = [], mwRest = s\<rparr> []"

definition resolveStripPrefixMW :: "string \<Rightarrow> pathError + pathSettings Middleware" where
  "resolveStripPrefixMW pre = bindR (normalizePathPrefix pre) (\<lambda>p.
     Inr (pathMiddleware MWStripPrefix (zeroPath\<lparr>PathPrefix := p\<rparr>)))"

definition resolveAddPrefixMW :: "string \<Rightarrow> pathError + pathSettings Middleware" where
  "resolveAddPrefixMW pre = bindR (normalizePathPrefix pre) (\<lambda>p.
     Inr (pathMiddleware MWAddPrefix (zeroPath\<lparr>PathPrefix := p\<rparr>)))"

definition resolveReplacePathMW :: "string \<Rightarrow> pathError + pathSettings Middleware" where
  "resolveReplacePathMW path = bindR (splitReplacePath path) (\<lambda>(path, query, querySet).
     Inr (pathMiddleware MWReplacePath (zeroPath\<lparr>PathReplacement := path, PathQuery := query, PathQuerySet := querySet\<rparr>)))"

text \<open>The pattern is stored as its canonical source, which \<^verbatim>\<open>regexp.String\<close> returns as it was given.\<close>

definition resolveRewritePathMW :: "regexpCompiler \<Rightarrow> string \<Rightarrow> string \<Rightarrow> pathError + pathSettings Middleware" where
  "resolveRewritePathMW compile pattern replacement =
     (if pattern = [] then Inl patternEmpty
      else case compile pattern of
        None \<Rightarrow> Inl patternInvalid
      | Some _ \<Rightarrow> Inr (pathMiddleware MWRewritePath (zeroPath\<lparr>PathPattern := pattern, PathReplacement := replacement\<rparr>)))"

section \<open>Rewriting at a place in the chain\<close>

definition rootRequestPath :: "string \<Rightarrow> bool \<Rightarrow> string" where
  "rootRequestPath path force =
     (if force then ''/'' @ trimPrefix path ''/''
      else if path \<noteq> [] \<and> hd path \<noteq> CHR ''/'' then ''/'' @ path
      else path)"

record pathRequest =
  prURL :: URL
  prHeader :: Header
  prRequestURI :: string

datatype requestPathError = invalidRewrittenPath | invalidEscapedPath

fun stripLoop :: "pathSettings \<Rightarrow> string list \<Rightarrow> pathRequest \<Rightarrow> requestPathError + (bool \<times> pathRequest)" where
  "stripLoop m [] out = Inr (False, out)"
| "stripLoop m (p # ps) out =
     (if \<not> hasPrefix (uPath (prURL out)) p then stripLoop m ps out
      else
        (let u = (prURL out)\<lparr>uPath := rootRequestPath (trimPrefix (uPath (prURL out)) p) (PathForceSlash m)\<rparr>;
             record = (\<lambda>h. if PathRecordOriginal m then headerAdd h ''X-Forwarded-Prefix'' p else h)
         in if uRawPath u \<noteq> [] then
              (case rawTailFromDecodedOffset (uRawPath u) (length p) of
                 None \<Rightarrow> Inl invalidEscapedPath
               | Some t \<Rightarrow> Inr (True, out\<lparr>prURL := u\<lparr>uRawPath := rootRequestPath t (PathForceSlash m)\<rparr>, prHeader := record (prHeader out)\<rparr>))
            else Inr (True, out\<lparr>prURL := u, prHeader := record (prHeader out)\<rparr>)))"

definition stripRequestPrefixes :: "pathSettings \<Rightarrow> pathRequest \<Rightarrow> requestPathError + (bool \<times> pathRequest)" where
  "stripRequestPrefixes m out = stripLoop m (PathPrefixes m) out"

definition applyRequestPath ::
  "MiddlewareType \<Rightarrow> pathSettings \<Rightarrow> regexp option \<Rightarrow> pathRequest \<Rightarrow> string \<Rightarrow> requestPathError + (bool \<times> pathRequest)" where
  "applyRequestPath k m expression out current =
     (if k = MWReplaceEscapedPath \<or> k = MWRewriteEscapedPath then
        (let out = (if PathRecordOriginal m then out\<lparr>prHeader := headerAdd (prHeader out) ''X-Replaced-Path'' current\<rparr> else out);
             raw = (case expression of None \<Rightarrow> PathReplacement m | Some re \<Rightarrow> ReplaceAllString re current (PathReplacement m))
         in case PathUnescape raw of
              None \<Rightarrow> Inl invalidRewrittenPath
            | Some path \<Rightarrow> Inr (expression \<noteq> None, out\<lparr>prURL := (prURL out)\<lparr>uRawPath := raw, uPath := path\<rparr>\<rparr>))
      else if k = MWPrefixPath then
        (let u = addPathPrefix (prURL out) (PathReplacement m);
             u = u\<lparr>uPath := rootRequestPath (uPath u) False\<rparr>;
             u = (if uRawPath u \<noteq> [] then u\<lparr>uRawPath := rootRequestPath (uRawPath u) False\<rparr> else u)
         in Inr (False, out\<lparr>prURL := u\<rparr>))
      else if k = MWStripBytePrefixes then stripRequestPrefixes m out
      else Inr (False, out))"

text \<open>The check replaces the URL by its cleaned form; the result is the verdict and that URL.\<close>

definition requestPathNormalized :: "pathRequest \<Rightarrow> bool \<times> pathRequest" where
  "requestPathNormalized out =
     (if uPath (prURL out) = [] then (True, out)
      else let u = JoinPath (prURL out) in (uPath (prURL out) = uPath u, out\<lparr>prURL := u\<rparr>))"

datatype pathOutcome = pathServe pathRequest | pathRefuse int

definition requestPathHandler :: "regexpCompiler \<Rightarrow> MiddlewareType \<Rightarrow> pathSettings \<Rightarrow> pathRequest \<Rightarrow> pathOutcome" where
  "requestPathHandler compile k m r =
     (if k = MWRewriteEscapedPath \<and> compile (PathPattern m) = None then pathRefuse 500
      else
        let expression = (if k = MWRewriteEscapedPath then compile (PathPattern m) else None);
            current = (if uRawPath (prURL r) = [] then EscapedPath (prURL r) else uRawPath (prURL r))
        in if (case expression of None \<Rightarrow> False | Some re \<Rightarrow> \<not> MatchString re current) then pathServe r
           else case applyRequestPath k m expression r current of
             Inl _ \<Rightarrow> pathRefuse (if k = MWStripBytePrefixes then 400 else 500)
           | Inr (check, out) \<Rightarrow>
               let out = out\<lparr>prRequestURI := RequestURI (prURL out)\<rparr> in
               if check then
                 (case requestPathNormalized out of (ok, out) \<Rightarrow> if ok then pathServe out else pathRefuse 400)
               else pathServe out)"

definition resolveRequestPath ::
  "regexpCompiler \<Rightarrow> MiddlewareType \<Rightarrow> pathSettings \<Rightarrow> pathError + pathSettings Middleware" where
  "resolveRequestPath compile k s =
     (if containsAny (PathPattern s @ PathReplacement s @ concat (PathPrefixes s)) [CHR 0x0D, CHR 0x0A, CHR 0x00] then Inl pathControl
      else if k = MWRewriteEscapedPath \<and> compile (PathPattern s) = None then Inl patternInvalid
      else if k = MWReplaceEscapedPath \<and> PathUnescape (PathReplacement s) = None then Inl targetEscape
      else if k = MWPrefixPath \<and> PathReplacement s = [] then Inl pathPrefixEmpty
      else Inr (pathMiddleware k (zeroPath\<lparr>PathPattern := PathPattern s, PathReplacement := PathReplacement s,
        PathPrefixes := PathPrefixes s, PathRecordOriginal := PathRecordOriginal s, PathForceSlash := PathForceSlash s\<rparr>)))"

section \<open>Escapes decode\<close>

lemma PathUnescape_append:
  "PathUnescape a = Some x \<Longrightarrow> PathUnescape (a @ b) = map_option ((@) x) (PathUnescape b)"
proof (induction a arbitrary: x rule: PathUnescape.induct)
  case 1
  then show ?case by (cases "PathUnescape b") auto
next
  case (2 c s)
  show ?case
  proof (cases "c = CHR ''%''")
    case True
    with 2(3) obtain h l rest where s: "s = h # l # rest" "isHexDigit h" "isHexDigit l"
      by (auto split: list.splits if_splits)
    with True 2(3) obtain y where y: "PathUnescape rest = Some y" "x = char_of (16 * unhex h + unhex l) # y" by auto
    show ?thesis using 2(1)[OF True s(1) refl _ y(1)] s y True by (cases "PathUnescape b") auto
  next
    case False
    with 2(3) obtain y where y: "PathUnescape s = Some y" "x = c # y" by auto
    show ?thesis using 2(2)[OF False y(1)] y False by (cases "PathUnescape b") auto
  qed
qed

lemma upperHex_hex: "n < 16 \<Longrightarrow> isHexDigit (upperHex n) \<and> unhex (upperHex n) = n"
  by (auto simp: isHexDigit_def upperHex_def unhex_def isDigit_def)

lemma unescape_escapeChar: "PathUnescape (escapeChar c) = Some [c]"
proof (cases "shouldEscape c")
  case True
  have "(of_char c :: nat) < 256" by simp
  then have "byte c div 16 < 16" by linarith
  with True show ?thesis by (simp add: escapeChar_def upperHex_hex)
next
  case False
  then have "c \<noteq> CHR ''%''" by (auto simp: shouldEscape_def isDigit_def isLowerAlpha_def isUpperAlpha_def)
  with False show ?thesis by (simp add: escapeChar_def)
qed

lemma PathUnescape_escapePath [simp]: "PathUnescape (escapePath s) = Some s"
proof (induction s)
  case (Cons c s)
  then show ?case using PathUnescape_append[OF unescape_escapeChar, of c "escapePath s"] by (simp add: escapePath_def)
qed (simp add: escapePath_def)

lemma EscapedPath_decodes: "PathUnescape (EscapedPath u) = Some (uPath u)"
  by (simp add: EscapedPath_def)

lemma rooted_iff: "hasPrefix s ''/'' \<longleftrightarrow> (\<exists>t. s = CHR ''/'' # t)"
  by (cases s) auto

lemma escapePath_plain: "list_all (\<lambda>c. \<not> shouldEscape c) s \<Longrightarrow> escapePath s = s"
  by (induction s) (auto simp: escapePath_def escapeChar_def)

lemma escapePath_rooted: "hasPrefix s ''/'' \<Longrightarrow> hasPrefix (escapePath s) ''/''"
  by (auto simp: rooted_iff escapePath_def escapeChar_def shouldEscape_def)

text \<open>One step of the walk over the raw path consumes one byte of the decoded path.\<close>

lemma rawTailStep_decodes:
  assumes "PathUnescape raw = Some (c # p)"
  shows "\<exists>pre rest. rawTailStep raw = Some rest \<and> raw = pre @ rest \<and> PathUnescape pre = Some [c] \<and> PathUnescape rest = Some p"
proof (cases raw)
  case (Cons x s)
  show ?thesis
  proof (cases "x = CHR ''%''")
    case True
    with assms Cons obtain h l rest where s: "s = h # l # rest" "isHexDigit h" "isHexDigit l"
      by (auto split: list.splits if_splits)
    with True assms Cons show ?thesis
      by (intro exI[of _ "[x, h, l]"] exI[of _ rest]) (auto simp: rawTailStep_def)
  next
    case False
    with assms Cons show ?thesis by (intro exI[of _ "[x]"] exI[of _ s]) (auto simp: rawTailStep_def)
  qed
qed (use assms in simp)

lemma rawTail_decodes:
  assumes "PathUnescape raw = Some p" and "n \<le> length p"
  shows "\<exists>pre rest. rawTailFromDecodedOffset raw n = Some rest \<and> raw = pre @ rest \<and>
    PathUnescape pre = Some (take n p) \<and> PathUnescape rest = Some (drop n p)"
  using assms
proof (induction n arbitrary: raw p)
  case 0
  then show ?case by (intro exI[of _ "[]"] exI[of _ raw]) simp
next
  case (Suc n)
  then obtain c q where p: "p = c # q" by (cases p) auto
  with Suc(2) obtain pre rest where st: "rawTailStep raw = Some rest" "raw = pre @ rest"
      "PathUnescape pre = Some [c]" "PathUnescape rest = Some q" using rawTailStep_decodes by blast
  from Suc(1)[OF st(4)] Suc(3) p obtain pre' rest' where ih: "rawTailFromDecodedOffset rest n = Some rest'" "rest = pre' @ rest'"
      "PathUnescape pre' = Some (take n q)" "PathUnescape rest' = Some (drop n q)" by auto
  with st p PathUnescape_append[OF st(3), of pre'] show ?case
    by (intro exI[of _ "pre @ pre'"] exI[of _ rest']) simp
qed

text \<open>A text that decodes to a slash and more starts with a slash or an escaped one.\<close>

lemma decoded_slash:
  assumes "PathUnescape t = Some (CHR ''/'' # p)"
  shows "\<exists>sep rest. t = sep @ rest \<and> sep \<in> {''/'', ''%2F'', ''%2f''} \<and> PathUnescape rest = Some p"
proof (cases t)
  case (Cons x s)
  show ?thesis
  proof (cases "x = CHR ''%''")
    case True
    with assms Cons obtain h l rest where s: "s = h # l # rest" "isHexDigit h" "isHexDigit l"
        "char_of (16 * unhex h + unhex l) = CHR ''/''" "PathUnescape rest = Some p"
      by (auto split: list.splits if_splits)
    have b: "unhex h < 16" "unhex l < 16" using s(2,3) by (auto simp: isHexDigit_def unhex_def isDigit_def)
    have "(16 * unhex h + unhex l) mod 256 = 47" using arg_cong[OF s(4), of byte] by (simp add: of_char_of)
    with b have "16 * unhex h + unhex l = 47" by simp
    with b have "unhex h = 2 \<and> unhex l = 15" by presburger
    then have "byte h = 50 \<and> (byte l = 70 \<or> byte l = 102)" using s(2,3)
      by (auto simp: isHexDigit_def unhex_def isDigit_def split: if_splits)
    then have "h = CHR ''2'' \<and> (l = CHR ''F'' \<or> l = CHR ''f'')"
      using of_char_eq_iff[of h "CHR ''2''"] of_char_eq_iff[of l "CHR ''F''"] of_char_eq_iff[of l "CHR ''f''"] by auto
    with True Cons s show ?thesis by (intro exI[of _ "[x, h, l]"] exI[of _ rest]) auto
  next
    case False
    with assms Cons show ?thesis by (intro exI[of _ "[x]"] exI[of _ s]) auto
  qed
qed (use assms in simp)

lemma strippedRawRemainder_decodes:
  assumes "PathUnescape raw = Some p" and "drop n p = CHR ''/'' # q"
  shows "\<exists>pre sep rest. raw = pre @ sep @ rest \<and> PathUnescape pre = Some (take n p) \<and> sep \<in> {''/'', ''%2F'', ''%2f''} \<and>
    PathUnescape rest = Some q \<and> strippedRawRemainder raw n = CHR ''/'' # rest"
proof -
  have "n \<le> length p" using assms(2) by (cases "n \<le> length p") simp_all
  from rawTail_decodes[OF assms(1) this] assms(2) obtain pre t where t: "rawTailFromDecodedOffset raw n = Some t" "raw = pre @ t"
      "PathUnescape pre = Some (take n p)" "PathUnescape t = Some (CHR ''/'' # q)" by auto
  from decoded_slash[OF t(4)] obtain sep rest where "t = sep @ rest" "sep \<in> {''/'', ''%2F'', ''%2f''}" "PathUnescape rest = Some q"
    by blast
  moreover from this(1,2) t(1) have "strippedRawRemainder raw n = CHR ''/'' # rest"
    by (elim insertE) (simp_all add: strippedRawRemainder_def isEncodedSlash_def)
  ultimately show ?thesis using t(2,3) by blast
qed

section \<open>Well-formed URLs\<close>

text \<open>
  The path is rooted, and a raw path is a rooted encoding of it: what \<^verbatim>\<open>net/http\<close> makes of an origin-form request target
  (\<^verbatim>\<open>GET /a/b?q\<close>).  The other forms, \<^verbatim>\<open>*\<close>, an authority, or an absolute URL without a path, leave the path empty or unrooted and are
  outside this predicate.
\<close>

definition goodURL :: "URL \<Rightarrow> bool" where
  "goodURL u \<longleftrightarrow> hasPrefix (uPath u) ''/'' \<and>
     (uRawPath u = [] \<or> hasPrefix (uRawPath u) ''/'' \<and> PathUnescape (uRawPath u) = Some (uPath u))"

lemma stripPathPrefix_good: "goodURL u \<Longrightarrow> goodURL (stripPathPrefix u p)"
proof (cases "uPath u \<noteq> p \<and> hasPrefix (uPath u) (p @ ''/'')")
  case True
  assume g: "goodURL u"
  from True obtain q where q: "drop (length p) (uPath u) = CHR ''/'' # q" by (auto simp: hasPrefix_iff)
  show ?thesis
  proof (cases "uRawPath u = []")
    case False
    with g have "PathUnescape (uRawPath u) = Some (uPath u)" by (simp add: goodURL_def)
    from strippedRawRemainder_decodes[OF this q] True False q show ?thesis
      by (auto simp: goodURL_def stripPathPrefix_def Let_def)
  qed (use True q in \<open>simp add: goodURL_def stripPathPrefix_def\<close>)
qed (auto simp: goodURL_def stripPathPrefix_def)

lemma addPathPrefix_good:
  assumes "goodURL u" and "hasPrefix p ''/''"
  shows "goodURL (addPathPrefix u p)"
proof -
  let ?e = "EscapedPath \<lparr>uPath = p, uRawPath = [], uRawQuery = [], uForceQuery = False\<rparr>"
  have e: "?e = escapePath p" using assms(2) by (auto simp: EscapedPath_def rooted_iff)
  have r: "hasPrefix (a @ b) ''/''" if "hasPrefix a ''/''" for a b using that by (auto simp: rooted_iff)
  show ?thesis using assms r[OF escapePath_rooted[OF assms(2)]] r[OF assms(2)] PathUnescape_append[OF PathUnescape_escapePath]
    by (auto simp: goodURL_def addPathPrefix_def Let_def e)
qed

lemma decoded_rooted: "PathUnescape s = Some d \<Longrightarrow> hasPrefix s ''/'' \<Longrightarrow> hasPrefix d ''/''"
  by (auto simp: rooted_iff)

lemma replaceURLPath_good: "goodURL u \<Longrightarrow> hasPrefix r ''/'' \<Longrightarrow> goodURL (replaceURLPath u r q b)"
  by (cases "PathUnescape r") (auto simp: goodURL_def replaceURLPath_def Let_def decoded_rooted)

lemma rewriteURLPath_good: "goodURL u \<Longrightarrow> goodURL (rewriteURLPath u re r)"
  by (auto simp: goodURL_def rewriteURLPath_def Let_def)

section \<open>Rewriting keeps URLs well-formed\<close>

text \<open>The middleware of a resolved configuration: every path rewrite passed its validation.\<close>

inductive resolvedPath :: "regexpCompiler \<Rightarrow> pathSettings Middleware \<Rightarrow> bool" for compile where
  strip: "resolveStripPrefixMW p = Inr m \<Longrightarrow> resolvedPath compile m"
| add: "resolveAddPrefixMW p = Inr m \<Longrightarrow> resolvedPath compile m"
| replace: "resolveReplacePathMW t = Inr m \<Longrightarrow> resolvedPath compile m"
| rewrite: "resolveRewritePathMW compile t r = Inr m \<Longrightarrow> resolvedPath compile m"
| other: "mtype m \<notin> {MWStripPrefix, MWAddPrefix, MWReplacePath, MWRewritePath} \<Longrightarrow> resolvedPath compile m"

lemma normalizePathPrefix_rooted: "normalizePathPrefix pre = Inr p \<Longrightarrow> hasPrefix p ''/''"
  by (auto simp: normalizePathPrefix_def Let_def split: if_splits)

lemma splitReplacePath_rooted: "splitReplacePath t = Inr (p, q, b) \<Longrightarrow> hasPrefix p ''/''"
  by (auto simp: splitReplacePath_def split: if_splits prod.splits)

lemma compilePathOp_good:
  assumes "resolvedPath compile m" and "compilePathOp compile m = Some f" and "goodURL u"
  shows "goodURL (f u)"
  using assms
proof (induction rule: resolvedPath.induct)
  case (strip p m)
  then show ?case
    by (auto simp: resolveStripPrefixMW_def bindR_Inr_iff compilePathOp_def pathMiddleware_def intro: stripPathPrefix_good)
next
  case (add p m)
  then show ?case
    by (auto simp: resolveAddPrefixMW_def bindR_Inr_iff compilePathOp_def pathMiddleware_def
        intro!: addPathPrefix_good normalizePathPrefix_rooted)
next
  case (replace t m)
  then show ?case
    by (auto simp: resolveReplacePathMW_def bindR_Inr_iff compilePathOp_def pathMiddleware_def
        intro!: replaceURLPath_good splitReplacePath_rooted)
next
  case (rewrite t r m)
  then show ?case
    by (auto simp: resolveRewritePathMW_def compilePathOp_def pathMiddleware_def rewriteURLPath_good
        split: if_splits option.splits)
next
  case (other m)
  then show ?case by (cases "mtype m") (auto simp: compilePathOp_def Let_def)
qed

text \<open>Only a replacement with an explicit query touches the query.\<close>

definition setsQuery :: "pathSettings Middleware \<Rightarrow> bool" where
  "setsQuery m \<longleftrightarrow> mtype m = MWReplacePath \<and> PathQuerySet (mwRest (mw m))"

lemma ops_query:
  "uRawQuery (stripPathPrefix u p) = uRawQuery u" "uForceQuery (stripPathPrefix u p) = uForceQuery u"
  "uRawQuery (addPathPrefix u p) = uRawQuery u" "uForceQuery (addPathPrefix u p) = uForceQuery u"
  "uRawQuery (rewriteURLPath u re r) = uRawQuery u" "uForceQuery (rewriteURLPath u re r) = uForceQuery u"
  "uRawQuery (replaceURLPath u r q False) = uRawQuery u" "uForceQuery (replaceURLPath u r q False) = uForceQuery u"
  by (simp_all add: stripPathPrefix_def addPathPrefix_def rewriteURLPath_def replaceURLPath_def Let_def split: option.split)

lemma compilePathOp_query:
  assumes "compilePathOp compile m = Some f" and "\<not> setsQuery m"
  shows "uRawQuery (f u) = uRawQuery u \<and> uForceQuery (f u) = uForceQuery u"
  using assms
  by (cases "mtype m")
    (auto simp: compilePathOp_def Let_def setsQuery_def ops_query)

text \<open>The operations a route runs are the compiled ones, in the order of the chain.\<close>

lemma foldl_ops_invariant:
  assumes "\<And>m f u. m \<in> set mws \<Longrightarrow> compilePathOp compile m = Some f \<Longrightarrow> P u \<Longrightarrow> P (f u)" and "P u"
  shows "P (foldl (\<lambda>u op. op u) u (List.map_filter (compilePathOp compile) mws))"
  using assms
proof (induction mws arbitrary: u)
  case (Cons m mws)
  have ih: "P v \<Longrightarrow> P (foldl (\<lambda>u op. op u) v (List.map_filter (compilePathOp compile) mws))" for v
    by (rule Cons.IH) (use Cons.prems(1) in auto)
  show ?case
  proof (cases "compilePathOp compile m")
    case (Some f)
    have "P (f u)" by (rule Cons.prems(1)[OF _ Some Cons.prems(2)]) simp
    from ih[OF this] Some show ?thesis by (simp add: map_filter_simps)
  qed (use ih[OF Cons.prems(2)] in \<open>simp add: map_filter_simps\<close>)
qed (simp add: map_filter_simps)

text \<open>
  C21: Path rewriting keeps requests well-formed.  Whatever rewrites of a resolved configuration a route carries, in any order and
  with any regular expressions, a request whose path is rooted and whose raw path encodes it is rewritten to a request
  with a rooted path whose raw path, if it has one, still is rooted and decodes to that path, so the upstream and the middleware that
  reads the decoded path see one and the same resource; and the query is carried through unless a \<^verbatim>\<open>ReplacePath\<close> with an
  explicit query replaced it.
\<close>

theorem withPathRewrite_good:
  assumes "\<forall>m\<in>set mws. resolvedPath compile m" and "goodURL u"
  shows "goodURL (withPathRewrite compile mws u) \<and>
    (if \<exists>m\<in>set mws. setsQuery m then True
     else uRawQuery (withPathRewrite compile mws u) = uRawQuery u \<and> uForceQuery (withPathRewrite compile mws u) = uForceQuery u)"
proof -
  let ?r = "foldl (\<lambda>u op. op u) u (List.map_filter (compilePathOp compile) mws)"
  have g: "goodURL ?r"
    by (rule foldl_ops_invariant[where P = goodURL]) (use assms in \<open>auto intro: compilePathOp_good\<close>)
  then have ne: "uPath ?r \<noteq> []" by (auto simp: goodURL_def)
  have q: "uRawQuery ?r = uRawQuery u \<and> uForceQuery ?r = uForceQuery u" if "\<not> (\<exists>m\<in>set mws. setsQuery m)"
    by (rule foldl_ops_invariant[where P = "\<lambda>v. uRawQuery v = uRawQuery u \<and> uForceQuery v = uForceQuery u"])
      (use that compilePathOp_query in auto)
  show ?thesis using g ne q assms(2) by (auto simp: withPathRewrite_def Let_def)
qed

theorem withPathRewrite_good_witness:
  "goodURL (withPathRewrite (\<lambda>_. None)
     [pathMiddleware MWStripPrefix (zeroPath\<lparr>PathPrefix := ''/api''\<rparr>), pathMiddleware MWAddPrefix (zeroPath\<lparr>PathPrefix := ''/v2''\<rparr>)]
     \<lparr>uPath = ''/api/x/y'', uRawPath = ''/api%2Fx%2Fy'', uRawQuery = ''q=1'', uForceQuery = False\<rparr>) \<and>
   RequestURI (withPathRewrite (\<lambda>_. None)
     [pathMiddleware MWStripPrefix (zeroPath\<lparr>PathPrefix := ''/api''\<rparr>), pathMiddleware MWAddPrefix (zeroPath\<lparr>PathPrefix := ''/v2''\<rparr>)]
     \<lparr>uPath = ''/api/x/y'', uRawPath = ''/api%2Fx%2Fy'', uRawQuery = ''q=1'', uForceQuery = False\<rparr>) = ''/v2/x%2Fy?q=1''"
proof -
  let ?a = "pathMiddleware MWStripPrefix (zeroPath\<lparr>PathPrefix := ''/api''\<rparr>)"
  let ?b = "pathMiddleware MWAddPrefix (zeroPath\<lparr>PathPrefix := ''/v2''\<rparr>)"
  let ?u = "\<lparr>uPath = ''/api/x/y'', uRawPath = ''/api%2Fx%2Fy'', uRawQuery = ''q=1'', uForceQuery = False\<rparr>"
  have "normalizePathPrefix ''/api/'' = Inr ''/api''" "normalizePathPrefix ''/v2'' = Inr ''/v2''" by code_simp+
  then have "resolveStripPrefixMW ''/api/'' = Inr ?a" "resolveAddPrefixMW ''/v2'' = Inr ?b"
    by (simp_all add: resolveStripPrefixMW_def resolveAddPrefixMW_def)
  then have "\<forall>m\<in>set [?a, ?b]. resolvedPath (\<lambda>_. None) m" by (auto intro: resolvedPath.strip resolvedPath.add)
  moreover have "goodURL ?u" by code_simp
  ultimately have "goodURL (withPathRewrite (\<lambda>_. None) [?a, ?b] ?u)" using withPathRewrite_good by blast
  moreover have "RequestURI (withPathRewrite (\<lambda>_. None) [?a, ?b] ?u) = ''/v2/x%2Fy?q=1''" by code_simp
  ultimately show ?thesis by blast
qed

lemma unescape_plain: "CHR ''%'' \<notin> set s \<Longrightarrow> PathUnescape s = Some s"
  by (induction s) auto

lemma unescape_length: "PathUnescape s = Some t \<Longrightarrow> length t \<le> length s"
proof (induction s arbitrary: t rule: PathUnescape.induct)
  case (2 c s)
  show ?case
  proof (cases "c = CHR ''%''")
    case True
    with 2(3) obtain h l rest where s: "s = h # l # rest" "isHexDigit h" "isHexDigit l"
      by (auto split: list.splits if_splits)
    with True 2(3) obtain y where y: "PathUnescape rest = Some y" "length t = Suc (length y)" by auto
    show ?thesis using 2(1)[OF True s(1) refl _ y(1)] s y by simp
  qed (use 2 in auto)
qed simp

lemma unescape_shorter: "PathUnescape s = Some t \<Longrightarrow> CHR ''%'' \<in> set s \<Longrightarrow> length t < length s"
proof (induction s arbitrary: t)
  case (Cons c s)
  show ?case
  proof (cases "c = CHR ''%''")
    case True
    with Cons(2) obtain h l rest where s: "s = h # l # rest" "isHexDigit h" "isHexDigit l"
      by (auto split: list.splits if_splits)
    with True Cons(2) obtain y where "PathUnescape rest = Some y" "length t = Suc (length y)" by auto
    with s unescape_length[of rest y] show ?thesis by simp
  next
    case False
    with Cons(2) obtain y where "PathUnescape s = Some y" "t = c # y" by auto
    with Cons.IH[of y] Cons(3) False show ?thesis by simp
  qed
qed simp

text \<open>
  C37: Stripping keeps the client's escaping.  When \<^verbatim>\<open>StripPrefix\<close> removes a prefix from a request with a raw path, the raw path is
  split where its decoded prefix ends: the separator, a slash or an escaped one, becomes the new root, and the path loses exactly the prefix.
  When the remainder has an escape, or no byte that a path must escape, every byte of it is kept as it was sent, escaped separators included:
  the escaped path of the result is a slash and those bytes.
\<close>

theorem stripPathPrefix_escaping:
  assumes "goodURL u" and "uRawPath u \<noteq> []" and "validEncoded (uRawPath u)" and "hasPrefix (uPath u) (p @ ''/'')"
  shows "\<exists>pre sep rest. uRawPath u = pre @ sep @ rest \<and> PathUnescape pre = Some p \<and> sep \<in> {''/'', ''%2F'', ''%2f''} \<and>
    uPath (stripPathPrefix u p) = drop (length p) (uPath u) \<and>
    (if CHR ''%'' \<in> set rest \<or> list_all (\<lambda>c. \<not> shouldEscape c) rest
     then EscapedPath (stripPathPrefix u p) = CHR ''/'' # rest else True)"
proof -
  have raw: "PathUnescape (uRawPath u) = Some (uPath u)" using assms(1,2) by (simp add: goodURL_def)
  from assms(4) obtain q where q: "uPath u = p @ CHR ''/'' # q" by (auto simp: hasPrefix_iff)
  then have d: "drop (length p) (uPath u) = CHR ''/'' # q" and tk: "take (length p) (uPath u) = p" by simp_all
  from strippedRawRemainder_decodes[OF raw d, unfolded tk] obtain pre sep rest where r: "uRawPath u = pre @ sep @ rest"
      "PathUnescape pre = Some p" "sep \<in> {''/'', ''%2F'', ''%2f''}" "PathUnescape rest = Some q"
      "strippedRawRemainder (uRawPath u) (length p) = CHR ''/'' # rest" by blast
  have st: "stripPathPrefix u p = u\<lparr>uPath := CHR ''/'' # q, uRawPath := (if rest = q then [] else CHR ''/'' # rest)\<rparr>"
    using assms(2,4) q r(5) by (simp add: stripPathPrefix_def Let_def)
  have "EscapedPath (stripPathPrefix u p) = (if CHR ''%'' \<in> set rest then CHR ''/'' # rest else escapePath (CHR ''/'' # rest))"
  proof (cases "CHR ''%'' \<in> set rest")
    case True
    then have "rest \<noteq> q" using unescape_shorter[OF r(4)] by auto
    moreover have "validEncoded (CHR ''/'' # rest)" using assms(3) r(1) by (simp add: validEncoded_def shouldEscape_def)
    ultimately show ?thesis using True r(4) by (simp add: st EscapedPath_def)
  next
    case False
    then have "rest = q" using unescape_plain[OF False] r(4) by simp
    with False show ?thesis by (simp add: st EscapedPath_def)
  qed
  moreover have "escapePath (CHR ''/'' # rest) = CHR ''/'' # rest" if "list_all (\<lambda>c. \<not> shouldEscape c) rest"
    using escapePath_plain[of "CHR ''/'' # rest"] that by (simp add: shouldEscape_def)
  moreover have "uPath (stripPathPrefix u p) = drop (length p) (uPath u)" by (simp add: st d)
  ultimately show ?thesis using r(1-3) by auto
qed

theorem stripPathPrefix_escaping_witness:
  "EscapedPath (stripPathPrefix \<lparr>uPath = ''/api/x/y'', uRawPath = ''/a%70i%2fx%2Fy'', uRawQuery = [], uForceQuery = False\<rparr> ''/api'') =
   ''/x%2Fy'' \<and>
   (\<exists>pre sep rest. ''/a%70i%2fx%2Fy'' = pre @ sep @ rest \<and> PathUnescape pre = Some ''/api'' \<and> sep \<in> {''/'', ''%2F'', ''%2f''})"
proof -
  let ?u = "\<lparr>uPath = ''/api/x/y'', uRawPath = ''/a%70i%2fx%2Fy'', uRawQuery = [], uForceQuery = False\<rparr>"
  have "goodURL ?u" "uRawPath ?u \<noteq> []" "validEncoded (uRawPath ?u)" "hasPrefix (uPath ?u) (''/api'' @ ''/'')" by code_simp+
  from stripPathPrefix_escaping[OF this]
  have "\<exists>pre sep rest. ''/a%70i%2fx%2Fy'' = pre @ sep @ rest \<and> PathUnescape pre = Some ''/api'' \<and> sep \<in> {''/'', ''%2F'', ''%2f''}"
    unfolding URL.select_convs by blast
  moreover have "EscapedPath (stripPathPrefix ?u ''/api'') = ''/x%2Fy''" by code_simp
  ultimately show ?thesis by blast
qed

lemma stripped_plain:
  assumes "uPath u = p @ CHR ''/'' # rest" and "uRawPath u = uPath u" and "CHR ''%'' \<notin> set (uPath u)"
  shows "EscapedPath (stripPathPrefix u p) = escapePath (CHR ''/'' # rest)"
proof -
  have dec: "PathUnescape (uPath u) = Some (uPath u)" using assms(3) by (rule unescape_plain)
  have d: "drop (length p) (uPath u) = CHR ''/'' # rest" using assms(1) by simp
  from strippedRawRemainder_decodes[OF dec d] obtain pre sep t where t: "uPath u = pre @ sep @ t" "PathUnescape t = Some rest"
      "strippedRawRemainder (uPath u) (length p) = CHR ''/'' # t" by blast
  have "t = rest" using unescape_plain[of t] t(1,2) assms(3) by simp
  with t(3) assms(1,2) show ?thesis
    by (simp add: stripPathPrefix_def Let_def hasPrefix_iff EscapedPath_def)
qed

text \<open>
  The exception is visible: \<^verbatim>\<open>(\<close> may stand unescaped in a path, so without the rewrite the upstream receives the path as the client
  sent it, and with it the parentheses arrive escaped.
\<close>

theorem stripPathPrefix_reescapes:
  assumes "uPath u = p @ CHR ''/'' # rest" and "uRawPath u = uPath u" and "validEncoded (uPath u)" and "CHR ''%'' \<notin> set (uPath u)"
    and "c \<in> set rest" and "shouldEscape c"
  shows "EscapedPath u = p @ CHR ''/'' # rest \<and> EscapedPath (stripPathPrefix u p) \<noteq> CHR ''/'' # rest"
proof -
  have dec: "PathUnescape (uPath u) = Some (uPath u)" using assms(4) by (rule unescape_plain)
  have "EscapedPath (stripPathPrefix u p) = escapePath (CHR ''/'' # rest)"
    using assms(1,2) stripped_plain[of u p rest] assms(4) by simp
  moreover have "CHR ''%'' \<in> set (escapePath (CHR ''/'' # rest))" using assms(5,6) by (auto simp: escapePath_def escapeChar_def)
  moreover have "CHR ''%'' \<notin> set (CHR ''/'' # rest)" using assms(1,4) by auto
  ultimately show ?thesis using assms(1-3) dec by (auto simp: EscapedPath_def)
qed

section \<open>Stripping byte prefixes\<close>

lemma rawTail_append: "PathUnescape pre = Some p \<Longrightarrow> rawTailFromDecodedOffset (pre @ t) (length p) = Some t"
proof (induction pre arbitrary: p rule: PathUnescape.induct)
  case (2 c s)
  show ?case
  proof (cases "c = CHR ''%''")
    case True
    with 2(3) obtain h l rest where s: "s = h # l # rest" "isHexDigit h" "isHexDigit l"
      by (auto split: list.splits if_splits)
    with True 2(3) obtain y where y: "PathUnescape rest = Some y" "length p = Suc (length y)" by auto
    show ?thesis using 2(1)[OF True s(1) refl _ y(1)] s y True by (simp add: rawTailStep_def)
  next
    case False
    with 2(3) obtain y where y: "PathUnescape s = Some y" "length p = Suc (length y)" by auto
    show ?thesis using 2(2)[OF False y(1)] y False by (simp add: rawTailStep_def)
  qed
qed simp

text \<open>
  \<^verbatim>\<open>StripBytePrefixes\<close> has no case for an escaped boundary: a slash is put in front of the escaped one, the raw path no
  longer decodes to the path, and the escaped path is derived anew, so every escaped separator of the client becomes a real one.
\<close>

theorem stripRequestPrefixes_boundary:
  assumes "goodURL (prURL r)" and "uRawPath (prURL r) = pre @ ''%2F'' @ rest" and "PathUnescape pre = Some p" and "PathPrefixes m = p # ps"
  shows "\<exists>out q. stripRequestPrefixes m r = Inr (True, out) \<and> uPath (prURL out) = CHR ''/'' # q \<and> PathUnescape rest = Some q \<and>
    EscapedPath (prURL out) = escapePath (CHR ''/'' # q)"
proof -
  have "PathUnescape (uRawPath (prURL r)) = Some (uPath (prURL r))" using assms(1,2) by (auto simp: goodURL_def)
  then have "map_option ((@) p) (PathUnescape (''%2F'' @ rest)) = Some (uPath (prURL r))"
    using PathUnescape_append[OF assms(3)] assms(2) by simp
  moreover have "isHexDigit CHR ''2''" "isHexDigit CHR ''F''" "char_of (16 * unhex CHR ''2'' + unhex CHR ''F'') = CHR ''/''" by code_simp+
  ultimately obtain q where q: "PathUnescape rest = Some q" "uPath (prURL r) = p @ CHR ''/'' # q" by auto
  let ?u = "(prURL r)\<lparr>uPath := CHR ''/'' # q, uRawPath := CHR ''/'' # ''%2F'' @ rest\<rparr>"
  let ?h = "if PathRecordOriginal m then headerAdd (prHeader r) ''X-Forwarded-Prefix'' p else prHeader r"
  have root: "rootRequestPath (CHR ''/'' # q) b = CHR ''/'' # q" "rootRequestPath (''%2F'' @ rest) b = CHR ''/'' # ''%2F'' @ rest" for b
    by (simp_all add: rootRequestPath_def trimPrefix_def)
  have "stripRequestPrefixes m r = Inr (True, r\<lparr>prURL := ?u, prHeader := ?h\<rparr>)"
    using assms(2,4) q(2) rawTail_append[OF assms(3), of "''%2F'' @ rest"] root[of "PathForceSlash m"]
    by (simp add: stripRequestPrefixes_def trimPrefix_def)
  moreover have "PathUnescape (uRawPath ?u) \<noteq> Some (uPath ?u)" using q(1) by (auto split: if_splits)
  then have "EscapedPath ?u = escapePath (CHR ''/'' # q)" by (simp add: EscapedPath_def)
  ultimately show ?thesis using q(1) by auto
qed

end
