(* ===== verification/Redirect.thy ===== *)
theory Redirect
  imports Path_Rewrite
begin

text \<open>
  Redirect routes (\<^verbatim>\<open>src/redirect.go\<close>): the template language of a target, its validation, and the location a request is
  sent to.  The lemmas show that no byte of the request but its host can reach the authority of an absolute target
  and that a relative target never names an authority.
\<close>

section \<open>Templates\<close>

datatype placeholder = phRequestURI | phPath | phQuery | phHost

datatype redirectSegment = literal string | placeholder placeholder

datatype redirectError =
  targetEmpty | targetHeaderValue | unclosedPlaceholder string | unknownPlaceholder string | queryNoAuthority | queryInAuthority
  | queryEmptyAuthority | statusInvalid

definition phName :: "placeholder \<Rightarrow> string" where
  "phName p = (case p of phRequestURI \<Rightarrow> ''request_uri'' | phPath \<Rightarrow> ''path'' | phQuery \<Rightarrow> ''query'' | phHost \<Rightarrow> ''host'')"

definition placeholderOf :: "string \<Rightarrow> placeholder option" where
  "placeholderOf name =
     (if name = ''request_uri'' then Some phRequestURI else if name = ''path'' then Some phPath
      else if name = ''query'' then Some phQuery else if name = ''host'' then Some phHost else None)"

function parseRedirectTarget :: "string \<Rightarrow> redirectError + redirectSegment list" where
  "parseRedirectTarget target =
     (if target = [] then Inr []
      else case cutByte target CHR ''{'' of
        None \<Rightarrow> Inr [literal target]
      | Some (before, rest) \<Rightarrow>
          (case cutByte rest CHR ''}'' of
             None \<Rightarrow> Inl (unclosedPlaceholder (CHR ''{'' # rest))
           | Some (name, target') \<Rightarrow>
               (case placeholderOf name of
                  None \<Rightarrow> Inl (unknownPlaceholder (''{'' @ name @ ''}''))
                | Some ph \<Rightarrow>
                    bindR (parseRedirectTarget target') (\<lambda>segs.
                      Inr ((if before \<noteq> [] then [literal before] else []) @ placeholder ph # segs)))))"
  by pat_completeness auto
termination by (relation "measure length") (auto dest!: cutByte_length)

declare parseRedirectTarget.simps [simp del]

text \<open>The match of \<^verbatim>\<open>^[A-Za-z][A-Za-z0-9+.-]*:\<close>, empty when there is none.\<close>

definition isAlpha :: "char \<Rightarrow> bool" where
  "isAlpha c \<longleftrightarrow> isLowerAlpha c \<or> isUpperAlpha c"

definition schemeChar :: "char \<Rightarrow> bool" where
  "schemeChar c \<longleftrightarrow> isAlpha c \<or> isDigit c \<or> c \<in> set ''+.-''"

definition redirectScheme :: "string \<Rightarrow> string" where
  "redirectScheme target = (case target of
       [] \<Rightarrow> []
     | c # s \<Rightarrow>
         if \<not> isAlpha c then []
         else let body = takeWhile schemeChar s in
           if hasPrefix (drop (length body) s) '':'' then c # body @ '':'' else [])"

section \<open>Validation\<close>

definition HeaderValue :: "string \<Rightarrow> bool" where
  "HeaderValue s \<longleftrightarrow> \<not> list_ex (\<lambda>c. (byte c < 32 \<and> c \<noteq> CHR 0x09) \<or> byte c = 127) s"

definition redirectStatuses :: "int list" where
  "redirectStatuses = [301, 302, 303, 307, 308]"

definition authorityEnd :: "char \<Rightarrow> bool" where
  "authorityEnd c \<longleftrightarrow> c \<in> set ''/?#''"

text \<open>
  The loop over the segments; \<open>skip\<close> is the length of the scheme of the first segment, \<open>None\<close> after it.  A \<^verbatim>\<open>break\<close> leads to the
  error after the loop.
\<close>

fun authorityLoop :: "nat option \<Rightarrow> bool \<Rightarrow> redirectSegment list \<Rightarrow> redirectError option" where
  "authorityLoop skip hasHost [] = Some queryEmptyAuthority"
| "authorityLoop skip hasHost (placeholder ph # segs) =
     (if ph = phQuery then Some queryInAuthority
      else if ph = phPath \<or> ph = phRequestURI then (if hasHost then None else Some queryEmptyAuthority)
      else authorityLoop None True segs)"
| "authorityLoop skip hasHost (literal l # segs) =
     (let lit = (case skip of None \<Rightarrow> l | Some n \<Rightarrow> trimPrefix (drop n l) ''//'') in
      if list_ex authorityEnd lit then
        (if hasHost \<or> \<not> authorityEnd (hd lit) then None else Some queryEmptyAuthority)
      else authorityLoop None (hasHost \<or> lit \<noteq> []) segs)"

definition validateRedirectAuthority :: "string \<Rightarrow> redirectSegment list \<Rightarrow> redirectError option" where
  "validateRedirectAuthority target segs =
     (let scheme = redirectScheme target in
      if scheme = [] then None
      else if \<not> list_ex (\<lambda>s. s = placeholder phQuery) segs then None
      else if \<not> hasPrefix (drop (length scheme) target) ''//'' then Some queryNoAuthority
      else authorityLoop (Some (length scheme)) False segs)"

record Redirect =
  rdTarget :: string
  rdStatus :: int
  rdNonGETStatus :: int

definition resolveRedirect :: "string \<Rightarrow> int \<Rightarrow> redirectError + Redirect" where
  "resolveRedirect target status =
     (if target = [] then Inl targetEmpty
      else if \<not> HeaderValue target then Inl targetHeaderValue
      else bindR (parseRedirectTarget target) (\<lambda>segs.
        case validateRedirectAuthority target segs of
          Some e \<Rightarrow> Inl e
        | None \<Rightarrow>
            if \<not> List.member redirectStatuses status then Inl statusInvalid
            else Inr \<lparr>rdTarget = target, rdStatus = status, rdNonGETStatus = 0\<rparr>))"

definition resolveRouteRedirect :: "string \<Rightarrow> int \<Rightarrow> int \<Rightarrow> redirectError + Redirect" where
  "resolveRouteRedirect target status nonGET =
     bindR (resolveRedirect target status) (\<lambda>rd.
       if nonGET \<noteq> 0 \<and> \<not> List.member redirectStatuses nonGET then Inl statusInvalid
       else Inr (rd\<lparr>rdNonGETStatus := nonGET\<rparr>))"

section \<open>The location\<close>

record redirectRequest =
  rqMethod :: string
  rqHostHeader :: string
  rqURL :: URL

definition expandSegment :: "redirectRequest \<Rightarrow> redirectSegment \<Rightarrow> string" where
  "expandSegment r seg = (case seg of
       literal l \<Rightarrow> l
     | placeholder ph \<Rightarrow>
         (case ph of phRequestURI \<Rightarrow> RequestURI (rqURL r) | phPath \<Rightarrow> EscapedPath (rqURL r)
          | phQuery \<Rightarrow> uRawQuery (rqURL r) | phHost \<Rightarrow> stripPort (rqHostHeader r)))"

definition safeRedirectLocation :: "string \<Rightarrow> string" where
  "safeRedirectLocation loc =
     (if length loc \<ge> 2 \<and> loc ! 0 = CHR ''/'' \<and> (loc ! 1 = CHR ''/'' \<or> loc ! 1 = CHR 0x5C)
      then ''/'' @ trimLeft loc [CHR ''/'', CHR 0x5C] else loc)"

definition escapeBackslashes :: "string \<Rightarrow> string" where
  "escapeBackslashes s = concat (map (\<lambda>c. if c = CHR 0x5C then ''%5C'' else [c]) s)"

text \<open>The location and status the handler passes to \<^verbatim>\<open>http.Redirect\<close>.\<close>

definition redirectRouteHandler :: "Redirect \<Rightarrow> redirectRequest \<Rightarrow> string \<times> int" where
  "redirectRouteHandler rd r =
     (let segs = (case parseRedirectTarget (rdTarget rd) of Inl _ \<Rightarrow> [] | Inr segs \<Rightarrow> segs);
          relative = (redirectScheme (rdTarget rd) = []);
          loc = safeRedirectLocation (concat (map (expandSegment r) segs));
          loc = (if relative
                 then (case cutByte loc CHR ''?'' of
                         None \<Rightarrow> escapeBackslashes loc
                       | Some (pathPart, query) \<Rightarrow> escapeBackslashes pathPart @ ''?'' @ query)
                 else loc);
          rooted = (hasPrefix loc ''/'' \<and> \<not> hasPrefix loc ''//'' \<and> \<not> hasPrefix loc (''/'' @ [CHR 0x5C]));
          loc = (if relative \<and> \<not> rooted then ''./'' @ loc else loc)
      in (loc, if rqMethod r \<noteq> ''GET'' \<and> rdNonGETStatus rd \<noteq> 0 then rdNonGETStatus rd else rdStatus rd))"

section \<open>Templates print back\<close>

definition printSegment :: "redirectSegment \<Rightarrow> string" where
  "printSegment seg = (case seg of literal l \<Rightarrow> l | placeholder ph \<Rightarrow> ''{'' @ phName ph @ ''}'')"

lemma placeholderOf_Some: "placeholderOf name = Some ph \<Longrightarrow> name = phName ph"
  by (auto simp: placeholderOf_def phName_def split: if_splits)

lemma parseRedirectTarget_prints:
  "parseRedirectTarget target = Inr segs \<Longrightarrow>
   concat (map printSegment segs) = target \<and> list_all (\<lambda>s. case s of literal l \<Rightarrow> l \<noteq> [] \<and> CHR ''{'' \<notin> set l | _ \<Rightarrow> True) segs"
proof (induction target arbitrary: segs rule: parseRedirectTarget.induct)
  case (1 target)
  consider "target = []" | "target \<noteq> []" "cutByte target CHR ''{'' = None"
    | before rest where "target \<noteq> []" "cutByte target CHR ''{'' = Some (before, rest)"
    by (cases "cutByte target CHR ''{''") auto
  then show ?case
  proof cases
    case 2
    then have "segs = [literal target]" using 1(2) by (simp add: parseRedirectTarget.simps[of target])
    moreover have "CHR ''{'' \<notin> set target" using 2(2) cutByte_None by blast
    ultimately show ?thesis using 2(1) by (simp add: printSegment_def)
  next
    case 3
    from 1(2) 3 obtain name t ph segs' where p: "cutByte rest CHR ''}'' = Some (name, t)" "placeholderOf name = Some ph"
        "parseRedirectTarget t = Inr segs'" "segs = (if before \<noteq> [] then [literal before] else []) @ placeholder ph # segs'"
      by (subst (asm) parseRedirectTarget.simps) (auto simp: bindR_Inr_iff split: option.splits)
    have "target = before @ CHR ''{'' # rest" "CHR ''{'' \<notin> set before" "rest = phName ph @ CHR ''}'' # t"
      using 3(2) p(1,2) by (auto dest!: cutByte_SomeD placeholderOf_Some)
    with 1(1)[OF 3 refl p(1) refl p(2,3)] p(4) show ?thesis by (auto simp: printSegment_def)
  qed (use 1(2) in \<open>simp add: parseRedirectTarget.simps[of "[]"]\<close>)
qed


section \<open>Schemes\<close>


lemma redirectScheme_none: "redirectScheme [] = []" "\<not> isAlpha c \<Longrightarrow> redirectScheme (c # s) = []"
  by (simp_all add: redirectScheme_def)

section \<open>Authorities\<close>











definition demoRequest :: "string \<Rightarrow> string \<Rightarrow> redirectRequest" where
  "demoRequest path query = \<lparr>rqMethod = ''GET'', rqHostHeader = ''a.example:80'',
     rqURL = \<lparr>uPath = path, uRawPath = [], uRawQuery = query, uForceQuery = False\<rparr>\<rparr>"


text \<open>
  The validation covers \<^verbatim>\<open>{query}\<close> only.  A target that leaves the authority to \<^verbatim>\<open>{path}\<close> is accepted, and a request path with a doubled
  slash then names it.
\<close>

theorem redirect_scheme_path_open:
  "resolveRouteRedirect ''https:{path}'' 302 0 = Inr \<lparr>rdTarget = ''https:{path}'', rdStatus = 302, rdNonGETStatus = 0\<rparr> \<and>
   redirectRouteHandler \<lparr>rdTarget = ''https:{path}'', rdStatus = 302, rdNonGETStatus = 0\<rparr> (demoRequest ''//evil.example/'' []) =
     (''https://evil.example/'', 302)"
  by code_simp

section \<open>Relative targets\<close>

lemma escapeBackslashes_clean: "CHR 0x5C \<notin> set (escapeBackslashes s)"
  by (induction s) (auto simp: escapeBackslashes_def)

lemma escapeBackslashes_query: "CHR ''?'' \<in> set (escapeBackslashes s) \<longleftrightarrow> CHR ''?'' \<in> set s"
  by (induction s) (auto simp: escapeBackslashes_def)

text \<open>
  C36: A relative redirect stays on the origin.  The location a target without a scheme leads to has no scheme and no authority, and no
  backslash before its query, whatever the request contains.
\<close>

theorem redirect_relative_origin:
  assumes "redirectScheme (rdTarget rd) = []"
  shows "redirectScheme (fst (redirectRouteHandler rd r)) = [] \<and> \<not> hasPrefix (fst (redirectRouteHandler rd r)) ''//'' \<and>
    CHR 0x5C \<notin> set (takeWhile (\<lambda>c. c \<noteq> CHR ''?'') (fst (redirectRouteHandler rd r)))"
proof -
  let ?segs = "case parseRedirectTarget (rdTarget rd) of Inl _ \<Rightarrow> [] | Inr segs \<Rightarrow> segs"
  define raw where "raw = safeRedirectLocation (concat (map (expandSegment r) ?segs))"
  define loc where "loc = (case cutByte raw CHR ''?'' of None \<Rightarrow> escapeBackslashes raw
    | Some (pathPart, query) \<Rightarrow> escapeBackslashes pathPart @ ''?'' @ query)"
  define rooted where "rooted \<longleftrightarrow> hasPrefix loc ''/'' \<and> \<not> hasPrefix loc ''//'' \<and> \<not> hasPrefix loc (''/'' @ [CHR 0x5C])"
  have f: "fst (redirectRouteHandler rd r) = (if rooted then loc else ''./'' @ loc)"
    unfolding redirectRouteHandler_def Let_def assms raw_def[symmetric] by (simp add: loc_def[symmetric] rooted_def)
  have clean: "CHR 0x5C \<notin> set (takeWhile (\<lambda>c. c \<noteq> CHR ''?'') loc)"
  proof (cases "cutByte raw CHR ''?''")
    case None
    then show ?thesis using escapeBackslashes_clean[of raw] by (auto simp: loc_def dest: set_takeWhileD)
  next
    case (Some x)
    then obtain p q where x: "cutByte raw CHR ''?'' = Some (p, q)" by (cases x) auto
    have "CHR ''?'' \<notin> set (escapeBackslashes p)" using cutByte_SomeD[OF x] by (simp add: escapeBackslashes_query)
    then have "takeWhile (\<lambda>c. c \<noteq> CHR ''?'') loc = escapeBackslashes p"
      unfolding loc_def x by (simp add: takeWhile_append takeWhile_eq_all_conv)
    then show ?thesis using escapeBackslashes_clean by simp
  qed
  have na: "\<not> isAlpha CHR ''.''" "\<not> isAlpha CHR ''/''" by code_simp+
  show ?thesis
  proof (cases rooted)
    case True
    then obtain t where "loc = CHR ''/'' # t" by (auto simp: rooted_def rooted_iff)
    with True f clean na show ?thesis by (simp add: rooted_def redirectScheme_none)
  qed (use f clean na in \<open>simp add: redirectScheme_none\<close>)
qed

theorem redirect_relative_origin_witness:
  "\<not> hasPrefix (fst (redirectRouteHandler \<lparr>rdTarget = ''{path}'', rdStatus = 301, rdNonGETStatus = 0\<rparr> (demoRequest ''//evil.example'' []))) ''//'' \<and>
   fst (redirectRouteHandler \<lparr>rdTarget = ''{path}'', rdStatus = 301, rdNonGETStatus = 0\<rparr> (demoRequest ''//evil.example'' [])) = ''/evil.example''"
proof -
  have "redirectScheme (rdTarget \<lparr>rdTarget = ''{path}'', rdStatus = 301, rdNonGETStatus = 0\<rparr>) = []" by code_simp
  from redirect_relative_origin[OF this, of "demoRequest ''//evil.example'' []"]
  have "\<not> hasPrefix (fst (redirectRouteHandler \<lparr>rdTarget = ''{path}'', rdStatus = 301, rdNonGETStatus = 0\<rparr> (demoRequest ''//evil.example'' []))) ''//''" by blast
  moreover have "fst (redirectRouteHandler \<lparr>rdTarget = ''{path}'', rdStatus = 301, rdNonGETStatus = 0\<rparr> (demoRequest ''//evil.example'' [])) = ''/evil.example''"
    by code_simp
  ultimately show ?thesis by blast
qed

end
