(* ===== verification/Tls_Names.thy ===== *)
theory Tls_Names
  imports Go_Http
begin

text \<open>
  TLS host names: their canonical form (\<^verbatim>\<open>src/certrouter.go\<close>), the index of names and wildcard patterns shared by
  certificates and policies (\<^verbatim>\<open>src/tlsnames.go\<close>), and the selection of a certificate for a handshake.
  \<^verbatim>\<open>golang.org/x/net/idna\<close> is the parameter \<open>toASCII\<close>, \<open>None\<close> for a name its lookup profile rejects.  The lemmas show that canonical
  names are trimmed, and that a lookup is determined by the set of the declared names, not by their order.
\<close>

section \<open>Canonical names\<close>

lemma length_trimSpace: "length (trimSpace s) \<le> length s"
proof -
  have "length (trimRight t cs) \<le> length t" for t cs
    using length_dropWhile_le[of "\<lambda>c. c \<in> set cs" "rev t"] by (simp add: trimRight_def)
  then show ?thesis using length_trimLeft[of s spaceChars] le_trans unfolding trimSpace_def trim_def by blast
qed

lemma length_trimSuffix: "length (trimSuffix s p) \<le> length s"
  by (simp add: trimSuffix_def)

lemma trim_step: "trimSuffix (trimSpace s) p \<noteq> s \<Longrightarrow> length (trimSuffix (trimSpace s) p) < length s"
proof -
  have r: "dropWhile P t = t" if "length (dropWhile P t) = length t" for P and t :: string
    using that by (metis append_eq_append_conv self_append_conv2 takeWhile_dropWhile_id)
  assume ne: "trimSuffix (trimSpace s) p \<noteq> s"
  show ?thesis
  proof (rule ccontr)
    assume "\<not> length (trimSuffix (trimSpace s) p) < length s"
    then have l: "length (trimSuffix (trimSpace s) p) = length s" "length (trimSpace s) = length s"
      using length_trimSuffix[of "trimSpace s" p] length_trimSpace[of s] by auto
    have "length (trimLeft s spaceChars) = length s"
      using l(2) length_trimLeft[of s spaceChars] length_dropWhile_le[of "\<lambda>c. c \<in> set spaceChars" "rev (trimLeft s spaceChars)"]
      by (simp add: trimSpace_def trim_def trimRight_def)
    then have "trimLeft s spaceChars = s" by (simp add: trimLeft_def r)
    with l(2) have "trimSpace s = s" using r[of "\<lambda>c. c \<in> set spaceChars" "rev s"] by (simp add: trimSpace_def trim_def trimRight_def)
    moreover have "trimSuffix (trimSpace s) p = trimSpace s"
      using l by (auto simp: trimSuffix_def hasSuffix_def split: if_splits)
    ultimately show False using ne by simp
  qed
qed

function trimTLSName :: "string \<Rightarrow> string" where
  "trimTLSName name = (let t = trimSuffix (trimSpace name) ''.'' in if t = name then name else trimTLSName t)"
  by pat_completeness auto
termination by (relation "measure length") (auto intro: trim_step)

declare trimTLSName.simps [simp del]

definition canonicalTLSNameStrict :: "(string \<Rightarrow> string option) \<Rightarrow> string \<Rightarrow> string \<times> bool" where
  "canonicalTLSNameStrict toASCII name =
     (let n = trimTLSName name;
          pre = (if hasPrefix n ''*.'' then ''*.'' else []);
          n = (if hasPrefix n ''*.'' then drop 2 n else n)
      in case toASCII n of
           None \<Rightarrow> (pre @ toLower n, False)
         | Some a \<Rightarrow> (trimTLSName (pre @ toLower a), True))"

definition canonicalTLSName :: "(string \<Rightarrow> string option) \<Rightarrow> string \<Rightarrow> string" where
  "canonicalTLSName toASCII name = fst (canonicalTLSNameStrict toASCII name)"

section \<open>The index\<close>

text \<open>The two maps are association lists without repeated keys.\<close>

record 'v tlsNameIndex =
  exact :: "(string \<times> 'v) list"
  wildcards :: "(string \<times> 'v) list"

datatype tlsError =
  claimedTwice string | noTLSMaterial | managerMissing | loadFailed string | noSNI | notCovered string | sniRequired | sniUncovered
  | hostsMissing | hostEmpty | hostInvalid string | wildcardInvalid | modeInvalid | caFileEmpty | caFileMissing | caFileUnreadable
  | policyTwice | notHTTPS | redirectOnly

definition emptyIndex :: "'v tlsNameIndex" where
  "emptyIndex = \<lparr>exact = [], wildcards = []\<rparr>"

definition indexAdd :: "(string \<Rightarrow> string option) \<Rightarrow> 'v tlsNameIndex \<Rightarrow> string \<Rightarrow> 'v \<Rightarrow> tlsError + 'v tlsNameIndex" where
  "indexAdd toASCII index pattern v =
     (let name = canonicalTLSName toASCII pattern in
      if hasPrefix name ''*.'' then
        (if map_of (wildcards index) name \<noteq> None then Inl (claimedTwice name)
         else Inr (index\<lparr>wildcards := (name, v) # wildcards index\<rparr>))
      else
        (if map_of (exact index) name \<noteq> None then Inl (claimedTwice name)
         else Inr (index\<lparr>exact := (name, v) # exact index\<rparr>)))"

definition indexLookup :: "(string \<Rightarrow> string option) \<Rightarrow> 'v tlsNameIndex \<Rightarrow> string \<Rightarrow> 'v option" where
  "indexLookup toASCII index name =
     (let host = canonicalTLSName toASCII name in
      case map_of (exact index) host of
        Some v \<Rightarrow> Some v
      | None \<Rightarrow>
          (case cutByte host CHR ''.'' of
             None \<Rightarrow> None
           | Some (_, rest) \<Rightarrow> if rest \<noteq> [] then map_of (wildcards index) (''*.'' @ rest) else None))"

text \<open>A loop that adds each pattern and returns at the first one that is claimed already.\<close>

fun addAll :: "(string \<Rightarrow> string option) \<Rightarrow> 'v tlsNameIndex \<Rightarrow> (string \<times> 'v) list \<Rightarrow> tlsError + 'v tlsNameIndex" where
  "addAll toASCII index [] = Inr index"
| "addAll toASCII index ((p, v) # ps) = bindR (indexAdd toASCII index p v) (\<lambda>index. addAll toASCII index ps)"

lemma addAll_append: "addAll toASCII i (xs @ ys) = bindR (addAll toASCII i xs) (\<lambda>i. addAll toASCII i ys)"
proof (induction xs arbitrary: i)
  case (Cons x xs)
  then show ?case by (cases x; cases "indexAdd toASCII i (fst x) (snd x)") auto
qed simp

section \<open>Certificates\<close>

text \<open>A handshake is the server name it sends; a certificate source answers it with a certificate or an error.\<close>

type_synonym 'c certGetter = "string \<Rightarrow> tlsError + 'c"

record 'c certRouter =
  crNames :: "'c certGetter tlsNameIndex"
  crFallback :: "'c certGetter option"
  hasACMETLS :: bool

datatype challenge = ChallengeAuto | ChallengeHTTP01

record autoTLS =
  aDNS01 :: bool
  aChallenge :: challenge
  aDomains :: "string list"

record staticTLS =
  stCertFile :: string
  stKeyFile :: string
  stHost :: string

record 'c tlsServer =
  acmeManagers :: "autoTLS \<Rightarrow> 'c certGetter option"
  autocertMgr :: "'c certGetter option"
  loadX509KeyPair :: "string \<Rightarrow> string \<Rightarrow> 'c option"

definition routerAdd ::
  "(string \<Rightarrow> string option) \<Rightarrow> 'c certRouter \<Rightarrow> string \<Rightarrow> 'c certGetter \<Rightarrow> tlsError + 'c certRouter" where
  "routerAdd toASCII cr pattern g = bindR (indexAdd toASCII (crNames cr) pattern g) (\<lambda>names. Inr (cr\<lparr>crNames := names\<rparr>))"

fun addDomains ::
  "(string \<Rightarrow> string option) \<Rightarrow> 'c certRouter \<Rightarrow> 'c certGetter \<Rightarrow> string list \<Rightarrow> tlsError + 'c certRouter" where
  "addDomains toASCII cr g [] = Inr cr"
| "addDomains toASCII cr g (d # ds) = bindR (routerAdd toASCII cr d g) (\<lambda>cr. addDomains toASCII cr g ds)"

fun indexACMESources ::
  "(string \<Rightarrow> string option) \<Rightarrow> 'c tlsServer \<Rightarrow> 'c certRouter \<Rightarrow> autoTLS list \<Rightarrow> tlsError + 'c certRouter" where
  "indexACMESources toASCII s cr [] = Inr cr"
| "indexACMESources toASCII s cr (a # as) =
     bindR (if aDNS01 a \<or> aChallenge a = ChallengeHTTP01
            then (case acmeManagers s a of None \<Rightarrow> Inl managerMissing | Some g \<Rightarrow> addDomains toASCII cr g (aDomains a))
            else (case autocertMgr s of None \<Rightarrow> Inl managerMissing
                  | Some g \<Rightarrow> addDomains toASCII (cr\<lparr>hasACMETLS := True\<rparr>) g (aDomains a)))
       (\<lambda>cr. indexACMESources toASCII s cr as)"

fun indexStaticSources ::
  "(string \<Rightarrow> string option) \<Rightarrow> 'c tlsServer \<Rightarrow> 'c certRouter \<Rightarrow> staticTLS list \<Rightarrow> tlsError + 'c certRouter" where
  "indexStaticSources toASCII s cr [] = Inr cr"
| "indexStaticSources toASCII s cr (st # sts) = (case loadX509KeyPair s (stCertFile st) (stKeyFile st) of
       None \<Rightarrow> Inl (loadFailed (stCertFile st))
     | Some cert \<Rightarrow>
         (let g = (\<lambda>_. Inr cert) in
          if stHost st = [] then indexStaticSources toASCII s (cr\<lparr>crFallback := Some g\<rparr>) sts
          else bindR (routerAdd toASCII cr (stHost st) g) (\<lambda>cr. indexStaticSources toASCII s cr sts)))"

definition buildCertRouter ::
  "(string \<Rightarrow> string option) \<Rightarrow> 'c tlsServer \<Rightarrow> autoTLS list \<Rightarrow> staticTLS list \<Rightarrow> tlsError + 'c certRouter" where
  "buildCertRouter toASCII s as sts =
     bindR (indexACMESources toASCII s \<lparr>crNames = emptyIndex, crFallback = None, hasACMETLS = False\<rparr> as) (\<lambda>cr.
     bindR (indexStaticSources toASCII s cr sts) (\<lambda>cr.
       if exact (crNames cr) = [] \<and> wildcards (crNames cr) = [] \<and> crFallback cr = None then Inl noTLSMaterial else Inr cr))"

definition GetCertificate :: "(string \<Rightarrow> string option) \<Rightarrow> 'c certRouter \<Rightarrow> string \<Rightarrow> tlsError + 'c" where
  "GetCertificate toASCII cr hello =
     (let host = canonicalTLSName toASCII hello in
      case indexLookup toASCII (crNames cr) host of
        Some g \<Rightarrow> g hello
      | None \<Rightarrow>
          (case crFallback cr of
             Some g \<Rightarrow> g hello
           | None \<Rightarrow> if host = [] then Inl noSNI else Inl (notCovered host)))"

section \<open>The contract of a name index\<close>

text \<open>
  What a lookup of a canonical host finds among declared patterns: the declaration of that very name, else the one of
  the wildcard that replaces its first label.
\<close>

definition isExactFor :: "string \<Rightarrow> string \<Rightarrow> bool" where
  "isExactFor p host \<longleftrightarrow> p = host \<and> \<not> hasPrefix p ''*.''"

definition isWildcardFor :: "string \<Rightarrow> string \<Rightarrow> bool" where
  "isWildcardFor p host \<longleftrightarrow> (case cutByte host CHR ''.'' of None \<Rightarrow> False | Some (_, rest) \<Rightarrow> rest \<noteq> [] \<and> p = ''*.'' @ rest)"

definition declaredFor :: "(string \<Rightarrow> string) \<Rightarrow> (string \<times> 'v) list \<Rightarrow> string \<Rightarrow> 'v option" where
  "declaredFor canon ps host = (case List.find (\<lambda>(p, _). isExactFor (canon p) host) ps of
       Some (_, v) \<Rightarrow> Some v
     | None \<Rightarrow> map_option snd (List.find (\<lambda>(p, _). isWildcardFor (canon p) host) ps))"

lemma isFor_unique:
  "isExactFor p h \<Longrightarrow> isExactFor q h \<Longrightarrow> p = q" "isWildcardFor p h \<Longrightarrow> isWildcardFor q h \<Longrightarrow> p = q"
  by (auto simp: isExactFor_def isWildcardFor_def split: option.splits)

lemma option_ext: "(\<And>v. a = Some v \<longleftrightarrow> b = Some v) \<Longrightarrow> a = b"
  by (cases a; cases b) auto

text \<open>Among declarations with distinct names at most one is exact for a host and at most one is a wildcard for it.\<close>

lemma find_unique:
  assumes "distinct (map f xs)" and "\<And>x y. P x \<Longrightarrow> P y \<Longrightarrow> f x = f y"
  shows "List.find P xs = Some x \<longleftrightarrow> x \<in> set xs \<and> P x"
  using assms(1)
proof (induction xs)
  case (Cons y ys)
  show ?case
  proof (cases "P y")
    case True
    have "\<not> P x" if "x \<in> set ys"
    proof
      assume "P x"
      with imageI[OF that, of f] assms(2)[OF _ True] Cons.prems show False by simp
    qed
    with True show ?thesis by auto
  qed (use Cons in auto)
qed simp

lemma declaredFor_sound:
  assumes "declaredFor canon ps h = Some v"
  shows "\<exists>p. (p, v) \<in> set ps \<and> (isExactFor (canon p) h \<or> isWildcardFor (canon p) h)"
proof -
  have mem: "x \<in> set ps \<and> P x" if "List.find P ps = Some x" for P x
    using that by (auto simp: find_Some_iff dest: nth_mem)
  show ?thesis
  proof (cases "List.find (\<lambda>(p, _). isExactFor (canon p) h) ps")
    case None
    with assms obtain p where "List.find (\<lambda>(p, _). isWildcardFor (canon p) h) ps = Some (p, v)" by (auto simp: declaredFor_def)
    from mem[OF this] show ?thesis by auto
  next
    case (Some x)
    with mem[OF Some] assms show ?thesis by (cases x) (auto simp: declaredFor_def)
  qed
qed

locale name_index =
  fixes canon :: "string \<Rightarrow> string"
    and build :: "(string \<times> 'v) list \<Rightarrow> tlsError + 'i"
    and find_name :: "'i \<Rightarrow> string \<Rightarrow> 'v option"
  assumes build_distinct: "build ps = Inr i \<Longrightarrow> distinct (map (canon \<circ> fst) ps)"
    and find_declared: "build ps = Inr i \<Longrightarrow> find_name i name = declaredFor canon ps (canon name)"
begin

lemma find_order:
  assumes "build ps = Inr i" and "build qs = Inr j" and "set ps = set qs"
  shows "find_name i name = find_name j name"
proof -
  have d: "distinct (map (canon \<circ> fst) ps)" "distinct (map (canon \<circ> fst) qs)" using assms by (auto intro: build_distinct)
  have same: "List.find P ps = List.find P qs" if "\<And>x y. P x \<Longrightarrow> P y \<Longrightarrow> (canon \<circ> fst) x = (canon \<circ> fst) y" for P
    by (rule option_ext)
      (use find_unique[where P = P, OF d(1) that] find_unique[where P = P, OF d(2) that] assms(3) in simp)
  have "List.find (\<lambda>(p, _). isExactFor (canon p) (canon name)) ps = List.find (\<lambda>(p, _). isExactFor (canon p) (canon name)) qs"
    and "List.find (\<lambda>(p, _). isWildcardFor (canon p) (canon name)) ps = List.find (\<lambda>(p, _). isWildcardFor (canon p) (canon name)) qs"
    by (rule same, auto intro: isFor_unique)+
  then have "declaredFor canon ps (canon name) = declaredFor canon qs (canon name)" unfolding declaredFor_def by (simp only:)
  then show ?thesis using find_declared assms(1,2) by metis
qed

lemma find_sound:
  assumes "build ps = Inr i" and "find_name i name = Some v"
  shows "\<exists>p. (p, v) \<in> set ps \<and> (isExactFor (canon p) (canon name) \<or> isWildcardFor (canon p) (canon name))"
  using find_declared[OF assms(1), of name] assms(2) declaredFor_sound by metis

lemma find_complete:
  assumes "build ps = Inr i" and "(p, v) \<in> set ps" and "isExactFor (canon p) (canon name)"
  shows "find_name i name = Some v"
proof -
  have "List.find (\<lambda>(p, _). isExactFor (canon p) (canon name)) ps = Some (p, v)"
    using assms by (subst find_unique[OF build_distinct[OF assms(1)]]) (auto simp: isExactFor_def)
  then show ?thesis using find_declared[OF assms(1)] by (simp add: declaredFor_def)
qed

end

text \<open>The index of the code keeps the contract.\<close>

definition buildIndex :: "(string \<Rightarrow> string option) \<Rightarrow> (string \<times> 'v) list \<Rightarrow> tlsError + 'v tlsNameIndex" where
  "buildIndex toASCII ps = addAll toASCII emptyIndex ps"

definition canonicalPairs :: "(string \<Rightarrow> string option) \<Rightarrow> (string \<times> 'v) list \<Rightarrow> (string \<times> 'v) list" where
  "canonicalPairs toASCII ps = map (\<lambda>(p, v). (canonicalTLSName toASCII p, v)) ps"

lemma addAll_tables:
  assumes "addAll toASCII i ps = Inr j"
  shows "exact j = rev (filter (\<lambda>(p, _). \<not> hasPrefix p ''*.'') (canonicalPairs toASCII ps)) @ exact i \<and>
    wildcards j = rev (filter (\<lambda>(p, _). hasPrefix p ''*.'') (canonicalPairs toASCII ps)) @ wildcards i \<and>
    (distinct (map fst (exact i)) \<and> distinct (map fst (wildcards i)) \<longrightarrow> distinct (map fst (exact j)) \<and> distinct (map fst (wildcards j)))"
  using assms
proof (induction ps arbitrary: i)
  case (Cons x ps)
  obtain p v where x: "x = (p, v)" by (cases x)
  with Cons.prems obtain k where k: "indexAdd toASCII i p v = Inr k" "addAll toASCII k ps = Inr j" by (auto simp: bindR_Inr_iff)
  from Cons.IH[OF k(2)] k(1) x show ?case
    by (auto simp: indexAdd_def Let_def canonicalPairs_def map_of_eq_None_iff split: if_splits)
qed (simp add: canonicalPairs_def)

lemma distinct_split:
  assumes "distinct (map fst (filter (\<lambda>(p, _). P p) xs))" and "distinct (map fst (filter (\<lambda>(p, _). \<not> P p) xs))"
  shows "distinct (map fst xs)"
  using assms by (induction xs) (auto split: if_splits)

lemma buildIndex_tables:
  assumes "buildIndex toASCII ps = Inr i"
  shows "distinct (map fst (canonicalPairs toASCII ps))"
    and "map_of (exact i) h = (if hasPrefix h ''*.'' then None else map_of (canonicalPairs toASCII ps) h)"
    and "map_of (wildcards i) h = (if hasPrefix h ''*.'' then map_of (canonicalPairs toASCII ps) h else None)"
proof -
  let ?c = "canonicalPairs toASCII ps"
  have t: "exact i = rev (filter (\<lambda>(p, _). \<not> hasPrefix p ''*.'') ?c)" "wildcards i = rev (filter (\<lambda>(p, _). hasPrefix p ''*.'') ?c)"
      "distinct (map fst (exact i))" "distinct (map fst (wildcards i))"
    using addAll_tables[OF assms[unfolded buildIndex_def], unfolded emptyIndex_def tlsNameIndex.select_convs append_Nil2 list.map
        distinct.simps(1)] by blast+
  show d: "distinct (map fst ?c)"
    by (rule distinct_split[where P = "\<lambda>p. hasPrefix p ''*.''"]) (use t in \<open>simp_all add: rev_map[symmetric]\<close>)
  have key: "map_of xs h = Some v \<longleftrightarrow> (h, v) \<in> set xs" if "distinct (map fst xs)" for v and xs :: "(string \<times> 'a) list"
    using that by (rule map_of_eq_Some_iff)
  show "map_of (exact i) h = (if hasPrefix h ''*.'' then None else map_of ?c h)"
    by (rule option_ext) (use key[OF t(3)] key[OF d] t(1) in auto)
  show "map_of (wildcards i) h = (if hasPrefix h ''*.'' then map_of ?c h else None)"
    by (rule option_ext) (use key[OF t(4)] key[OF d] t(2) in auto)
qed

lemma find_canonical:
  "List.find (\<lambda>(p, _). P (canonicalTLSName toASCII p)) ps = None \<longleftrightarrow> (\<forall>(p, v) \<in> set (canonicalPairs toASCII ps). \<not> P p)"
  "distinct (map fst (canonicalPairs toASCII ps)) \<Longrightarrow> List.find (\<lambda>(p, _). P (canonicalTLSName toASCII p)) ps = Some (q, v) \<Longrightarrow>
    map_of (canonicalPairs toASCII ps) (canonicalTLSName toASCII q) = Some v \<and> P (canonicalTLSName toASCII q)"
proof -
  show "List.find (\<lambda>(p, _). P (canonicalTLSName toASCII p)) ps = None \<longleftrightarrow> (\<forall>(p, v) \<in> set (canonicalPairs toASCII ps). \<not> P p)"
    by (auto simp: find_None_iff canonicalPairs_def)
  assume d: "distinct (map fst (canonicalPairs toASCII ps))"
    and f: "List.find (\<lambda>(p, _). P (canonicalTLSName toASCII p)) ps = Some (q, v)"
  then have "(q, v) \<in> set ps" "P (canonicalTLSName toASCII q)" by (auto simp: find_Some_iff dest!: nth_mem)
  then have "(canonicalTLSName toASCII q, v) \<in> set (canonicalPairs toASCII ps)" by (auto simp: canonicalPairs_def)
  with d \<open>P _\<close> show "map_of (canonicalPairs toASCII ps) (canonicalTLSName toASCII q) = Some v \<and> P (canonicalTLSName toASCII q)"
    by (simp add: map_of_eq_Some_iff)
qed

lemma indexLookup_declared:
  assumes "buildIndex toASCII ps = Inr i"
  shows "indexLookup toASCII i name = declaredFor (canonicalTLSName toASCII) ps (canonicalTLSName toASCII name)"
proof -
  let ?c = "canonicalPairs toASCII ps" and ?h = "canonicalTLSName toASCII name"
  note t = buildIndex_tables[OF assms]
  have ex: "map_option snd (List.find (\<lambda>(p, _). isExactFor (canonicalTLSName toASCII p) ?h) ps) = map_of (exact i) ?h"
  proof (cases "List.find (\<lambda>(p, _). isExactFor (canonicalTLSName toASCII p) ?h) ps")
    case None
    note no = iffD1[OF find_canonical(1)[where P = "\<lambda>p. isExactFor p ?h"] None]
    have "hasPrefix ?h ''*.'' \<or> map_of ?c ?h = None"
      using no by (cases "map_of ?c ?h") (auto simp: isExactFor_def dest!: map_of_SomeD)
    with None t(2) show ?thesis by auto
  next
    case (Some qv)
    obtain q v where qv: "qv = (q, v)" by (cases qv)
    from find_canonical(2)[where P = "\<lambda>p. isExactFor p ?h", OF t(1) Some[unfolded qv]] Some t(2) qv show ?thesis
      by (auto simp: isExactFor_def)
  qed
  have wi: "map_option snd (List.find (\<lambda>(p, _). isWildcardFor (canonicalTLSName toASCII p) ?h) ps) =
      (case cutByte ?h CHR ''.'' of None \<Rightarrow> None | Some (_, rest) \<Rightarrow> if rest \<noteq> [] then map_of (wildcards i) (''*.'' @ rest) else None)"
  proof (cases "List.find (\<lambda>(p, _). isWildcardFor (canonicalTLSName toASCII p) ?h) ps")
    case None
    note no = iffD1[OF find_canonical(1)[where P = "\<lambda>p. isWildcardFor p ?h"] None]
    have "map_of (wildcards i) (''*.'' @ rest) = None" if "cutByte ?h CHR ''.'' = Some (a, rest)" "rest \<noteq> []" for a rest
    proof (cases "map_of ?c (''*.'' @ rest)")
      case (Some v)
      with no that show ?thesis by (auto simp: isWildcardFor_def dest!: map_of_SomeD)
    qed (simp add: t(3))
    with None show ?thesis by (cases "cutByte ?h CHR ''.''") auto
  next
    case (Some qv)
    obtain q v where qv: "qv = (q, v)" by (cases qv)
    from find_canonical(2)[where P = "\<lambda>p. isWildcardFor p ?h", OF t(1) Some[unfolded qv]] Some t(3) qv show ?thesis
      by (auto simp: isWildcardFor_def split: option.splits)
  qed
  show ?thesis using ex wi by (auto simp: indexLookup_def declaredFor_def Let_def split: option.splits)
qed

interpretation tls_names: name_index "canonicalTLSName toASCII" "buildIndex toASCII" "indexLookup toASCII" for toASCII
proof
  fix ps :: "(string \<times> 'a) list" and i
  assume "buildIndex toASCII ps = Inr i"
  from buildIndex_tables(1)[OF this] show "distinct (map (canonicalTLSName toASCII \<circ> fst) ps)"
    by (simp add: canonicalPairs_def comp_def case_prod_beta)
qed (rule indexLookup_declared)

section \<open>Canonical names are trimmed\<close>

lemma trimTLSName_fixed: "trimSuffix (trimSpace (trimTLSName name)) ''.'' = trimTLSName name"
  by (induction name rule: trimTLSName.induct) (subst (1 2) trimTLSName.simps, simp add: Let_def)

lemma trimTLSName_idem [simp]: "trimTLSName (trimTLSName name) = trimTLSName name"
  by (subst trimTLSName.simps) (simp add: trimTLSName_fixed)

section \<open>Certificates do not depend on the order of their sources\<close>

text \<open>The declared names of the sources with the source each of them stands for.\<close>

definition getterOf :: "'c tlsServer \<Rightarrow> autoTLS \<Rightarrow> 'c certGetter option" where
  "getterOf s a = (if aDNS01 a \<or> aChallenge a = ChallengeHTTP01 then acmeManagers s a else autocertMgr s)"

definition acmeNames :: "'c tlsServer \<Rightarrow> autoTLS \<Rightarrow> (string \<times> 'c certGetter) list" where
  "acmeNames s a = (case getterOf s a of None \<Rightarrow> [] | Some g \<Rightarrow> map (\<lambda>d. (d, g)) (aDomains a))"

definition staticGetter :: "'c tlsServer \<Rightarrow> staticTLS \<Rightarrow> 'c certGetter" where
  "staticGetter s st = (\<lambda>_. case loadX509KeyPair s (stCertFile st) (stKeyFile st) of
     None \<Rightarrow> Inl (loadFailed (stCertFile st)) | Some c \<Rightarrow> Inr c)"

definition staticNames :: "'c tlsServer \<Rightarrow> staticTLS \<Rightarrow> (string \<times> 'c certGetter) list" where
  "staticNames s st = (if stHost st = [] then [] else [(stHost st, staticGetter s st)])"

definition hostless :: "staticTLS list \<Rightarrow> staticTLS list" where
  "hostless sts = filter (\<lambda>st. stHost st = []) sts"

lemma addDomains_names:
  "addDomains toASCII cr g ds = Inr cr' \<Longrightarrow>
   addAll toASCII (crNames cr) (map (\<lambda>d. (d, g)) ds) = Inr (crNames cr') \<and> crFallback cr' = crFallback cr"
proof (induction ds arbitrary: cr)
  case (Cons d ds)
  then obtain i where i: "indexAdd toASCII (crNames cr) d g = Inr i" "addDomains toASCII (cr\<lparr>crNames := i\<rparr>) g ds = Inr cr'"
    by (auto simp: routerAdd_def bindR_Inr_iff)
  from Cons.IH[OF i(2)] i(1) show ?case by simp
qed simp

lemma indexACMESources_names:
  "indexACMESources toASCII s cr as = Inr cr' \<Longrightarrow>
   addAll toASCII (crNames cr) (concat (map (acmeNames s) as)) = Inr (crNames cr') \<and> crFallback cr' = crFallback cr"
proof (induction as arbitrary: cr)
  case (Cons a as)
  obtain g cr0 cr1 where g: "getterOf s a = Some g" "addDomains toASCII cr0 g (aDomains a) = Inr cr1"
      "crNames cr0 = crNames cr" "crFallback cr0 = crFallback cr" "indexACMESources toASCII s cr1 as = Inr cr'"
  proof (cases "aDNS01 a \<or> aChallenge a = ChallengeHTTP01")
    case True
    with Cons.prems that[of _ cr] show ?thesis by (auto simp: bindR_Inr_iff getterOf_def split: option.splits)
  next
    case False
    with Cons.prems that[of _ "cr\<lparr>hasACMETLS := True\<rparr>"] show ?thesis by (auto simp: bindR_Inr_iff getterOf_def split: option.splits)
  qed
  from addDomains_names[OF g(2)] Cons.IH[OF g(5)] g(1,3,4) show ?case by (simp add: acmeNames_def addAll_append)
qed simp

lemma indexStaticSources_names:
  "indexStaticSources toASCII s cr sts = Inr cr' \<Longrightarrow>
   addAll toASCII (crNames cr) (concat (map (staticNames s) sts)) = Inr (crNames cr') \<and>
   crFallback cr' = (if hostless sts = [] then crFallback cr else Some (staticGetter s (last (hostless sts))))"
proof (induction sts arbitrary: cr)
  case (Cons st sts)
  then obtain c where c: "loadX509KeyPair s (stCertFile st) (stKeyFile st) = Some c" by (auto split: option.splits)
  then have g: "staticGetter s st = (\<lambda>_. Inr c)" by (simp add: staticGetter_def)
  show ?case
  proof (cases "stHost st = []")
    case True
    with Cons.prems c have "indexStaticSources toASCII s (cr\<lparr>crFallback := Some (\<lambda>_. Inr c)\<rparr>) sts = Inr cr'" by simp
    from Cons.IH[OF this] True g show ?thesis by (simp add: staticNames_def hostless_def)
  next
    case False
    with Cons.prems c obtain i where i: "indexAdd toASCII (crNames cr) (stHost st) (\<lambda>_. Inr c) = Inr i"
        "indexStaticSources toASCII s (cr\<lparr>crNames := i\<rparr>) sts = Inr cr'" by (auto simp: routerAdd_def bindR_Inr_iff)
    from Cons.IH[OF i(2)] i(1) False g show ?thesis by (simp add: staticNames_def hostless_def)
  qed
qed (simp add: hostless_def)

lemma buildCertRouter_names:
  assumes "buildCertRouter toASCII s as sts = Inr cr"
  shows "buildIndex toASCII (concat (map (acmeNames s) as) @ concat (map (staticNames s) sts)) = Inr (crNames cr)"
    and "crFallback cr = (if hostless sts = [] then None else Some (staticGetter s (last (hostless sts))))"
proof -
  from assms obtain cr0 where c: "indexACMESources toASCII s \<lparr>crNames = emptyIndex, crFallback = None, hasACMETLS = False\<rparr> as = Inr cr0"
      "indexStaticSources toASCII s cr0 sts = Inr cr" by (auto simp: buildCertRouter_def bindR_Inr_iff split: if_splits)
  from indexACMESources_names[OF c(1)] indexStaticSources_names[OF c(2)]
  show "buildIndex toASCII (concat (map (acmeNames s) as) @ concat (map (staticNames s) sts)) = Inr (crNames cr)"
    and "crFallback cr = (if hostless sts = [] then None else Some (staticGetter s (last (hostless sts))))"
    by (simp_all add: buildIndex_def addAll_append)
qed

lemma short_same_set: "length xs \<le> 1 \<Longrightarrow> length ys \<le> 1 \<Longrightarrow> set xs = set ys \<Longrightarrow> xs = ys"
  by (cases xs; cases ys) auto

text \<open>
  C27: The certificate of a handshake does not depend on the order of declarations.  Two listeners built from the same certificate sources
  in any order, with at most one fallback, answer every server name with the same certificate or the same error: exact names win
  over wildcards, and the fallback answers only names no source covers, in whatever order they were declared.
\<close>

theorem GetCertificate_order:
  assumes "buildCertRouter toASCII s as sts = Inr cr" and "buildCertRouter toASCII s as' sts' = Inr cr'"
    and "set as = set as'" and "set sts = set sts'" and "length (hostless sts) \<le> 1" and "length (hostless sts') \<le> 1"
  shows "GetCertificate toASCII cr hello = GetCertificate toASCII cr' hello"
proof -
  note b = buildCertRouter_names[OF assms(1)] and b' = buildCertRouter_names[OF assms(2)]
  have "indexLookup toASCII (crNames cr) n = indexLookup toASCII (crNames cr') n" for n
    by (rule tls_names.find_order[OF b(1) b'(1)]) (use assms(3,4) in simp)
  moreover have h: "hostless sts = hostless sts'"
    by (rule short_same_set) (use assms(4-6) in \<open>simp_all add: hostless_def\<close>)
  moreover have "crFallback cr = crFallback cr'" using b(2) b'(2) by (simp only: h)
  ultimately show ?thesis by (simp only: GetCertificate_def)
qed

definition demoServer :: "string tlsServer" where
  "demoServer = \<lparr>acmeManagers = (\<lambda>_. None), autocertMgr = None, loadX509KeyPair = (\<lambda>c k. Some c)\<rparr>"

definition demoSources :: "staticTLS list" where
  "demoSources = [\<lparr>stCertFile = ''w.pem'', stKeyFile = [], stHost = ''*.Example.''\<rparr>, \<lparr>stCertFile = ''d.pem'', stKeyFile = [], stHost = []\<rparr>,
     \<lparr>stCertFile = ''a.pem'', stKeyFile = [], stHost = ''a.example''\<rparr>]"

definition demoCertRouter :: "staticTLS list \<Rightarrow> string certRouter" where
  "demoCertRouter sts = (case buildCertRouter Some demoServer [] sts of Inr cr \<Rightarrow> cr
     | Inl _ \<Rightarrow> \<lparr>crNames = emptyIndex, crFallback = None, hasACMETLS = False\<rparr>)"

theorem GetCertificate_order_witness:
  "GetCertificate Some (demoCertRouter demoSources) ''A.example.'' = GetCertificate Some (demoCertRouter (rev demoSources)) ''A.example.'' \<and>
   GetCertificate Some (demoCertRouter demoSources) ''A.example.'' = Inr ''a.pem'' \<and>
   GetCertificate Some (demoCertRouter demoSources) ''b.example'' = Inr ''w.pem'' \<and>
   GetCertificate Some (demoCertRouter demoSources) ''c.b.example'' = Inr ''d.pem''"
proof -
  have "\<not> isl (buildCertRouter Some demoServer [] demoSources)" "\<not> isl (buildCertRouter Some demoServer [] (rev demoSources))" by code_simp+
  then have b: "buildCertRouter Some demoServer [] demoSources = Inr (demoCertRouter demoSources)"
      "buildCertRouter Some demoServer [] (rev demoSources) = Inr (demoCertRouter (rev demoSources))"
    by (auto simp: demoCertRouter_def split: sum.splits)
  have l: "length (hostless demoSources) \<le> 1" "length (hostless (rev demoSources)) \<le> 1" by code_simp+
  have s: "set demoSources = set (rev demoSources)" by simp
  have v: "GetCertificate Some (demoCertRouter demoSources) ''A.example.'' = Inr ''a.pem''"
    "GetCertificate Some (demoCertRouter demoSources) ''b.example'' = Inr ''w.pem''"
    "GetCertificate Some (demoCertRouter demoSources) ''c.b.example'' = Inr ''d.pem''" by code_simp+
  show ?thesis using GetCertificate_order[OF b refl s l, of "''A.example.''"] v by blast
qed

end
