(* ===== verification/Client_Auth.thy ===== *)
theory Client_Auth
  imports Tls_Names
begin

text \<open>
  Client certificates and TLS policies by host name: the declarations of \<^verbatim>\<open>src/clientauth.go\<close> and their validation, the
  compiled table of \<^verbatim>\<open>src/clientauth_table.go\<close> with its interned policies, the policy table and the strict certificate check of
  \<^verbatim>\<open>src/tls_policy_scoped.go\<close>, and the two admission handlers that compare the policy of a request's authority with that of
  its handshake.  The contents of a CA file are the parameter \<open>readPEM\<close>, the decoded PEM blocks of a path.
\<close>

section \<open>Declarations\<close>

text \<open>The declared modes are the numbers 1 to 5 of the source; a resolved mode is its name.\<close>

definition resolvedClientAuthMode :: "nat \<Rightarrow> tlsError + string" where
  "resolvedClientAuthMode mode =
     (if mode = 5 then Inr ''none'' else if mode = 1 then Inr ''request'' else if mode = 2 then Inr ''require-any''
      else if mode = 3 then Inr ''verify-if-given'' else if mode = 4 then Inr ''require-and-verify'' else Inl modeInvalid)"

definition clientAuthVerifies :: "nat \<Rightarrow> bool" where
  "clientAuthVerifies mode \<longleftrightarrow> mode = 3 \<or> mode = 4"

record ClientAuth =
  Mode :: string
  CAFiles :: "string list"

record ClientAuthPolicy =
  Hosts :: "string list"
  Policy :: ClientAuth

definition resolveClientAuthPolicy :: "nat \<Rightarrow> string list \<Rightarrow> tlsError + ClientAuth" where
  "resolveClientAuthPolicy mode files =
     bindR (resolvedClientAuthMode mode) (\<lambda>m.
     bindR (mapR (\<lambda>f. if trimSpace f = [] then Inl caFileEmpty else Inr (trimSpace f)) files) (\<lambda>fs.
       if clientAuthVerifies mode \<and> fs = [] then Inl caFileMissing
       else Inr \<lparr>Mode = m, CAFiles = fs\<rparr>))"

definition validateTLSWildcard :: "string \<Rightarrow> bool" where
  "validateTLSWildcard canonical \<longleftrightarrow>
     canonical \<noteq> ''*'' \<and> canonical \<noteq> ''*.'' \<and> \<not> containsByte (trimPrefix canonical ''*.'') CHR ''*''"

definition hostForbidden :: string where
  "hostForbidden = '':/'' @ [CHR 0x5C, CHR 0x20, CHR 0x09, CHR 0x0D, CHR 0x0A] @ ''@?#[]%''"

fun resolveHosts :: "(string \<Rightarrow> string option) \<Rightarrow> string list \<Rightarrow> string list \<Rightarrow> tlsError + (string list \<times> string list)" where
  "resolveHosts toASCII claimed [] = Inr ([], claimed)"
| "resolveHosts toASCII claimed (name # names) =
     (let host = canonicalTLSName toASCII name in
      if host = [] then Inl hostEmpty
      else if containsAny host hostForbidden then Inl (hostInvalid name)
      else if \<not> validateTLSWildcard host then Inl wildcardInvalid
      else if List.member claimed host then Inl (claimedTwice host)
      else bindR (resolveHosts toASCII (host # claimed) names) (\<lambda>(hosts, claimed). Inr (host # hosts, claimed)))"

record clientAuthPolicy =
  pHosts :: "string list"
  pMode :: nat
  pCAFiles :: "string list"

definition resolveScopedClientAuth ::
  "(string \<Rightarrow> string option) \<Rightarrow> clientAuthPolicy \<Rightarrow> string list \<Rightarrow> tlsError + (ClientAuthPolicy \<times> string list)" where
  "resolveScopedClientAuth toASCII p claimed =
     (if pHosts p = [] then Inl hostsMissing
      else bindR (resolveHosts toASCII claimed (pHosts p)) (\<lambda>(hosts, claimed).
        bindR (resolveClientAuthPolicy (pMode p) (pCAFiles p)) (\<lambda>policy.
          Inr (\<lparr>Hosts = hosts, Policy = policy\<rparr>, claimed))))"

fun resolveBindings ::
  "(string \<Rightarrow> string option) \<Rightarrow> string list \<Rightarrow> clientAuthPolicy list \<Rightarrow> tlsError + ClientAuthPolicy list" where
  "resolveBindings toASCII claimed [] = Inr []"
| "resolveBindings toASCII claimed (p # ps) =
     bindR (resolveScopedClientAuth toASCII p claimed) (\<lambda>(b, claimed).
     bindR (resolveBindings toASCII claimed ps) (\<lambda>bs. Inr (b # bs)))"

record authListener =
  lScheme :: string
  lRedirect :: string
  lClientAuth :: "(nat \<times> string list) list"
  lClientAuthPolicies :: "clientAuthPolicy list"

definition resolveClientAuth ::
  "(string \<Rightarrow> string option) \<Rightarrow> authListener \<Rightarrow> tlsError + (ClientAuth option \<times> ClientAuthPolicy list)" where
  "resolveClientAuth toASCII l =
     (if lClientAuth l = [] \<and> lClientAuthPolicies l = [] then Inr (None, [])
      else if length (lClientAuth l) > 1 then Inl policyTwice
      else if lScheme l \<noteq> ''https'' then Inl notHTTPS
      else if lRedirect l \<noteq> [] then Inl redirectOnly
      else bindR (case lClientAuth l of [] \<Rightarrow> Inr None
                  | (mode, files) # _ \<Rightarrow> bindR (resolveClientAuthPolicy mode files) (\<lambda>p. Inr (Some p))) (\<lambda>d.
        bindR (resolveBindings toASCII [] (lClientAuthPolicies l)) (\<lambda>bs. Inr (d, bs))))"

section \<open>The compiled table\<close>

datatype ClientAuthType =
  NoClientCert | RequestClientCert | RequireAnyClientCert | VerifyClientCertIfGiven | RequireAndVerifyClientCert

record compiledClientAuth =
  caId :: nat
  caMode :: ClientAuthType
  caDer :: "string list"

record pemBlock =
  pbType :: string
  pbHeaders :: nat
  pbCert :: "string option"

type_synonym pemFiles = "string \<Rightarrow> pemBlock list option"

definition loadClientCACertificates :: "pemFiles \<Rightarrow> string \<Rightarrow> tlsError + string list" where
  "loadClientCACertificates readPEM path = (case readPEM path of
       None \<Rightarrow> Inl caFileUnreadable
     | Some blocks \<Rightarrow>
         (let certs = List.map_filter (\<lambda>b. if pbType b \<noteq> ''CERTIFICATE'' \<or> pbHeaders b \<noteq> 0 then None else pbCert b) blocks
          in if certs = [] then Inl caFileEmpty else Inr certs))"

definition compileClientAuthMode :: "string \<Rightarrow> tlsError + ClientAuthType" where
  "compileClientAuthMode mode =
     (if mode = ''none'' then Inr NoClientCert else if mode = ''request'' then Inr RequestClientCert
      else if mode = ''require-any'' then Inr RequireAnyClientCert
      else if mode = ''verify-if-given'' then Inr VerifyClientCertIfGiven
      else if mode = ''require-and-verify'' then Inr RequireAndVerifyClientCert else Inl modeInvalid)"

definition compileClientAuth :: "pemFiles \<Rightarrow> ClientAuth option \<Rightarrow> tlsError + compiledClientAuth" where
  "compileClientAuth readPEM policy = (case policy of
       None \<Rightarrow> Inr \<lparr>caId = 0, caMode = NoClientCert, caDer = []\<rparr>
     | Some p \<Rightarrow>
         bindR (compileClientAuthMode (Mode p)) (\<lambda>mode.
           if CAFiles p = [] then
             (if mode = VerifyClientCertIfGiven \<or> mode = RequireAndVerifyClientCert then Inl caFileMissing
              else Inr \<lparr>caId = 0, caMode = mode, caDer = []\<rparr>)
           else bindR (mapR (loadClientCACertificates readPEM) (CAFiles p)) (\<lambda>ders.
             Inr \<lparr>caId = 0, caMode = mode, caDer = compact (sort (concat ders))\<rparr>)))"

record clientAuthTable =
  caNames :: "compiledClientAuth tlsNameIndex"
  defaultAuth :: compiledClientAuth
  scoped :: bool

fun internLoop :: "compiledClientAuth list \<Rightarrow> compiledClientAuth \<Rightarrow> compiledClientAuth option" where
  "internLoop [] candidate = None"
| "internLoop (existing # ps) candidate =
     (if caMode existing = caMode candidate \<and> caDer existing = caDer candidate then Some existing else internLoop ps candidate)"

definition internClientAuth :: "compiledClientAuth list \<Rightarrow> compiledClientAuth \<Rightarrow> compiledClientAuth list \<times> compiledClientAuth" where
  "internClientAuth policies candidate = (case internLoop policies candidate of
       Some existing \<Rightarrow> (policies, existing)
     | None \<Rightarrow> (let c = candidate\<lparr>caId := length policies\<rparr> in (policies @ [c], c)))"

fun addHosts ::
  "(string \<Rightarrow> string option) \<Rightarrow> 'v tlsNameIndex \<Rightarrow> 'v \<Rightarrow> string list \<Rightarrow> tlsError + 'v tlsNameIndex" where
  "addHosts toASCII index v [] = Inr index"
| "addHosts toASCII index v (h # hs) = bindR (indexAdd toASCII index h v) (\<lambda>index. addHosts toASCII index v hs)"

fun buildPolicies ::
  "(string \<Rightarrow> string option) \<Rightarrow> pemFiles \<Rightarrow> compiledClientAuth tlsNameIndex \<Rightarrow> compiledClientAuth list \<Rightarrow> ClientAuthPolicy list \<Rightarrow>
   tlsError + (compiledClientAuth tlsNameIndex \<times> compiledClientAuth list)" where
  "buildPolicies toASCII readPEM names policies [] = Inr (names, policies)"
| "buildPolicies toASCII readPEM names policies (b # bs) =
     bindR (compileClientAuth readPEM (Some (Policy b))) (\<lambda>candidate.
       case internClientAuth policies candidate of (policies, policy) \<Rightarrow>
         bindR (addHosts toASCII names policy (Hosts b)) (\<lambda>names. buildPolicies toASCII readPEM names policies bs))"

definition buildClientAuthTable ::
  "(string \<Rightarrow> string option) \<Rightarrow> pemFiles \<Rightarrow> ClientAuth option \<Rightarrow> ClientAuthPolicy list \<Rightarrow> tlsError + clientAuthTable" where
  "buildClientAuthTable toASCII readPEM d bs =
     bindR (compileClientAuth readPEM d) (\<lambda>fallback.
     bindR (buildPolicies toASCII readPEM emptyIndex [fallback] bs) (\<lambda>(names, _).
       Inr \<lparr>caNames = names, defaultAuth = fallback, scoped = (bs \<noteq> [])\<rparr>))"

definition selectPolicy :: "(string \<Rightarrow> string option) \<Rightarrow> clientAuthTable \<Rightarrow> string \<Rightarrow> compiledClientAuth" where
  "selectPolicy toASCII table name = (case indexLookup toASCII (caNames table) name of
       Some policy \<Rightarrow> policy
     | None \<Rightarrow> defaultAuth table)"

definition requiresCertificate :: "compiledClientAuth \<Rightarrow> bool" where
  "requiresCertificate p \<longleftrightarrow> caMode p = RequireAnyClientCert \<or> caMode p = RequireAndVerifyClientCert"

section \<open>Admission\<close>

text \<open>\<^verbatim>\<open>net.ParseIP\<close> accepts the addresses without a zone.\<close>

definition ParseIP :: "string \<Rightarrow> bool" where
  "ParseIP s \<longleftrightarrow> (case ParseAddr s of None \<Rightarrow> False | Some a \<Rightarrow> \<not> hasZone a)"

definition validAuthorityPort :: "string \<Rightarrow> bool" where
  "validAuthorityPort port \<longleftrightarrow> list_all isDigit port \<and> (case parseDec port of None \<Rightarrow> False | Some n \<Rightarrow> n < 65536)"

definition authorityForbidden :: string where
  "authorityForbidden = [CHR 0x20, CHR ''/'', CHR 0x5C, CHR 0x09, CHR 0x0D, CHR 0x0A] @ ''@?#[]%*''"

definition authorityName :: "(string \<Rightarrow> string option) \<Rightarrow> string \<Rightarrow> string \<times> bool" where
  "authorityName toASCII name =
     (if name = [] \<or> containsAny name authorityForbidden then ([], False)
      else let host = canonicalTLSName toASCII name in (host, host \<noteq> []))"

definition clientAuthAuthority :: "(string \<Rightarrow> string option) \<Rightarrow> string \<Rightarrow> string \<times> bool" where
  "clientAuthAuthority toASCII name =
     (if hasPrefix name ''['' \<and> hasSuffix name '']'' then
        (let ip = trimSuffix (trimPrefix name ''['') '']'' in (ip, ParseIP ip))
      else if containsByte name CHR '':'' then
        (case SplitHostPort name of
           None \<Rightarrow> ([], False)
         | Some (host, port) \<Rightarrow>
             if \<not> validAuthorityPort port then ([], False)
             else if containsByte host CHR '':'' then (host, ParseIP host)
             else authorityName toASCII host)
      else authorityName toASCII name)"

text \<open>The verdict of an admission handler: \<open>None\<close> to serve the request, or the status of the refusal.  The TLS state of a
  connection is its server name, \<open>None\<close> without TLS.\<close>

definition clientAuthAdmission :: "(string \<Rightarrow> string option) \<Rightarrow> clientAuthTable option \<Rightarrow> string \<Rightarrow> string option \<Rightarrow> int option" where
  "clientAuthAdmission toASCII table hostHeader tls = (case table of
       None \<Rightarrow> None
     | Some t \<Rightarrow>
         if \<not> scoped t then None
         else (case clientAuthAuthority toASCII hostHeader of (host, valid) \<Rightarrow>
           case tls of
             None \<Rightarrow> Some 421
           | Some sni \<Rightarrow>
               if \<not> valid \<or> caId (selectPolicy toASCII t host) \<noteq> caId (selectPolicy toASCII t sni) then Some 421 else None))"

section \<open>TLS policies by host name\<close>

record TLSPolicy =
  StrictSNI :: bool
  Identity :: string
  MinVersion :: string
  MaxVersion :: string
  CipherSuites :: "string list"

record tlsPolicyTable =
  tpNames :: "TLSPolicy tlsNameIndex"
  tpFallback :: "TLSPolicy option"

fun addPolicies ::
  "(string \<Rightarrow> string option) \<Rightarrow> TLSPolicy tlsNameIndex \<Rightarrow> (string list \<times> TLSPolicy) list \<Rightarrow> tlsError + TLSPolicy tlsNameIndex" where
  "addPolicies toASCII names [] = Inr names"
| "addPolicies toASCII names ((hosts, p) # bs) =
     bindR (addHosts toASCII names p hosts) (\<lambda>names. addPolicies toASCII names bs)"

definition buildTLSPolicyTable ::
  "(string \<Rightarrow> string option) \<Rightarrow> TLSPolicy option \<Rightarrow> (string list \<times> TLSPolicy) list \<Rightarrow> tlsError + tlsPolicyTable" where
  "buildTLSPolicyTable toASCII d bs =
     bindR (addPolicies toASCII emptyIndex bs) (\<lambda>names. Inr \<lparr>tpNames = names, tpFallback = d\<rparr>)"

definition selectTLSPolicy :: "(string \<Rightarrow> string option) \<Rightarrow> tlsPolicyTable option \<Rightarrow> string \<Rightarrow> TLSPolicy option" where
  "selectTLSPolicy toASCII t host = (case t of
       None \<Rightarrow> None
     | Some t \<Rightarrow> (case indexLookup toASCII (tpNames t) host of Some policy \<Rightarrow> Some policy | None \<Rightarrow> tpFallback t))"

definition tlsPolicyAdmission :: "(string \<Rightarrow> string option) \<Rightarrow> tlsPolicyTable option \<Rightarrow> string \<Rightarrow> string option \<Rightarrow> int option" where
  "tlsPolicyAdmission toASCII table hostHeader tls = (case table of
       None \<Rightarrow> None
     | Some t \<Rightarrow>
         if length (exact (tpNames t)) + length (wildcards (tpNames t)) = 0 then None
         else (case clientAuthAuthority toASCII hostHeader of (auth, valid) \<Rightarrow>
           case tls of
             None \<Rightarrow> None
           | Some sni \<Rightarrow>
               if \<not> valid \<or> selectTLSPolicy toASCII table sni \<noteq> selectTLSPolicy toASCII table auth then Some 421 else None))"

text \<open>\<open>verifyHostname\<close> tells whether the leaf of a certificate covers a name; it is false for a certificate without a leaf.\<close>

definition strictSNICertificate ::
  "(string \<Rightarrow> string option) \<Rightarrow> ('c \<Rightarrow> string \<Rightarrow> bool) \<Rightarrow> 'c certRouter \<Rightarrow> tlsPolicyTable option \<Rightarrow> string \<Rightarrow> tlsError + 'c" where
  "strictSNICertificate toASCII verifyHostname router table hello =
     (let policy = selectTLSPolicy toASCII table hello;
          strict = (case policy of None \<Rightarrow> False | Some p \<Rightarrow> StrictSNI p)
      in if strict \<and> hello = [] then Inl sniRequired
         else bindR (GetCertificate toASCII router hello) (\<lambda>certificate.
           if strict \<and> \<not> verifyHostname certificate (canonicalTLSName toASCII hello) then Inl sniUncovered
           else Inr certificate))"

section \<open>Interned policies\<close>

text \<open>The identifier of a policy is its position, and no two policies of the list agree in mode and certificates.\<close>

definition policyKey :: "compiledClientAuth \<Rightarrow> ClientAuthType \<times> string list" where
  "policyKey p = (caMode p, caDer p)"

definition wfPolicies :: "compiledClientAuth list \<Rightarrow> bool" where
  "wfPolicies ps \<longleftrightarrow> map caId ps = [0..<length ps] \<and> distinct (map policyKey ps) \<and>
     list_all (\<lambda>p. sorted (caDer p) \<and> distinct (caDer p)) ps"

lemma wfPolicies_id:
  assumes "wfPolicies ps" and "p \<in> set ps" and "q \<in> set ps"
  shows "caId p = caId q \<longleftrightarrow> caMode p = caMode q \<and> set (caDer p) = set (caDer q)"
proof -
  have "distinct (map caId ps)" "distinct (map policyKey ps)" using assms(1) by (simp_all add: wfPolicies_def)
  then have i: "inj_on caId (set ps)" "inj_on policyKey (set ps)" by (simp_all only: distinct_map)
  have "caId p = caId q \<longleftrightarrow> p = q" by (rule inj_on_eq_iff[OF i(1) assms(2,3)])
  also have "\<dots> \<longleftrightarrow> policyKey p = policyKey q" by (rule inj_on_eq_iff[OF i(2) assms(2,3), symmetric])
  also have "\<dots> \<longleftrightarrow> caMode p = caMode q \<and> set (caDer p) = set (caDer q)"
    using assms sorted_distinct_set_unique[of "caDer p" "caDer q"] by (auto simp: policyKey_def wfPolicies_def list_all_iff)
  finally show ?thesis .
qed

lemma compileClientAuth_wf: "compileClientAuth readPEM policy = Inr p \<Longrightarrow> caId p = 0 \<and> sorted (caDer p) \<and> distinct (caDer p)"
  by (auto simp: compileClientAuth_def bindR_Inr_iff sorted_compact distinct_compact split: option.splits if_splits)

lemma internLoop_Some: "internLoop ps c = Some p \<Longrightarrow> p \<in> set ps \<and> policyKey p = policyKey c"
  by (induction ps) (auto simp: policyKey_def split: if_splits)

lemma internLoop_None: "internLoop ps c = None \<Longrightarrow> policyKey c \<notin> policyKey ` set ps"
  by (induction ps) (auto simp: policyKey_def split: if_splits)

lemma internClientAuth_wf:
  assumes "wfPolicies ps" and "sorted (caDer c)" and "distinct (caDer c)" and "internClientAuth ps c = (ps', p)"
  shows "wfPolicies ps' \<and> set ps \<subseteq> set ps' \<and> p \<in> set ps' \<and> policyKey p = policyKey c"
proof (cases "internLoop ps c")
  case None
  have "policyKey (c\<lparr>caId := length ps\<rparr>) = policyKey c" by (simp add: policyKey_def)
  with None assms internLoop_None[OF None] show ?thesis by (auto simp: internClientAuth_def wfPolicies_def Let_def)
next
  case (Some q)
  with assms internLoop_Some[OF Some] show ?thesis by (auto simp: internClientAuth_def)
qed

lemma addHosts_addAll: "addHosts toASCII i v hs = addAll toASCII i (map (\<lambda>h. (h, v)) hs)"
  by (induction hs arbitrary: i) auto

text \<open>The names of a table are those of the bindings, each with an interned policy that has the mode and the certificates of its
  binding.\<close>

lemma buildPolicies_pairs:
  assumes "buildPolicies toASCII readPEM names ps bs = Inr (names', ps')" and "wfPolicies ps"
  shows "wfPolicies ps' \<and> set ps \<subseteq> set ps' \<and>
    (\<exists>pairs. addAll toASCII names pairs = Inr names' \<and> snd ` set pairs \<subseteq> set ps' \<and>
       map fst pairs = concat (map Hosts bs) \<and>
       (\<forall>(h, p) \<in> set pairs. \<exists>b\<in>set bs. h \<in> set (Hosts b) \<and>
          (\<exists>c. compileClientAuth readPEM (Some (Policy b)) = Inr c \<and> policyKey p = policyKey c)))"
  using assms
proof (induction bs arbitrary: names ps)
  case (Cons b bs)
  obtain c where c0: "compileClientAuth readPEM (Some (Policy b)) = Inr c" using Cons.prems(1) by (auto simp: bindR_Inr_iff)
  obtain ps1 p where p: "internClientAuth ps c = (ps1, p)" by fastforce
  obtain i where c: "compileClientAuth readPEM (Some (Policy b)) = Inr c" "internClientAuth ps c = (ps1, p)"
      "addHosts toASCII names p (Hosts b) = Inr i" "buildPolicies toASCII readPEM i ps1 bs = Inr (names', ps')"
    using Cons.prems(1) c0 p by (auto simp: bindR_Inr_iff)
  have w: "wfPolicies ps1 \<and> set ps \<subseteq> set ps1 \<and> p \<in> set ps1 \<and> policyKey p = policyKey c"
    using internClientAuth_wf[OF Cons.prems(2) _ _ c(2)] compileClientAuth_wf[OF c(1)] by blast
  from Cons.IH[OF c(4)] w obtain pairs where ih: "wfPolicies ps'" "set ps1 \<subseteq> set ps'" "addAll toASCII i pairs = Inr names'"
      "snd ` set pairs \<subseteq> set ps'" "map fst pairs = concat (map Hosts bs)"
      "\<forall>(h, p) \<in> set pairs. \<exists>b\<in>set bs. h \<in> set (Hosts b) \<and>
          (\<exists>c. compileClientAuth readPEM (Some (Policy b)) = Inr c \<and> policyKey p = policyKey c)" by blast
  let ?pairs = "map (\<lambda>h. (h, p)) (Hosts b) @ pairs"
  have "addAll toASCII names ?pairs = Inr names'" using c(3) ih(3) by (simp add: addHosts_addAll addAll_append)
  moreover have "snd ` set ?pairs \<subseteq> set ps'" using ih(2,4) w by auto
  moreover have "map fst ?pairs = concat (map Hosts (b # bs))" using ih(5) by (simp add: comp_def)
  moreover have "\<forall>(h, p) \<in> set ?pairs. \<exists>b'\<in>set (b # bs). h \<in> set (Hosts b') \<and>
      (\<exists>c. compileClientAuth readPEM (Some (Policy b')) = Inr c \<and> policyKey p = policyKey c)"
    using ih(6) c(1) w by fastforce
  ultimately show ?case using ih(1,2) w by (intro conjI exI[of _ ?pairs]) auto
qed (auto intro: exI[of _ "[]"])

lemma buildClientAuthTable_policies:
  assumes "buildClientAuthTable toASCII readPEM d bs = Inr table"
  shows "\<exists>ps. wfPolicies ps \<and> (\<forall>name. selectPolicy toASCII table name \<in> set ps)"
proof -
  from assms obtain c names ps where b: "compileClientAuth readPEM d = Inr c"
      "buildPolicies toASCII readPEM emptyIndex [c] bs = Inr (names, ps)" "table = \<lparr>caNames = names, defaultAuth = c, scoped = (bs \<noteq> [])\<rparr>"
    by (auto simp: buildClientAuthTable_def bindR_Inr_iff)
  have "wfPolicies [c]" using compileClientAuth_wf[OF b(1)] by (simp add: wfPolicies_def)
  from buildPolicies_pairs[OF b(2) this] obtain pairs where p: "wfPolicies ps" "set [c] \<subseteq> set ps"
      "addAll toASCII emptyIndex pairs = Inr names" "snd ` set pairs \<subseteq> set ps" by blast
  from p(3) have i: "buildIndex toASCII pairs = Inr names" by (simp add: buildIndex_def)
  have "selectPolicy toASCII table name \<in> set ps" for name
  proof (cases "indexLookup toASCII names name")
    case (Some v)
    from tls_names.find_sound[OF i Some] p(4) have "v \<in> set ps" by force
    with Some b(3) show ?thesis by (simp add: selectPolicy_def)
  qed (use p(2) b(3) in \<open>simp add: selectPolicy_def\<close>)
  with p(1) show ?thesis by blast
qed

text \<open>
  C24: No request borrows the client authentication of another name.  On a listener with scoped client-certificate policies, a request is served
  exactly when it came over TLS, its authority is a valid host, and the policy of that authority demands the same mode with the same set
  of CA certificates as the policy the handshake was made under; every other request is answered 421.  Which files the
  certificates came from, their order and their repetitions do not matter.
\<close>

theorem clientAuthAdmission_policy:
  assumes "buildClientAuthTable toASCII readPEM d bs = Inr table" and "bs \<noteq> []"
  shows "clientAuthAdmission toASCII (Some table) hostHeader tls =
    (case (clientAuthAuthority toASCII hostHeader, tls) of
       ((host, True), Some sni) \<Rightarrow>
         let p = selectPolicy toASCII table host; q = selectPolicy toASCII table sni
         in if caMode p = caMode q \<and> set (caDer p) = set (caDer q) then None else Some 421
     | _ \<Rightarrow> Some 421)"
proof -
  from buildClientAuthTable_policies[OF assms(1)] obtain ps where ps: "wfPolicies ps" "\<And>name. selectPolicy toASCII table name \<in> set ps"
    by blast
  have "scoped table" using assms by (auto simp: buildClientAuthTable_def bindR_Inr_iff)
  then show ?thesis using wfPolicies_id[OF ps(1) ps(2) ps(2)]
    by (auto simp: clientAuthAdmission_def Let_def split: option.split prod.split bool.split)
qed

definition demoBindings :: "ClientAuthPolicy list" where
  "demoBindings =
     [\<lparr>Hosts = [''a.example''], Policy = \<lparr>Mode = ''require-and-verify'', CAFiles = [''ca.pem'', ''cb.pem'']\<rparr>\<rparr>,
      \<lparr>Hosts = [''*.b.example''], Policy = \<lparr>Mode = ''require-and-verify'', CAFiles = [''cb.pem'', ''ca.pem'', ''ca.pem'']\<rparr>\<rparr>,
      \<lparr>Hosts = [''c.example''], Policy = \<lparr>Mode = ''request'', CAFiles = []\<rparr>\<rparr>]"

definition demoPEM :: pemFiles where
  "demoPEM path = Some [\<lparr>pbType = ''CERTIFICATE'', pbHeaders = 0, pbCert = Some path\<rparr>]"

definition demoAuthTable :: clientAuthTable where
  "demoAuthTable = (case buildClientAuthTable Some demoPEM None demoBindings of Inr t \<Rightarrow> t
     | Inl _ \<Rightarrow> \<lparr>caNames = emptyIndex, defaultAuth = \<lparr>caId = 0, caMode = NoClientCert, caDer = []\<rparr>, scoped = False\<rparr>)"

theorem clientAuthAdmission_policy_witness:
  "clientAuthAdmission Some (Some demoAuthTable) ''x.b.example'' (Some ''a.example'') = None \<and>
   clientAuthAdmission Some (Some demoAuthTable) ''c.example'' (Some ''a.example'') = Some 421"
proof -
  have "\<not> isl (buildClientAuthTable Some demoPEM None demoBindings)" by code_simp
  then have b: "buildClientAuthTable Some demoPEM None demoBindings = Inr demoAuthTable"
    by (auto simp: demoAuthTable_def split: sum.splits)
  have n: "demoBindings \<noteq> []" by (simp add: demoBindings_def)
  have a: "clientAuthAuthority Some ''x.b.example'' = (''x.b.example'', True)" "clientAuthAuthority Some ''c.example'' = (''c.example'', True)"
    by code_simp+
  have s: "caMode (selectPolicy Some demoAuthTable ''x.b.example'') = caMode (selectPolicy Some demoAuthTable ''a.example'') \<and>
      set (caDer (selectPolicy Some demoAuthTable ''x.b.example'')) = set (caDer (selectPolicy Some demoAuthTable ''a.example''))"
    "caMode (selectPolicy Some demoAuthTable ''c.example'') \<noteq> caMode (selectPolicy Some demoAuthTable ''a.example'')"
    by code_simp+
  show ?thesis
    using clientAuthAdmission_policy[OF b n, of "''x.b.example''" "Some ''a.example''"]
      clientAuthAdmission_policy[OF b n, of "''c.example''" "Some ''a.example''"] a s by simp
qed

end
