(* ===== verification/Cors.thy ===== *)
theory Cors
  imports Cache_Policy
begin

text \<open>
  Cross-origin policy (\<^verbatim>\<open>src/cors.go\<close>): the resolved settings, the headers a response gets and the answer to a preflight, and the
  security headers of \<^verbatim>\<open>src/security_headers.go\<close>.  Durations are integers of nanoseconds; \<^verbatim>\<open>int(d.Seconds())\<close> is their
  integer quotient, which the float of \<^verbatim>\<open>Seconds\<close> gives for every whole number of seconds and for every duration below \<open>2^22\<close> seconds
  (beyond, a fraction next to a whole second may be rounded up to it).
\<close>

section \<open>Headers\<close>

text \<open>\<^verbatim>\<open>Header.Set\<close> and \<^verbatim>\<open>Header.Add\<close> on a header with distinct keys; all names written here are canonical.\<close>

definition rawSet :: "rawHeader \<Rightarrow> string \<Rightarrow> string \<Rightarrow> rawHeader" where
  "rawSet h name v = (name, [v]) # filter (\<lambda>(k, _). k \<noteq> name) h"

definition rawAdd :: "rawHeader \<Rightarrow> string \<Rightarrow> string \<Rightarrow> rawHeader" where
  "rawAdd h name v = (let old = (case map_of h name of None \<Rightarrow> [] | Some vs \<Rightarrow> vs)
     in (name, old @ [v]) # filter (\<lambda>(k, _). k \<noteq> name) h)"

definition varies :: "rawHeader \<Rightarrow> string \<Rightarrow> bool" where
  "varies h v \<longleftrightarrow> list_ex (\<lambda>(name, vs). equalFold name ''Vary'' \<and>
     list_ex (\<lambda>current. list_ex (\<lambda>part. equalFold (trimSpace part) v) (splitByte current CHR '','')) vs) h"

definition appendVary :: "rawHeader \<Rightarrow> string \<Rightarrow> rawHeader" where
  "appendVary h v = (if varies h v then h else rawAdd h ''Vary'' v)"

section \<open>Settings\<close>

record corsMW =
  origins :: "string list"
  methods :: "string list"
  headers :: "string list"
  exposeHeaders :: "string list"
  credentials :: bool
  maxAge :: string

record corsSettings =
  CORSAllowAllOrigin :: bool
  CORSOrigins :: "string list"
  CORSMethods :: "string list"
  CORSHeaders :: "string list"
  CORSExposeHeaders :: "string list"
  CORSCredentials :: bool
  CORSMaxAge :: int

datatype corsError = corsNoOrigin | corsCredentialedWildcard | corsMaxAgeInvalid

definition newCORS :: corsMW where
  "newCORS = \<lparr>origins = [], methods = [''GET'', ''HEAD'', ''POST'', ''PUT'', ''PATCH'', ''DELETE'', ''OPTIONS''], headers = [],
     exposeHeaders = [], credentials = False, maxAge = []\<rparr>"

text \<open>\<open>duration\<close> reads a duration string.\<close>

definition resolveCORSMW :: "(string \<Rightarrow> int option) \<Rightarrow> corsMW \<Rightarrow> corsError + corsSettings" where
  "resolveCORSMW duration m =
     (if origins m = [] then Inl corsNoOrigin
      else let allowAll = List.member (origins m) ''*''; explicit = filter (\<lambda>o'. o' \<noteq> ''*'') (origins m) in
        if allowAll \<and> credentials m then Inl corsCredentialedWildcard
        else bindR (if maxAge m = [] then Inr 0 else case duration (maxAge m) of None \<Rightarrow> Inl corsMaxAgeInvalid | Some d \<Rightarrow> Inr d) (\<lambda>age.
          Inr \<lparr>CORSAllowAllOrigin = allowAll, CORSOrigins = explicit, CORSMethods = methods m, CORSHeaders = headers m,
            CORSExposeHeaders = exposeHeaders m, CORSCredentials = credentials m, CORSMaxAge = age\<rparr>))"

section \<open>Responses\<close>

definition setCORSResponseHeaders :: "rawHeader \<Rightarrow> string \<Rightarrow> bool \<Rightarrow> bool \<Rightarrow> string \<Rightarrow> rawHeader" where
  "setCORSResponseHeaders w origin allowAll creds exposeHeader =
     (let w = (if allowAll then rawSet w ''Access-Control-Allow-Origin'' ''*'' else rawSet w ''Access-Control-Allow-Origin'' origin);
          w = (if creds then rawSet w ''Access-Control-Allow-Credentials'' ''true'' else w)
      in if exposeHeader \<noteq> [] then rawSet w ''Access-Control-Expose-Headers'' exposeHeader else w)"

definition setCORSPreflightHeaders :: "rawHeader \<Rightarrow> rawHeader \<Rightarrow> string \<Rightarrow> string \<Rightarrow> string \<Rightarrow> rawHeader" where
  "setCORSPreflightHeaders w r methodsHeader headersHeader age =
     (let w = (if methodsHeader \<noteq> [] then rawSet w ''Access-Control-Allow-Methods'' methodsHeader else w);
          reqHeaders = rawGet r ''Access-Control-Request-Headers'';
          w = (if headersHeader \<noteq> [] then rawSet w ''Access-Control-Allow-Headers'' headersHeader
               else if reqHeaders \<noteq> [] then rawSet w ''Access-Control-Allow-Headers'' reqHeaders else w)
      in if age \<noteq> [] then rawSet w ''Access-Control-Max-Age'' age else w)"

datatype corsOutcome = corsServe (corsHeaders: rawHeader) | corsAnswer int (corsHeaders: rawHeader)

definition corsHandler :: "corsSettings \<Rightarrow> rawHeader \<Rightarrow> string \<Rightarrow> rawHeader \<Rightarrow> corsOutcome" where
  "corsHandler m w meth r =
     (let age = (if CORSMaxAge m > 0 then showDec (nat (CORSMaxAge m div 1000000000)) else []);
          origin = rawGet r ''Origin'';
          w = appendVary w ''Origin'';
          matched = (CORSAllowAllOrigin m \<or> origin \<noteq> [] \<and> List.member (CORSOrigins m) origin)
      in if \<not> matched \<and> origin = [] then corsServe w
         else let w = (if matched then setCORSResponseHeaders w origin (CORSAllowAllOrigin m) (CORSCredentials m)
                         (joinStrings (CORSExposeHeaders m) '', '') else w)
           in if meth = ''OPTIONS'' \<and> rawGet r ''Access-Control-Request-Method'' \<noteq> [] then
                corsAnswer 204 (if matched then setCORSPreflightHeaders w r (joinStrings (CORSMethods m) '', '')
                  (joinStrings (CORSHeaders m) '', '') age else w)
              else corsServe w)"

section \<open>Security headers\<close>

record secSettings =
  SecContentTypeOptions :: bool
  SecFrameOptions :: string
  SecReferrerPolicy :: string
  SecHSTS :: string
  SecCSP :: string
  SecPermissionsPolicy :: string

definition securityHeadersHandler :: "secSettings \<Rightarrow> rawHeader \<Rightarrow> rawHeader" where
  "securityHeadersHandler m h =
     (let h = (if SecContentTypeOptions m then rawSet h ''X-Content-Type-Options'' ''nosniff'' else h);
          h = (if SecFrameOptions m \<noteq> [] then rawSet h ''X-Frame-Options'' (SecFrameOptions m) else h);
          h = (if SecReferrerPolicy m \<noteq> [] then rawSet h ''Referrer-Policy'' (SecReferrerPolicy m) else h);
          h = (if SecHSTS m \<noteq> [] then rawSet h ''Strict-Transport-Security'' (SecHSTS m) else h);
          h = (if SecCSP m \<noteq> [] then rawSet h ''Content-Security-Policy'' (SecCSP m) else h)
      in if SecPermissionsPolicy m \<noteq> [] then rawSet h ''Permissions-Policy'' (SecPermissionsPolicy m) else h)"

definition formatHSTS :: "int \<Rightarrow> string" where
  "formatHSTS age = (if age \<le> 0 then [] else ''max-age='' @ showDec (nat (age div 1000000000)) @ ''; includeSubDomains'')"

section \<open>What a browser is told\<close>

lemma map_of_filter_key: "map_of (filter (\<lambda>(k, _). k \<noteq> name) h) key = (if key = name then None else map_of h key)"
  by (induction h) auto

lemma rawGet_rawSet: "rawGet (rawSet h name v) key = (if key = name then v else rawGet h key)"
  by (simp add: rawGet_def rawSet_def map_of_filter_key)

lemma rawGet_appendVary: "key \<noteq> ''Vary'' \<Longrightarrow> rawGet (appendVary h v) key = rawGet h key"
  by (simp add: rawGet_def appendVary_def rawAdd_def map_of_filter_key Let_def)

lemma varies_rawSet: "\<not> equalFold name ''Vary'' \<Longrightarrow> varies (rawSet h name x) v \<longleftrightarrow> varies h v"
  by (auto simp: varies_def rawSet_def list_ex_iff)

lemma appendVary_varies: "varies (appendVary h ''Origin'') ''Origin''"
proof -
  have "equalFold (trimSpace ''Origin'') ''Origin''" "splitByte ''Origin'' CHR '','' = [''Origin'']" by code_simp+
  then show ?thesis by (auto simp: appendVary_def rawAdd_def varies_def Let_def)
qed

lemma corsNames: "\<not> equalFold ''Access-Control-Allow-Origin'' ''Vary''" "\<not> equalFold ''Access-Control-Allow-Credentials'' ''Vary''"
  "\<not> equalFold ''Access-Control-Expose-Headers'' ''Vary''" "\<not> equalFold ''Access-Control-Allow-Methods'' ''Vary''"
  "\<not> equalFold ''Access-Control-Allow-Headers'' ''Vary''" "\<not> equalFold ''Access-Control-Max-Age'' ''Vary''"
  by code_simp+

lemma setCORSResponseHeaders_get:
  "rawGet (setCORSResponseHeaders w o' a c e) ''Access-Control-Allow-Origin'' = (if a then ''*'' else o')"
  "rawGet (setCORSResponseHeaders w o' a c e) ''Access-Control-Allow-Credentials'' =
     (if c then ''true'' else rawGet w ''Access-Control-Allow-Credentials'')"
  "varies (setCORSResponseHeaders w o' a c e) v \<longleftrightarrow> varies w v"
  by (simp_all add: setCORSResponseHeaders_def Let_def rawGet_rawSet varies_rawSet corsNames)

lemma setCORSPreflightHeaders_get:
  "rawGet (setCORSPreflightHeaders w r a b c) ''Access-Control-Allow-Origin'' = rawGet w ''Access-Control-Allow-Origin''"
  "rawGet (setCORSPreflightHeaders w r a b c) ''Access-Control-Allow-Credentials'' = rawGet w ''Access-Control-Allow-Credentials''"
  "varies (setCORSPreflightHeaders w r a b c) v \<longleftrightarrow> varies w v"
  by (simp_all add: setCORSPreflightHeaders_def Let_def rawGet_rawSet varies_rawSet corsNames)

lemma resolveCORSMW_Inr:
  assumes "resolveCORSMW duration c = Inr m"
  shows "CORSCredentials m = credentials c" "CORSAllowAllOrigin m \<longleftrightarrow> ''*'' \<in> set (origins c)" "\<not> (CORSAllowAllOrigin m \<and> CORSCredentials m)"
    "set (CORSOrigins m) = set (origins c) - {''*''}"
  using assms by (auto simp: resolveCORSMW_def Let_def bindR_Inr_iff split: if_splits)

text \<open>
  C30: Credentials are shared only with declared origins.  Under a resolved policy, a response that had no cross-origin headers
  is told to allow an origin only if the policy is the wildcard or the origin of the request is declared, in some case of its letters;
  credentials are allowed only if the policy has them and together with such an origin, never with \<^verbatim>\<open>*\<close>.  An origin sent as it is declared is
  always allowed, with credentials if the policy has them; and every answer varies on \<^verbatim>\<open>Origin\<close>.
\<close>

theorem cors_credentials_declared:
  assumes "resolveCORSMW duration c = Inr m"
    and "rawGet w ''Access-Control-Allow-Origin'' = []" and "rawGet w ''Access-Control-Allow-Credentials'' = []"
  shows "let h = corsHeaders (corsHandler m w meth r); allow = rawGet h ''Access-Control-Allow-Origin'';
             creds = rawGet h ''Access-Control-Allow-Credentials''; origin = rawGet r ''Origin'';
             declared = list_ex (\<lambda>d. d \<noteq> ''*'' \<and> equalFold d origin) (origins c) in
    varies h ''Origin'' \<and>
    (if allow = [] then creds = [] else (allow = ''*'' \<and> ''*'' \<in> set (origins c)) \<or> (allow = origin \<and> declared)) \<and>
    (if creds = [] then True else creds = ''true'' \<and> credentials c \<and> ''*'' \<notin> set (origins c) \<and> allow = origin \<and> origin \<noteq> ''*'' \<and> declared) \<and>
    (if origin \<noteq> [] \<and> origin \<in> set (origins c)
     then allow = (if ''*'' \<in> set (origins c) then ''*'' else origin) \<and> (creds = ''true'' \<longleftrightarrow> credentials c) else True)"
proof -
  let ?o = "rawGet r ''Origin''"
  define matched where "matched \<longleftrightarrow> CORSAllowAllOrigin m \<or> ?o \<noteq> [] \<and> List.member (CORSOrigins m) ?o"
  note m = resolveCORSMW_Inr[OF assms(1)]
  have w: "rawGet (appendVary w ''Origin'') ''Access-Control-Allow-Origin'' = []"
    "rawGet (appendVary w ''Origin'') ''Access-Control-Allow-Credentials'' = []" using assms(2,3) by (simp_all add: rawGet_appendVary)
  have h: "varies (corsHeaders (corsHandler m w meth r)) ''Origin''"
    "rawGet (corsHeaders (corsHandler m w meth r)) ''Access-Control-Allow-Origin'' =
       (if matched then if CORSAllowAllOrigin m then ''*'' else ?o else [])"
    "rawGet (corsHeaders (corsHandler m w meth r)) ''Access-Control-Allow-Credentials'' =
       (if matched \<and> CORSCredentials m then ''true'' else [])"
    unfolding corsHandler_def Let_def matched_def[symmetric]
    by (simp_all add: setCORSResponseHeaders_get setCORSPreflightHeaders_get w appendVary_varies)
  show ?thesis
  proof (cases matched)
    case True
    then have d: "CORSAllowAllOrigin m \<or> ?o \<noteq> [] \<and> ?o \<in> set (origins c) - {''*''}" using m(4) by (auto simp: matched_def)
    then have "CORSAllowAllOrigin m \<or> list_ex (\<lambda>d. d \<noteq> ''*'' \<and> equalFold d ?o) (origins c)"
      by (auto simp: list_ex_iff equalFold_def)
    with True d m(1-3) h show ?thesis by (auto simp: Let_def)
  next
    case False
    with m h show ?thesis by (auto simp: Let_def matched_def)
  qed
qed

definition demoCORS :: corsMW where
  "demoCORS = newCORS\<lparr>origins := [''https://app.example''], credentials := True\<rparr>"

definition demoCORSPolicy :: corsSettings where
  "demoCORSPolicy = (case resolveCORSMW (\<lambda>_. None) demoCORS of Inr m \<Rightarrow> m
     | Inl _ \<Rightarrow> \<lparr>CORSAllowAllOrigin = False, CORSOrigins = [], CORSMethods = [], CORSHeaders = [], CORSExposeHeaders = [],
         CORSCredentials = False, CORSMaxAge = 0\<rparr>)"

theorem cors_credentials_declared_witness:
  "varies (corsHeaders (corsHandler demoCORSPolicy [] ''GET'' [(''Origin'', [''https://app.example''])])) ''Origin'' \<and>
   rawGet (corsHeaders (corsHandler demoCORSPolicy [] ''GET'' [(''Origin'', [''https://app.example''])])) ''Access-Control-Allow-Credentials'' = ''true'' \<and>
   rawGet (corsHeaders (corsHandler demoCORSPolicy [] ''GET'' [(''Origin'', [''https://app.example''])])) ''Access-Control-Allow-Origin'' =
     ''https://app.example''"
proof -
  have "\<not> isl (resolveCORSMW (\<lambda>_. None) demoCORS)" by code_simp
  then have r: "resolveCORSMW (\<lambda>_. None) demoCORS = Inr demoCORSPolicy" by (auto simp: demoCORSPolicy_def split: sum.splits)
  have e: "rawGet [] ''Access-Control-Allow-Origin'' = []" "rawGet [] ''Access-Control-Allow-Credentials'' = []" by code_simp+
  have c: "rawGet (corsHeaders (corsHandler demoCORSPolicy [] ''GET'' [(''Origin'', [''https://app.example''])])) ''Access-Control-Allow-Credentials'' = ''true''"
    "rawGet [(''Origin'', [''https://app.example''])] ''Origin'' = ''https://app.example''" by code_simp+
  from cors_credentials_declared[OF r e, of "''GET''" "[(''Origin'', [''https://app.example''])]"] c show ?thesis by (simp add: Let_def)
qed

text \<open>The comparison of origins is by bytes: an origin that differs from a declared one in case is not allowed.\<close>

theorem cors_origin_case:
  "equalFold ''https://App.example'' ''https://app.example'' \<and>
   rawGet (corsHeaders (corsHandler demoCORSPolicy [] ''GET'' [(''Origin'', [''https://App.example''])])) ''Access-Control-Allow-Origin'' = []"
  by code_simp

end
