(* ===== verification/Spec2Isabelle.thy ===== *)
theory Spec2Isabelle
  imports Docker_Table Pool_Health Client_Ip Cache_System Negotiation Precondition Redirect Client_Auth Mutation_Registry Cors
begin

text \<open>
  A verification library for the reverse proxy \<^verbatim>\<open>statute\<close>, whose configuration is a Go program: declarations are resolved into
  a canonical model (\<^verbatim>\<open>src/resolved\<close>), compiled into handlers and tables, and served.

  \<^bold>\<open>The program and how its parts interact.\<close>  A handshake selects a certificate and a client-certificate policy by server name.
  A request on the connection is checked against that policy, its client address is derived under the trust policy of the
  listener, and the router chooses a route among the declared ones and those discovered from Docker labels, or a refusal left by a
  discovered rule that could not be kept.  The route runs its chain of middleware (path rewrites, CORS, response cache, content coding,
  preconditions) and ends in a redirect or in a pool of backends with a load-balancing strategy and health checks.  The Docker provider
  rebuilds the discovered routes whenever containers change, and records the containers it is stopping in a file.

  \<^bold>\<open>Conventions.\<close>  A Go string is a list of bytes, a fallible function returns a sum or an option, a map is an association list or a
  function, and a method that changes its receiver returns the new value.  Definitions have the names of the Go functions they
  translate.  Code of other modules is an argument: \<^verbatim>\<open>httpguts.ValidHeaderFieldName\<close> is \<open>valid\<close>, \<^verbatim>\<open>idna.Lookup.ToASCII\<close> is
  \<open>toASCII\<close>.  Clock readings, files, loaded certificates, HTTP dates, compiled regular expressions and the outcome of an upstream
  exchange are arguments as well, and the theorems hold for all of them.  Case folding is that of ASCII.

  \<^bold>\<open>Foundations.\<close>
  \<^item> \<open>Go_Base\<close>: results, bytes, the \<^verbatim>\<open>strings\<close> and \<^verbatim>\<open>slices\<close> packages; \<open>Netip\<close>, \<open>Netip_Roundtrip\<close>: addresses and prefixes of \<^verbatim>\<open>net/netip\<close>
    and the proof that printing an address and parsing it gives it back; \<open>Go_Http\<close>: headers, requests, \<^verbatim>\<open>net.SplitHostPort\<close>.

  \<^bold>\<open>Discovery and routing.\<close>
  \<^item> \<open>Docker_Match\<close> (\<^verbatim>\<open>internal/docker/match.go\<close>): matchers; the containment test between matchers is exact.
  \<^item> \<open>Docker_Rule\<close> (\<^verbatim>\<open>internal/docker/rule.go\<close>): lexer, parser and expansion of Traefik rules.  The recursive descent has fuel, three
    times the number of tokens plus three (each level of the grammar takes one call per token), and is proved never to run out of it; a parsed rule matches exactly the requests its syntax tree means.
  \<^item> \<open>Docker_Envelope\<close> (\<^verbatim>\<open>envelope.go\<close>, \<^verbatim>\<open>envelopeparse.go\<close>): the traffic refused for a rule that is not understood covers all traffic
    the rule may have meant, stated once over a locale for readings of a rule and instantiated with the strict parser.
  \<^item> \<open>Docker_Table\<close> (\<^verbatim>\<open>dockerprovider.go\<close>, \<^verbatim>\<open>docker_route_policy.go\<close>): merging of contributions, conflicting policies, refusals and the
    finished table; a discarded rule is refused by the table built from it.
  \<^item> \<open>Router\<close> (\<^verbatim>\<open>server.go\<close>, \<^verbatim>\<open>routing_selection.go\<close>, the precedence of \<^verbatim>\<open>dockerprovider.go\<close>): dispatch, priorities, quarantines;
    the most specific route wins, independently of the order of discovery, and refused traffic never reaches another route.

  \<^bold>\<open>Connections and clients.\<close>
  \<^item> \<open>Tls_Names\<close> (\<^verbatim>\<open>tlsnames.go\<close>, \<^verbatim>\<open>certrouter.go\<close>): canonical names, the name index with its contract as a locale, certificate selection;
    \<open>Client_Auth\<close> (\<^verbatim>\<open>clientauth.go\<close>, \<^verbatim>\<open>clientauth_table.go\<close>, \<^verbatim>\<open>tls_policy_scoped.go\<close>): no request is served under a client-certificate
    policy other than the one its handshake met.
  \<^item> \<open>Client_Ip\<close> (\<^verbatim>\<open>accesslog.go\<close>, \<^verbatim>\<open>trustedproxy.go\<close>, \<^verbatim>\<open>iplist.go\<close>, \<^verbatim>\<open>ip_selection.go\<close>): an untrusted peer cannot choose its address.

  \<^bold>\<open>Middleware.\<close>
  \<^item> \<open>Middleware_Chain\<close> (\<^verbatim>\<open>middleware_order.go\<close>, the validators): the order of a chain and the routes that never cache.
  \<^item> \<open>Path_Rewrite\<close> (\<^verbatim>\<open>pathrewrite.go\<close>, \<^verbatim>\<open>request_path.go\<close>): a rewritten raw path decodes to the rewritten path; \<open>Redirect\<close>
    (\<^verbatim>\<open>redirect.go\<close>): a client does not choose the authority of a redirect; \<open>Cors\<close> (\<^verbatim>\<open>cors.go\<close>, \<^verbatim>\<open>security_headers.go\<close>).
  \<^item> \<open>Cache_Policy\<close>, \<open>Cache_Freshness\<close>, \<open>Cache_Store\<close>, \<open>Cache_System\<close> (\<^verbatim>\<open>cachecontrol.go\<close> and the files \<^verbatim>\<open>cache_*.go\<close>): what may be stored and
    for how long, and the store as a step relation over interleaved requests: memory is bounded, an entry in use is never freed, a
    lookup has one answer, and an idle cache admits again.
  \<^item> \<open>Negotiation\<close> (\<^verbatim>\<open>compress_negotiation.go\<close>), \<open>Precondition\<close> (\<^verbatim>\<open>internal/httpprecondition\<close>).

  \<^bold>\<open>Backends and workloads.\<close>
  \<^item> \<open>Strategies\<close> (\<^verbatim>\<open>strategies.go\<close>): the pickers and their contract as a locale; \<open>Pool_Health\<close> (\<^verbatim>\<open>healthcheck.go\<close>, \<^verbatim>\<open>passivehealth.go\<close>, the pool
    of \<^verbatim>\<open>server.go\<close>): health decisions and in-flight counters over interleaved attempts.
  \<^item> \<open>Mutation_Registry\<close> (\<^verbatim>\<open>workload_registry.go\<close>): the file of outstanding stops survives failures and crashes at any step.

  \<^bold>\<open>Bounds.\<close>  Counters that wrap in the code (round robin, FNV-1a) wrap at 64 bits in the model; durations saturate as \<^verbatim>\<open>time.Duration\<close> does
  where the code relies on it.  The strict and the tolerant rule parser have the same fuel, each with its proof that it suffices; all other loops are structural or have a termination proof.

  \<^bold>\<open>Not modelled.\<close>  Sockets, \<^verbatim>\<open>net/http\<close> response writers, body streaming, compression codecs, TLS handshakes, ACME and DNS issuance, the Docker
  client and the timers and goroutines of on-demand workloads, retries and timeouts: their behaviour is I/O and scheduling.  The
  rate limiter decides by rounding of \<^verbatim>\<open>float64\<close>, which exact arithmetic would not represent.  Redirects by regular expression
  need an expression engine.  Ingress sanitation, migration from Traefik, export, graph, lint, the analyzers, research code and test
  harnesses are outside the request path the model starts from.
\<close>

end
